(* ===== verification/Forge_Prelude.thy ===== *)
theory Forge_Prelude
  imports Main "HOL-Library.Word" "HOL-Library.Monad_Syntax"
begin

text \<open>
  Machine types of the 32-bit x86 build of the kernel (\<open>src/src/kernel/include/types.h\<close>,
  \<open>src/src/kernel/arch/x86/include/arch/types.h\<close>), the collections of rewrite rules the
  component theories share, and the few facts about options, lists and words that are used by
  more than one of them.

  A C function that can dereference a bad pointer, release memory twice, fail an assertion or
  panic is modelled with an \<open>option\<close> result: \<open>None\<close> says that the execution does not get past that
  point. Loops whose end depends on the heap are \<open>partial_function (option)\<close>, so a loop that never
  ends is \<open>None\<close> as well. A theorem of the form \<open>f x = Some y\<close> therefore says that the call
  returns, that it returns \<open>y\<close>, and that nothing went wrong on the way.
\<close>

unbundle bit_operations_syntax

type_synonym u8 = "8 word"
type_synonym u16 = "16 word"
type_synonym u32 = "32 word"
type_synonym u64 = "64 word"

type_synonym ptr = u32

abbreviation NULL :: ptr where
  "NULL \<equiv> 0"

text \<open>
  \<open>heap_simps\<close> holds the rules that execute loads, stores, allocation and release; \<open>path_simps\<close>
  the rules on pointer chains.
\<close>

named_theorems heap_simps
named_theorems path_simps

subsection \<open>Options\<close>

lemma bind_SomeI [intro]:
  "m = Some x \<Longrightarrow> f x = Some y \<Longrightarrow> Option.bind m f = Some y"
  by simp

lemma bind_SomeE [elim!]:
  assumes "Option.bind m f = Some y"
  obtains x where "m = Some x" "f x = Some y"
  using assms by (cases m) auto

subsection \<open>Lists\<close>

lemma last_conv_appendE:
  assumes "xs \<noteq> []"
  obtains ys where "xs = ys @ [last xs]"
  using assms by (metis append_butlast_last_id)

lemma distinct_map_neq: "distinct (map f (x # xs)) \<Longrightarrow> y \<in> set xs \<Longrightarrow> f y \<noteq> f x"
  by (metis distinct.simps(2) imageI list.set_map list.simps(9))

subsection \<open>Words\<close>

lemma unat_add_no_overflow:
  fixes a b :: "'a::len word"
  assumes "unat a + unat b < 2 ^ LENGTH('a)"
  shows "unat (a + b) = unat a + unat b"
  using assms by (simp add: unat_add_lem)

lemma unat_Suc_no_overflow:
  fixes a :: "'a::len word"
  assumes "Suc (unat a) < 2 ^ LENGTH('a)"
  shows "unat (a + 1) = Suc (unat a)"
  using assms by (simp add: unat_word_ariths)

lemma unat_pred_pos:
  fixes a :: "'a::len word"
  assumes "a \<noteq> 0"
  shows "unat (a - 1) = unat a - 1"
  using assms by (rule unat_minus_one)

end
