(* ===== verification/Forge_Heap.thy ===== *)
theory Forge_Heap
  imports Forge_Prelude
begin

text \<open>
  The C heap as the kernel's data structures see it. Objects of one \<open>struct\<close> type live in a heap of
  their own: a content for every address and the set of addresses that are currently allocated.
  \<open>malloc\<close> and \<open>free\<close> (\<open>src/src/kernel/util.c\<close>) are thin locked wrappers of the allocator in
  \<open>dlmalloc.c\<close>. Which address an allocation returns is not determined by the code modelled here, so
  an operation that allocates takes the returned address as an argument; \<open>fresh\<close> is what a
  successful allocation guarantees. Allocation does not change the content of the cell, so a field
  that the code reads before it writes it holds whatever was there.
\<close>

record 'n heap =
  cells :: "ptr \<Rightarrow> 'n"
  live :: "ptr set"

definition valid :: "'n heap \<Rightarrow> ptr \<Rightarrow> bool" where
  "valid h p \<longleftrightarrow> p \<noteq> NULL \<and> p \<in> live h"

definition fresh :: "'n heap \<Rightarrow> ptr \<Rightarrow> bool" where
  "fresh h p \<longleftrightarrow> p \<noteq> NULL \<and> p \<notin> live h"

definition load :: "'n heap \<Rightarrow> ptr \<Rightarrow> 'n option" where
  "load h p = (if valid h p then Some (cells h p) else None)"

definition upd :: "'n heap \<Rightarrow> ptr \<Rightarrow> ('n \<Rightarrow> 'n) \<Rightarrow> 'n heap option" where
  "upd h p f = (if valid h p then Some (h\<lparr>cells := (cells h)(p := f (cells h p))\<rparr>) else None)"

definition malloc :: "'n heap \<Rightarrow> ptr \<Rightarrow> 'n heap" where
  "malloc h p = (if p = NULL then h else h\<lparr>live := insert p (live h)\<rparr>)"

definition free :: "'n heap \<Rightarrow> ptr \<Rightarrow> 'n heap option" where
  "free h p =
     (if p = NULL then Some h
      else if p \<in> live h then Some (h\<lparr>live := live h - {p}\<rparr>)
      else None)"

definition empty_heap :: "(ptr \<Rightarrow> 'n) \<Rightarrow> 'n heap" where
  "empty_heap junk = \<lparr>cells = junk, live = {}\<rparr>"

subsection \<open>Executing heap operations\<close>

lemma load_valid [heap_simps]: "valid h p \<Longrightarrow> load h p = Some (cells h p)"
  by (simp add: load_def)

lemma upd_valid [heap_simps]:
  "valid h p \<Longrightarrow> upd h p f = Some (h\<lparr>cells := (cells h)(p := f (cells h p))\<rparr>)"
  by (simp add: upd_def)

lemma malloc_nonnull [heap_simps]: "p \<noteq> NULL \<Longrightarrow> malloc h p = h\<lparr>live := insert p (live h)\<rparr>"
  by (simp add: malloc_def)

lemma free_valid [heap_simps]: "valid h p \<Longrightarrow> free h p = Some (h\<lparr>live := live h - {p}\<rparr>)"
  by (simp add: valid_def free_def)

lemma load_NULL [simp]: "load h NULL = None"
  by (simp add: load_def valid_def)

lemma upd_NULL [simp]: "upd h NULL f = None"
  by (simp add: upd_def valid_def)

lemma valid_cells [simp]: "valid (h\<lparr>cells := c\<rparr>) p = valid h p"
  by (simp add: valid_def)

lemma valid_live [simp]: "valid (h\<lparr>live := l\<rparr>) p \<longleftrightarrow> p \<noteq> NULL \<and> p \<in> l"
  by (simp add: valid_def)

lemma not_valid_NULL [simp]: "\<not> valid h NULL"
  by (simp add: valid_def)

lemma valid_nonnull [dest]: "valid h p \<Longrightarrow> p \<noteq> NULL"
  by (simp add: valid_def)

lemma valid_not_fresh: "valid h p \<Longrightarrow> fresh h q \<Longrightarrow> p \<noteq> q"
  by (auto simp: valid_def fresh_def)

lemma fresh_nonnull [dest]: "fresh h p \<Longrightarrow> p \<noteq> NULL"
  by (simp add: fresh_def)

text \<open>Updates of a heap are kept in one order, so that equal heaps are syntactically equal.\<close>

lemma heap_update_order [simp]:
  "h\<lparr>live := l, cells := c\<rparr> = h\<lparr>cells := c, live := l\<rparr>"
  by simp

subsection \<open>Pointer chains\<close>

text \<open>
  \<open>path nxt p ps q\<close>: following \<open>nxt\<close> from \<open>p\<close> visits the addresses \<open>ps\<close> in order and then arrives
  at \<open>q\<close>. No address of \<open>ps\<close> is \<open>NULL\<close>, so a chain that ends in \<open>NULL\<close> is determined by its start.
\<close>

primrec path :: "(ptr \<Rightarrow> ptr) \<Rightarrow> ptr \<Rightarrow> ptr list \<Rightarrow> ptr \<Rightarrow> bool" where
  "path nxt p [] q \<longleftrightarrow> p = q"
| "path nxt p (a # as) q \<longleftrightarrow> p = a \<and> a \<noteq> NULL \<and> path nxt (nxt a) as q"

lemma path_append [path_simps]:
  "path nxt p (as @ bs) q \<longleftrightarrow> (\<exists>r. path nxt p as r \<and> path nxt r bs q)"
  by (induction as arbitrary: p) auto

lemma path_NULL [path_simps]: "path nxt NULL ps q \<longleftrightarrow> ps = [] \<and> q = NULL"
  by (cases ps) auto

lemma path_nonnull: "path nxt p ps q \<Longrightarrow> NULL \<notin> set ps"
  by (induction ps arbitrary: p) auto

lemma path_cong:
  "(\<And>a. a \<in> set ps \<Longrightarrow> nxt a = nxt' a) \<Longrightarrow> path nxt p ps q \<longleftrightarrow> path nxt' p ps q"
  by (induction ps arbitrary: p) auto

lemma path_fun_upd [path_simps]:
  "a \<notin> set ps \<Longrightarrow> path (nxt(a := v)) p ps q \<longleftrightarrow> path nxt p ps q"
  by (rule path_cong) auto

lemma path_unique:
  "path nxt p ps NULL \<Longrightarrow> path nxt p qs NULL \<Longrightarrow> ps = qs"
proof (induction ps arbitrary: p qs)
  case Nil
  then show ?case by (cases qs) auto
next
  case (Cons a ps)
  then show ?case by (cases qs) auto
qed

lemma path_NULL_distinct: "path nxt p ps NULL \<Longrightarrow> distinct ps"
proof (induction ps arbitrary: p)
  case Nil
  then show ?case by simp
next
  case (Cons a ps)
  have "a \<notin> set ps"
  proof
    assume "a \<in> set ps"
    then obtain us vs where ps: "ps = us @ a # vs" by (meson split_list)
    with Cons.prems have "path nxt a (a # vs) NULL" and "path nxt a (a # us @ a # vs) NULL"
      by (auto simp: path_append)
    then have "a # vs = a # us @ a # vs" by (rule path_unique)
    then show False by simp
  qed
  with Cons show ?case by auto
qed

text \<open>The address reached after \<open>i\<close> steps is the \<open>i\<close>-th of the chain.\<close>

lemma path_nth_next:
  assumes "path nxt p ps q" "Suc i < length ps"
  shows "nxt (ps ! i) = ps ! Suc i"
  using assms
proof (induction ps arbitrary: p i)
  case Nil
  then show ?case by simp
next
  case (Cons a ps)
  show ?case
  proof (cases i)
    case 0
    with Cons.prems show ?thesis by (cases ps) auto
  next
    case (Suc j)
    with Cons show ?thesis by auto
  qed
qed

lemma path_last_next: "path nxt p ps q \<Longrightarrow> ps \<noteq> [] \<Longrightarrow> nxt (last ps) = q"
proof (induction ps arbitrary: p)
  case (Cons a ps)
  then show ?case by (cases ps) auto
qed simp

lemma path_hd: "path nxt p ps q \<Longrightarrow> ps \<noteq> [] \<Longrightarrow> hd ps = p"
  by (cases ps) auto

end
