(* ===== verification/Forge_Stack.thy ===== *)
theory Forge_Stack
  imports Forge_Heap
begin

text \<open>
  The lock-free stack of \<open>src/src/kernel/stack.c\<close>, executed by one CPU at a time. The control blocks
  (\<open>struct stack\<close>) and the nodes (\<open>struct node\<close>) are separate heaps. The representation relation
  \<open>stack_rep\<close> ties the pointer structure to the list of stored values, top first; the locale \<open>lifo\<close>
  is the contract the physical memory allocator relies on.
\<close>

section \<open>Model of stack.c\<close>

record snode =
  sn_next :: ptr
  sn_p :: ptr

record stack =
  st_head :: ptr
  st_flags :: u32

record smem =
  stacks :: "stack heap"
  snodes :: "snode heap"

definition STACK_FLAGS_NOMEMLOCK :: u32 where
  "STACK_FLAGS_NOMEMLOCK = 1"

text \<open>\<open>ret\<close> is the address \<open>malloc\<close> returns for the control block.\<close>

definition create_stack :: "smem \<Rightarrow> ptr \<Rightarrow> (smem \<times> ptr) option" where
  "create_stack m ret = do {
     let h = malloc (stacks m) ret;
     h \<leftarrow> upd h ret (\<lambda>s. s\<lparr>st_head := NULL\<rparr>);
     h \<leftarrow> upd h ret (\<lambda>s. s\<lparr>st_flags := 0\<rparr>);
     Some (m\<lparr>stacks := h\<rparr>, ret)
   }"

definition stack_flags :: "smem \<Rightarrow> ptr \<Rightarrow> u32 \<Rightarrow> smem option" where
  "stack_flags m p flags =
     (if p = NULL then Some m
      else do {
        h \<leftarrow> upd (stacks m) p (\<lambda>s. s\<lparr>st_flags := flags\<rparr>);
        Some (m\<lparr>stacks := h\<rparr>)
      })"

text \<open>
  The loop of \<open>delete_stack\<close>. \<open>free\<close> and \<open>free_nolock\<close> differ in the allocator lock they take and
  not in their effect on the heap, so both branches of the flag test release the node.
\<close>

partial_function (option) delete_stack_loop :: "smem \<Rightarrow> ptr \<Rightarrow> ptr \<Rightarrow> smem option" where
  "delete_stack_loop m s n =
     (if n = NULL then Some m
      else do {
        nd \<leftarrow> load (snodes m) n;
        st \<leftarrow> load (stacks m) s;
        h \<leftarrow> (if st_flags st AND STACK_FLAGS_NOMEMLOCK \<noteq> 0
             then free (snodes m) n
             else free (snodes m) n);
        delete_stack_loop (m\<lparr>snodes := h\<rparr>) s (sn_next nd)
      })"

definition delete_stack :: "smem \<Rightarrow> ptr \<Rightarrow> smem option" where
  "delete_stack m p =
     (if p = NULL then Some m
      else do {
        st \<leftarrow> load (stacks m) p;
        delete_stack_loop m p (st_head st)
      })"

text \<open>
  The expansion of \<open>atomic_compare_and_swap(&s->head, n, n->next, n->next, n->next = s->head)\<close>:
  the swap is retried until the head is the node's \<open>next\<close> field, which no statement initialises
  before the first attempt.
\<close>

partial_function (option) stack_push_loop :: "smem \<Rightarrow> ptr \<Rightarrow> ptr \<Rightarrow> smem option" where
  "stack_push_loop m s n = do {
     st \<leftarrow> load (stacks m) s;
     nd \<leftarrow> load (snodes m) n;
     if st_head st = sn_next nd then do {
       h \<leftarrow> upd (stacks m) s (\<lambda>x. x\<lparr>st_head := n\<rparr>);
       Some (m\<lparr>stacks := h\<rparr>)
     } else do {
       h \<leftarrow> upd (snodes m) n (\<lambda>x. x\<lparr>sn_next := st_head st\<rparr>);
       stack_push_loop (m\<lparr>snodes := h\<rparr>) s n
     }
   }"

text \<open>\<open>n\<close> is the address \<open>malloc\<close> or \<open>malloc_nolock\<close> returns for the node.\<close>

definition stack_push :: "smem \<Rightarrow> ptr \<Rightarrow> ptr \<Rightarrow> ptr \<Rightarrow> smem option" where
  "stack_push m s data n =
     (if s = NULL then Some m
      else do {
        st \<leftarrow> load (stacks m) s;
        let h = (if st_flags st AND STACK_FLAGS_NOMEMLOCK \<noteq> 0
                 then malloc (snodes m) n
                 else malloc (snodes m) n);
        h \<leftarrow> upd h n (\<lambda>x. x\<lparr>sn_p := data\<rparr>);
        stack_push_loop (m\<lparr>snodes := h\<rparr>) s n
      })"

text \<open>
  The expansion of \<open>atomic_compare_and_swap(&s->head, s->head->next, _, top, top = s->head)\<close>. The
  new value \<open>s->head->next\<close> is read before the swap is attempted, also when the head is \<open>NULL\<close>.
\<close>

partial_function (option) stack_pop_loop :: "smem \<Rightarrow> ptr \<Rightarrow> ptr \<Rightarrow> (smem \<times> ptr) option" where
  "stack_pop_loop m s top_n = do {
     st \<leftarrow> load (stacks m) s;
     nd \<leftarrow> load (snodes m) (st_head st);
     if st_head st = top_n then do {
       h \<leftarrow> upd (stacks m) s (\<lambda>x. x\<lparr>st_head := sn_next nd\<rparr>);
       Some (m\<lparr>stacks := h\<rparr>, top_n)
     } else stack_pop_loop m s (st_head st)
   }"

definition stack_pop :: "smem \<Rightarrow> ptr \<Rightarrow> (smem \<times> ptr) option" where
  "stack_pop m s =
     (if s = NULL then Some (m, NULL)
      else do {
        st \<leftarrow> load (stacks m) s;
        (m, top_n) \<leftarrow> stack_pop_loop m s (st_head st);
        nd \<leftarrow> load (snodes m) top_n;
        h \<leftarrow> (if st_flags st AND STACK_FLAGS_NOMEMLOCK \<noteq> 0
             then free (snodes m) top_n
             else free (snodes m) top_n);
        Some (m\<lparr>snodes := h\<rparr>, sn_p nd)
      })"

section \<open>Representation\<close>

definition snext :: "smem \<Rightarrow> ptr \<Rightarrow> ptr" where
  "snext m n = sn_next (cells (snodes m) n)"

definition sval :: "smem \<Rightarrow> ptr \<Rightarrow> ptr" where
  "sval m n = sn_p (cells (snodes m) n)"

definition stack_rep :: "smem \<Rightarrow> ptr \<Rightarrow> ptr list \<Rightarrow> ptr list \<Rightarrow> bool" where
  "stack_rep m s ns xs \<longleftrightarrow>
     valid (stacks m) s \<and>
     path (snext m) (st_head (cells (stacks m) s)) ns NULL \<and>
     set ns \<subseteq> live (snodes m) \<and>
     xs = map (sval m) ns"

lemma stack_rep_valid_nodes: "stack_rep m s ns xs \<Longrightarrow> n \<in> set ns \<Longrightarrow> valid (snodes m) n"
  using path_nonnull by (fastforce simp: stack_rep_def valid_def)

lemma stack_rep_distinct: "stack_rep m s ns xs \<Longrightarrow> distinct ns"
  by (auto simp: stack_rep_def intro: path_NULL_distinct)

lemma stack_rep_cong:
  assumes "stack_rep m s ns xs"
    and "valid (stacks m') s"
    and "st_head (cells (stacks m') s) = st_head (cells (stacks m) s)"
    and "set ns \<subseteq> live (snodes m')"
    and "\<And>n. n \<in> set ns \<Longrightarrow> cells (snodes m') n = cells (snodes m) n"
  shows "stack_rep m' s ns xs"
proof -
  have "path (snext m') p ns NULL = path (snext m) p ns NULL" for p
    by (rule path_cong) (simp add: snext_def assms(5))
  moreover have "map (sval m') ns = map (sval m) ns"
    by (simp add: sval_def assms(5))
  ultimately show ?thesis
    using assms by (simp add: stack_rep_def)
qed

lemma create_stack_rep:
  assumes "fresh (stacks m) s"
  obtains m' where "create_stack m s = Some (m', s)" "stack_rep m' s [] []"
    "snodes m' = snodes m" "live (stacks m') = insert s (live (stacks m))"
    "\<forall>t. t \<noteq> s \<longrightarrow> cells (stacks m') t = cells (stacks m) t"
  using assms that
  by (auto simp: create_stack_def heap_simps valid_def stack_rep_def fresh_def)

lemma stack_flags_rep:
  assumes "stack_rep m s ns xs"
  obtains m' where "stack_flags m s f = Some m'" "stack_rep m' s ns xs"
    "snodes m' = snodes m" "live (stacks m') = live (stacks m)"
    "\<forall>t. t \<noteq> s \<longrightarrow> cells (stacks m') t = cells (stacks m) t"
proof -
  have v: "valid (stacks m) s" using assms by (simp add: stack_rep_def)
  define m' where
    "m' = m\<lparr>stacks := (stacks m)\<lparr>cells := (cells (stacks m))
        (s := (cells (stacks m) s)\<lparr>st_flags := f\<rparr>)\<rparr>\<rparr>"
  have "stack_flags m s f = Some m'"
    using v by (auto simp: stack_flags_def heap_simps m'_def)
  moreover have "stack_rep m' s ns xs"
    using assms v by (intro stack_rep_cong [OF assms]) (auto simp: m'_def stack_rep_def)
  ultimately show ?thesis
    using that by (simp add: m'_def)
qed

text \<open>Pushing a freshly allocated node puts the value on top; the rest of the heap is untouched.\<close>

lemma stack_push_rep:
  assumes rep: "stack_rep m s ns xs" and fresh: "fresh (snodes m) n"
  obtains m' where "stack_push m s x n = Some m'" "stack_rep m' s (n # ns) (x # xs)"
    "live (snodes m') = insert n (live (snodes m))"
    "\<forall>k. k \<noteq> n \<longrightarrow> cells (snodes m') k = cells (snodes m) k"
    "live (stacks m') = live (stacks m)"
    "\<forall>t. t \<noteq> s \<longrightarrow> cells (stacks m') t = cells (stacks m) t"
proof -
  let ?hd = "st_head (cells (stacks m) s)"
  define nodes where
    "nodes = (snodes m)\<lparr>cells := (cells (snodes m))(n := (cells (snodes m) n)\<lparr>sn_p := x, sn_next := ?hd\<rparr>),
                        live := insert n (live (snodes m))\<rparr>"
  define m' where
    "m' = m\<lparr>snodes := nodes,
            stacks := (stacks m)\<lparr>cells := (cells (stacks m))
              (s := (cells (stacks m) s)\<lparr>st_head := n\<rparr>)\<rparr>\<rparr>"
  have v: "valid (stacks m) s" "s \<noteq> NULL" and n: "n \<noteq> NULL" "n \<notin> set ns"
    using rep fresh by (auto simp: stack_rep_def fresh_def)
  have exec: "stack_push m s x n = Some m'"
  proof (cases "?hd = sn_next (cells (snodes m) n)")
    case True
    with v n show ?thesis
      by (simp add: stack_push_def stack_push_loop.simps heap_simps valid_nonnull m'_def
          nodes_def Let_def)
  next
    case False
    with v n show ?thesis
      by (simp add: stack_push_def stack_push_loop.simps [of _ s n] heap_simps
          m'_def nodes_def Let_def)
  qed
  have snext: "snext m' = (snext m)(n := ?hd)"
    by (auto simp: fun_eq_iff snext_def m'_def nodes_def)
  have sval: "sval m' = (sval m)(n := x)"
    by (auto simp: fun_eq_iff sval_def m'_def nodes_def)
  have sel: "st_head (cells (stacks m') s) = n" "valid (stacks m') s"
    "live (snodes m') = insert n (live (snodes m))"
    using v by (simp_all add: m'_def nodes_def)
  have "stack_rep m' s (n # ns) (x # xs)"
    using rep n by (auto simp: stack_rep_def sel snext sval path_simps)
  with exec show ?thesis
    by (rule that) (auto simp: m'_def nodes_def)
qed

text \<open>Popping returns the top value and releases its node.\<close>

lemma stack_pop_rep:
  assumes rep: "stack_rep m s (n # ns) (x # xs)"
  obtains m' where "stack_pop m s = Some (m', x)" "stack_rep m' s ns xs"
    "live (snodes m') = live (snodes m) - {n}" "cells (snodes m') = cells (snodes m)"
    "live (stacks m') = live (stacks m)"
    "\<forall>t. t \<noteq> s \<longrightarrow> cells (stacks m') t = cells (stacks m) t"
proof -
  define m' where
    "m' = m\<lparr>stacks := (stacks m)\<lparr>cells := (cells (stacks m))
              (s := (cells (stacks m) s)\<lparr>st_head := snext m n\<rparr>)\<rparr>,
            snodes := (snodes m)\<lparr>live := live (snodes m) - {n}\<rparr>\<rparr>"
  have v: "valid (stacks m) s" and n: "valid (snodes m) n"
    and hd: "st_head (cells (stacks m) s) = n"
    using rep stack_rep_valid_nodes [OF rep, of n] by (auto simp: stack_rep_def)
  have notin: "n \<notin> set ns"
    using stack_rep_distinct [OF rep] by simp
  have exec: "stack_pop m s = Some (m', x)"
    using v n hd rep
    by (auto simp: stack_pop_def stack_pop_loop.simps heap_simps m'_def snext_def
        stack_rep_def sval_def)
  have "stack_rep m' s ns xs"
  proof -
    have "snext m' = snext m" "sval m' = sval m"
      by (auto simp: snext_def sval_def m'_def)
    then show ?thesis
      using rep v notin by (auto simp: stack_rep_def m'_def)
  qed
  with exec show ?thesis
    by (rule that) (auto simp: m'_def)
qed

text \<open>On an empty stack the head is \<open>NULL\<close> and \<open>s->head->next\<close> is read through it.\<close>

lemma stack_pop_empty:
  assumes "stack_rep m s [] []"
  shows "stack_pop m s = None"
  using assms by (auto simp: stack_pop_def stack_pop_loop.simps stack_rep_def heap_simps)

lemma delete_stack_loop_frees:
  assumes "valid (stacks m) s" "path (snext m) p ns NULL" "set ns \<subseteq> live (snodes m)"
  shows "delete_stack_loop m s p =
    Some (m\<lparr>snodes := (snodes m)\<lparr>live := live (snodes m) - set ns\<rparr>\<rparr>)"
  using assms
proof (induction ns arbitrary: m p)
  case Nil
  then show ?case by (simp add: delete_stack_loop.simps)
next
  case (Cons n ns)
  let ?m = "m\<lparr>snodes := (snodes m)\<lparr>live := live (snodes m) - {n}\<rparr>\<rparr>"
  have n: "p = n" "valid (snodes m) n" "n \<notin> set ns"
    using Cons.prems path_NULL_distinct [OF Cons.prems(2)] by (auto simp: valid_def)
  have "snext ?m = snext m"
    by (simp add: snext_def fun_eq_iff)
  then have "delete_stack_loop ?m s (snext m n) =
      Some (?m\<lparr>snodes := (snodes ?m)\<lparr>live := live (snodes ?m) - set ns\<rparr>\<rparr>)"
    using Cons.prems n by (intro Cons.IH) auto
  moreover have "live (snodes m) - {n} - set ns = live (snodes m) - set (n # ns)"
    by auto
  ultimately show ?case
    using n Cons.prems(1) valid_nonnull [OF n(2)]
    by (simp add: delete_stack_loop.simps [of m] heap_simps snext_def)
qed

section \<open>The contract of a stack\<close>

text \<open>
  \<open>rep m s xs\<close>: in memory \<open>m\<close> the handle \<open>s\<close> is a stack with the values \<open>xs\<close>, top first. \<open>ok m n\<close>:
  \<open>n\<close> is an address the allocator may return for a node. An empty stack has no defined \<open>pop\<close>.
\<close>

locale lifo =
  fixes rep :: "'m \<Rightarrow> ptr \<Rightarrow> ptr list \<Rightarrow> bool"
    and ok :: "'m \<Rightarrow> ptr \<Rightarrow> bool"
    and push :: "'m \<Rightarrow> ptr \<Rightarrow> ptr \<Rightarrow> ptr \<Rightarrow> 'm option"
    and pop :: "'m \<Rightarrow> ptr \<Rightarrow> ('m \<times> ptr) option"
  assumes push_rep: "rep m s xs \<Longrightarrow> ok m n \<Longrightarrow> \<exists>m'. push m s x n = Some m' \<and> rep m' s (x # xs)"
    and push_ok: "push m s x n = Some m' \<Longrightarrow> rep m s xs \<Longrightarrow> ok m n \<Longrightarrow> ok m k \<Longrightarrow> k \<noteq> n \<Longrightarrow> ok m' k"
    and pop_rep: "rep m s (x # xs) \<Longrightarrow> \<exists>m'. pop m s = Some (m', x) \<and> rep m' s xs"
    and pop_nil: "rep m s [] \<Longrightarrow> pop m s = None"
begin

lemma pop_push:
  assumes "rep m s xs" "ok m n"
  shows "\<exists>m' m''. push m s x n = Some m' \<and> pop m' s = Some (m'', x) \<and> rep m'' s xs"
  using push_rep [OF assms] pop_rep by blast

lemma pop_iff:
  assumes "rep m s xs"
  shows "(\<exists>m' x. pop m s = Some (m', x)) \<longleftrightarrow> xs \<noteq> []"
  using assms pop_rep pop_nil by (cases xs) force+

end

definition stack_is :: "smem \<Rightarrow> ptr \<Rightarrow> ptr list \<Rightarrow> bool" where
  "stack_is m s xs \<longleftrightarrow> (\<exists>ns. stack_rep m s ns xs)"

lemma stack_is_Cons:
  assumes "stack_is m s (x # xs)"
  obtains n ns where "stack_rep m s (n # ns) (x # xs)"
  using assms by (auto simp: stack_is_def stack_rep_def)

lemma stack_is_Nil: "stack_is m s [] \<Longrightarrow> stack_rep m s [] []"
  by (auto simp: stack_is_def stack_rep_def)

interpretation stk: lifo stack_is "\<lambda>m. fresh (snodes m)" stack_push stack_pop
proof unfold_locales
  fix m s xs n x
  assume "stack_is m s xs" "fresh (snodes m) n"
  then show "\<exists>m'. stack_push m s x n = Some m' \<and> stack_is m' s (x # xs)"
    unfolding stack_is_def by (meson stack_push_rep)
next
  fix m s xs n x m' k
  assume "stack_push m s x n = Some m'" "stack_is m s xs"
    "fresh (snodes m) n" "fresh (snodes m) k" "k \<noteq> n"
  then show "fresh (snodes m') k"
    unfolding stack_is_def fresh_def by (metis stack_push_rep fresh_def insert_iff option.inject)
next
  fix m s x xs
  assume "stack_is m s (x # xs)"
  then show "\<exists>m'. stack_pop m s = Some (m', x) \<and> stack_is m' s xs"
    by (metis stack_is_Cons stack_pop_rep stack_is_def)
next
  fix m s
  assume "stack_is m s []"
  then show "stack_pop m s = None"
    by (simp add: stack_is_Nil stack_pop_empty)
qed

end
