(* ===== verification/Forge_Pmem.thy ===== *)
theory Forge_Pmem
  imports Forge_Stack "HOL-Library.Multiset"
begin

text \<open>
  The physical page allocator: \<open>src/src/kernel/pmem.c\<close> (a stack of free pages) and its PC machine
  layer \<open>src/src/kernel/mach/pc/pmem.c\<close> (the boot memory map and a second stack of pages below 1 MiB
  for firmware). A free page is a heap-allocated \<open>struct phys_page\<close> whose address is on a stack of
  \<open>Forge_Stack\<close>. The invariant \<open>pmem_inv m ps fw\<close> says that the memory state \<open>m\<close> holds the free
  pages \<open>ps\<close> and the free firmware pages \<open>fw\<close>, most recently freed first, and that the free-memory
  counter agrees with them.
\<close>

section \<open>Model of pmem.c\<close>

record phys_page =
  pp_addr :: u64

record pmem =
  pm_stk :: smem
  pm_pages :: "phys_page heap"
  page_stack :: ptr
  freeKiB :: u64
  firmware_stack :: ptr
  totalKiB :: u64

text \<open>The addresses the allocator returns while one page is being freed.\<close>

record pm_alloc =
  al_stack :: ptr
  al_page :: ptr
  al_node :: ptr

definition PAGE_SIZE :: "'a::len word" where
  "PAGE_SIZE = 0x1000"

definition pmem_freek :: "pmem \<Rightarrow> u64" where
  "pmem_freek m = freeKiB m"

definition pmem_alloc :: "pmem \<Rightarrow> (pmem \<times> u64) option" where
  "pmem_alloc m =
     (if page_stack m = NULL then Some (m, 0)
      else do {
        (stk, page) \<leftarrow> stack_pop (pm_stk m) (page_stack m);
        if page = NULL then Some (m\<lparr>pm_stk := stk\<rparr>, 0)
        else do {
          pg \<leftarrow> load (pm_pages m) page;
          h \<leftarrow> free (pm_pages m) page;
          Some (m\<lparr>pm_stk := stk, pm_pages := h, freeKiB := freeKiB m - PAGE_SIZE div 1024\<rparr>, pp_addr pg)
        }
      })"

definition pmem_dealloc :: "pmem \<Rightarrow> u64 \<Rightarrow> pm_alloc \<Rightarrow> pmem option" where
  "pmem_dealloc m p al = do {
     m \<leftarrow> (if page_stack m = NULL then do {
            (stk, s) \<leftarrow> create_stack (pm_stk m) (al_stack al);
            stk \<leftarrow> stack_flags stk s STACK_FLAGS_NOMEMLOCK;
            Some (m\<lparr>pm_stk := stk, page_stack := s\<rparr>)
          } else Some m);
     let h = malloc (pm_pages m) (al_page al);
     h \<leftarrow> upd h (al_page al) (\<lambda>x. x\<lparr>pp_addr := p\<rparr>);
     stk \<leftarrow> stack_push (pm_stk m) (page_stack m) (al_page al) (al_node al);
     Some (m\<lparr>pm_stk := stk, pm_pages := h, freeKiB := freeKiB m + PAGE_SIZE div 1024\<rparr>)
   }"

text \<open>\<open>assert(0)\<close>: pinning a page is not supported and stops the kernel.\<close>

definition pmem_pin :: "pmem \<Rightarrow> u64 \<Rightarrow> pmem option" where
  "pmem_pin m p = None"

section \<open>Model of mach/pc/pmem.c\<close>

definition PMEM_SPECIAL_STANDARD :: u32 where
  "PMEM_SPECIAL_STANDARD = 0"

definition PMEM_SPECIAL_FIRMWARE :: u32 where
  "PMEM_SPECIAL_FIRMWARE = 1"

definition FIRMWARE_END :: u64 where
  "FIRMWARE_END = 0x100000"

definition pmem_size :: "pmem \<Rightarrow> u64" where
  "pmem_size m = totalKiB m"

definition pmem_alloc_special :: "pmem \<Rightarrow> u32 \<Rightarrow> (pmem \<times> u64) option" where
  "pmem_alloc_special m how =
     (if how = PMEM_SPECIAL_STANDARD then pmem_alloc m
      else if how = PMEM_SPECIAL_FIRMWARE then
        (if firmware_stack m = NULL then Some (m, 0)
         else do {
           (stk, page) \<leftarrow> stack_pop (pm_stk m) (firmware_stack m);
           if page = NULL then Some (m\<lparr>pm_stk := stk\<rparr>, 0)
           else do {
             pg \<leftarrow> load (pm_pages m) page;
             h \<leftarrow> free (pm_pages m) page;
             Some (m\<lparr>pm_stk := stk, pm_pages := h\<rparr>, pp_addr pg)
           }
         })
      else Some (m, 0))"

definition pmem_dealloc_special :: "pmem \<Rightarrow> u32 \<Rightarrow> u64 \<Rightarrow> pm_alloc \<Rightarrow> pmem option" where
  "pmem_dealloc_special m how p al =
     (if how = PMEM_SPECIAL_STANDARD then pmem_dealloc m p al
      else if how = PMEM_SPECIAL_FIRMWARE then
        (if firmware_stack m = NULL then Some m
         else do {
           let h = malloc (pm_pages m) (al_page al);
           h \<leftarrow> upd h (al_page al) (\<lambda>x. x\<lparr>pp_addr := p\<rparr>);
           stk \<leftarrow> stack_push (pm_stk m) (firmware_stack m) (al_page al) (al_node al);
           Some (m\<lparr>pm_stk := stk, pm_pages := h\<rparr>)
         })
      else Some m)"

text \<open>
  The boot information tags, in the order of their \<open>next\<close> links; only memory tags carry data that
  is used here. \<open>news\<close> lists what the allocator returns for one freed page after the other; a call
  with too few of them has no result.
\<close>

datatype kboot_tag = Tag_Memory u8 u64 u64 | Tag_Other u32

definition KBOOT_MEMORY_FREE :: u8 where
  "KBOOT_MEMORY_FREE = 0"

fun free_region :: "pmem \<Rightarrow> u64 \<Rightarrow> u64 \<Rightarrow> u32 \<Rightarrow> pm_alloc list
    \<Rightarrow> (pmem \<times> u64 \<times> u32 \<times> pm_alloc list) option" where
  "free_region m base end_a n [] = (if base < end_a then None else Some (m, base, n, []))"
| "free_region m base end_a n (al # news) =
     (if base < end_a then do {
        m \<leftarrow> pmem_dealloc m base al;
        free_region m (base + PAGE_SIZE) end_a (n + 1) news
      } else Some (m, base, n, al # news))"

fun free_usable :: "u64 \<Rightarrow> pmem \<Rightarrow> u64 \<Rightarrow> u32 \<Rightarrow> bool \<Rightarrow> pm_alloc list \<Rightarrow> kboot_tag list
    \<Rightarrow> (pmem \<times> u64 \<times> u32 \<times> bool \<times> pm_alloc list) option" where
  "free_usable kernel_end m base n found news [] = Some (m, base, n, found, news)"
| "free_usable kernel_end m base n found news (Tag_Other t # tags) =
     free_usable kernel_end m base n found news tags"
| "free_usable kernel_end m base n found news (Tag_Memory ty start end_a # tags) =
     (if ty = KBOOT_MEMORY_FREE \<and> end_a > kernel_end then do {
        (m, base, n, news) \<leftarrow>
          free_region m (if start < kernel_end then kernel_end else start) end_a n news;
        free_usable kernel_end m base n True news tags
      } else free_usable kernel_end m base n True news tags)"

function free_fw_region :: "pmem \<Rightarrow> u64 \<Rightarrow> u64 \<Rightarrow> u32 \<Rightarrow> pm_alloc list
    \<Rightarrow> (pmem \<times> u64 \<times> u32 \<times> pm_alloc list) option" where
  "free_fw_region m base end_a n news =
     (if base < end_a then
        (if base = 0xB8000 then free_fw_region m (base + PAGE_SIZE) end_a n news
         else (case news of
             [] \<Rightarrow> None
           | al # news \<Rightarrow> do {
               m \<leftarrow> pmem_dealloc_special m PMEM_SPECIAL_FIRMWARE base al;
               free_fw_region m (base + PAGE_SIZE) end_a (n + 1) news
             }))
      else Some (m, base, n, news))"
  by pat_completeness auto
termination
  by (relation "measure (\<lambda>(m, base, e, n, news).
        2 * length news + (if base = 0xB8000 then 1 else 0))")
    (auto simp: PAGE_SIZE_def)

declare free_fw_region.simps [simp del]

text \<open>
  The \<open>if(base == 0) base += PAGE_SIZE\<close> of the source is followed by the loop header
  \<open>base = memtag->start\<close>, so the adjusted value is never read.
\<close>

fun free_firmware :: "pmem \<Rightarrow> u64 \<Rightarrow> u32 \<Rightarrow> pm_alloc list \<Rightarrow> kboot_tag list
    \<Rightarrow> (pmem \<times> u64 \<times> u32 \<times> pm_alloc list) option" where
  "free_firmware m base n news [] = Some (m, base, n, news)"
| "free_firmware m base n news (Tag_Other t # tags) = free_firmware m base n news tags"
| "free_firmware m base n news (Tag_Memory ty start end_a # tags) =
     (if ty = KBOOT_MEMORY_FREE \<and> end_a \<le> FIRMWARE_END then do {
        let base = (if base = 0 then base + PAGE_SIZE else base);
        let base = start;
        (m, base, n, news) \<leftarrow> free_fw_region m base end_a n news;
        free_firmware m base n news tags
      } else free_firmware m base n news tags)"

text \<open>
  \<open>kernel_end\<close> is the physical end of the kernel image, a linker symbol; \<open>fws\<close> is the address of
  the firmware stack's control block. Both loops of the source read the first tag before they test
  for the end of the list, so an empty tag list faults; no memory tag at all is a panic.
\<close>

definition mach_phys_init ::
  "u64 \<Rightarrow> pmem \<Rightarrow> kboot_tag list \<Rightarrow> pm_alloc list \<Rightarrow> ptr \<Rightarrow> pmem option" where
  "mach_phys_init kernel_end m tags news fws =
     (if tags = [] then None
      else do {
        (m, base, n, found, news) \<leftarrow> free_usable kernel_end m 0 0 False news tags;
        if \<not> found then None
        else do {
          let m = m\<lparr>totalKiB := ucast ((n * PAGE_SIZE) div 1024)\<rparr>;
          (stk, s) \<leftarrow> create_stack (pm_stk m) fws;
          stk \<leftarrow> stack_flags stk s STACK_FLAGS_NOMEMLOCK;
          let m = m\<lparr>pm_stk := stk, firmware_stack := s\<rparr>;
          (m, base, n, news) \<leftarrow> free_firmware m base 0 news tags;
          Some m
        }
      })"

section \<open>Invariant\<close>

lemma PAGE_SIZE_KiB [simp]: "(PAGE_SIZE :: u64) div 1024 = 4"
  by (simp add: PAGE_SIZE_def)

text \<open>
  \<open>pages_at stk h s ns qs\<close>: the handle \<open>s\<close> is a stack with nodes \<open>ns\<close> whose values \<open>qs\<close> are distinct
  live page objects; a \<open>NULL\<close> handle stands for no page.
\<close>

definition pages_at :: "smem \<Rightarrow> phys_page heap \<Rightarrow> ptr \<Rightarrow> ptr list \<Rightarrow> ptr list \<Rightarrow> bool" where
  "pages_at stk h s ns qs \<longleftrightarrow>
     (if s = NULL then ns = [] \<and> qs = []
      else stack_rep stk s ns qs \<and> distinct qs \<and> (\<forall>q \<in> set qs. valid h q))"

definition page_addr :: "phys_page heap \<Rightarrow> ptr \<Rightarrow> u64" where
  "page_addr h q = pp_addr (cells h q)"

definition pmem_inv :: "pmem \<Rightarrow> u64 list \<Rightarrow> u64 list \<Rightarrow> bool" where
  "pmem_inv m ps fw \<longleftrightarrow>
     (\<exists>ns qs ns' qs'.
        pages_at (pm_stk m) (pm_pages m) (page_stack m) ns qs \<and>
        pages_at (pm_stk m) (pm_pages m) (firmware_stack m) ns' qs' \<and>
        set ns \<inter> set ns' = {} \<and> set qs \<inter> set qs' = {} \<and>
        (page_stack m = firmware_stack m \<longrightarrow> page_stack m = NULL) \<and>
        ps = map (page_addr (pm_pages m)) qs \<and> fw = map (page_addr (pm_pages m)) qs' \<and>
        freeKiB m = of_nat (4 * length ps))"

definition al_ok :: "pmem \<Rightarrow> pm_alloc \<Rightarrow> bool" where
  "al_ok m al \<longleftrightarrow>
     fresh (stacks (pm_stk m)) (al_stack al) \<and>
     fresh (pm_pages m) (al_page al) \<and>
     fresh (snodes (pm_stk m)) (al_node al)"

definition news_ok :: "pmem \<Rightarrow> pm_alloc list \<Rightarrow> bool" where
  "news_ok m news \<longleftrightarrow>
     (\<forall>al \<in> set news. al_ok m al) \<and>
     distinct (map al_stack news) \<and> distinct (map al_page news) \<and> distinct (map al_node news)"

subsection \<open>One page\<close>

lemma pages_atD:
  assumes "pages_at stk h s ns qs" "s \<noteq> NULL"
  shows "stack_rep stk s ns qs" "distinct qs" "\<forall>q \<in> set qs. valid h q"
  using assms by (auto simp: pages_at_def)

lemma pages_at_nodes: "pages_at stk h s ns qs \<Longrightarrow> set ns \<subseteq> live (snodes stk)"
  by (auto simp: pages_at_def stack_rep_def split: if_splits)

lemma pages_at_pages: "pages_at stk h s ns qs \<Longrightarrow> q \<in> set qs \<Longrightarrow> valid h q"
  by (auto simp: pages_at_def split: if_splits)

lemma pages_at_stack: "pages_at stk h s ns qs \<Longrightarrow> s \<noteq> NULL \<Longrightarrow> valid (stacks stk) s"
  by (simp add: pages_at_def stack_rep_def)

lemma pages_at_cong:
  assumes "pages_at stk h s ns qs"
    and "s \<noteq> NULL \<longrightarrow> s \<in> live (stacks stk') \<and>
           st_head (cells (stacks stk') s) = st_head (cells (stacks stk) s)"
    and "\<forall>k \<in> set ns. k \<in> live (snodes stk') \<and> cells (snodes stk') k = cells (snodes stk) k"
    and "\<forall>q \<in> set qs. valid h' q"
  shows "pages_at stk' h' s ns qs"
proof (cases "s = NULL")
  case True
  with assms(1) show ?thesis by (simp add: pages_at_def)
next
  case False
  note s = pages_atD [OF assms(1) False]
  have "stack_rep stk' s ns qs"
    using assms(2,3) False by (intro stack_rep_cong [OF s(1)]) (auto simp: valid_def)
  with False s(2) assms(4) show ?thesis by (simp add: pages_at_def)
qed

text \<open>Putting a fresh page object on a stack, as both \<open>pmem_dealloc\<close> functions do.\<close>

definition new_page :: "phys_page heap \<Rightarrow> ptr \<Rightarrow> u64 \<Rightarrow> phys_page heap" where
  "new_page h q p = h\<lparr>cells := (cells h)(q := (cells h q)\<lparr>pp_addr := p\<rparr>), live := insert q (live h)\<rparr>"

lemma new_page_upd [heap_simps]:
  "q \<noteq> NULL \<Longrightarrow> upd (malloc h q) q (\<lambda>x. x\<lparr>pp_addr := p\<rparr>) = Some (new_page h q p)"
  by (simp add: heap_simps new_page_def)

lemma page_addr_new_page [simp]: "page_addr (new_page h q p) = (page_addr h)(q := p)"
  by (auto simp: page_addr_def new_page_def fun_eq_iff)

lemma live_new_page [simp]: "live (new_page h q p) = insert q (live h)"
  by (simp add: new_page_def)

lemma push_page:
  assumes s: "pages_at stk h s ns qs" "s \<noteq> NULL"
    and t: "pages_at stk h t ns' qs'" "s = t \<longrightarrow> t = NULL"
    and q: "fresh h q" and n: "fresh (snodes stk) n"
  obtains stk' where
    "stack_push stk s q n = Some stk'"
    "pages_at stk' (new_page h q p) s (n # ns) (q # qs)"
    "pages_at stk' (new_page h q p) t ns' qs'"
    "q \<notin> set qs \<union> set qs'" "n \<notin> set ns \<union> set ns'"
    "live (snodes stk') = insert n (live (snodes stk))"
    "live (stacks stk') = live (stacks stk)"
proof -
  obtain stk' where push: "stack_push stk s q n = Some stk'"
    and rep: "stack_rep stk' s (n # ns) (q # qs)"
    and nodes: "live (snodes stk') = insert n (live (snodes stk))"
      "\<forall>k. k \<noteq> n \<longrightarrow> cells (snodes stk') k = cells (snodes stk) k"
    and stks: "live (stacks stk') = live (stacks stk)"
      "\<forall>x. x \<noteq> s \<longrightarrow> cells (stacks stk') x = cells (stacks stk) x"
    by (rule stack_push_rep [OF pages_atD(1) [OF s] n, where x = q])
  have notin: "q \<notin> set qs \<union> set qs'" "n \<notin> set ns \<union> set ns'"
    using pages_at_pages [OF s(1)] pages_at_pages [OF t(1)] pages_at_nodes [OF s(1)]
      pages_at_nodes [OF t(1)] q n by (auto simp: fresh_def valid_def)
  have s': "pages_at stk' (new_page h q p) s (n # ns) (q # qs)"
    using rep s notin q pages_at_pages [OF s(1)] pages_atD(2) [OF s]
    by (auto simp: pages_at_def valid_def fresh_def)
  have "\<forall>k \<in> set ns'. k \<noteq> n"
    using notin by auto
  then have t': "pages_at stk' (new_page h q p) t ns' qs'"
    using t notin nodes stks pages_at_nodes [OF t(1)] pages_at_pages [OF t(1)]
      pages_at_stack [OF t(1)]
    by (intro pages_at_cong [OF t(1)]) (auto simp: valid_def)
  show ?thesis
    by (rule that [OF push s' t' notin nodes(1) stks(1)])
qed

text \<open>Taking a page object off a stack, as both \<open>pmem_alloc\<close> functions do.\<close>

lemma pop_page:
  assumes s: "pages_at stk h s (n # ns) (q # qs)" "s \<noteq> NULL"
    and t: "pages_at stk h t ns' qs'" "s = t \<longrightarrow> t = NULL"
    and disj: "set (n # ns) \<inter> set ns' = {}" "set (q # qs) \<inter> set qs' = {}"
  obtains stk' h' where
    "stack_pop stk s = Some (stk', q)" "valid h q" "free h q = Some h'"
    "pages_at stk' h' s ns qs" "pages_at stk' h' t ns' qs'" "page_addr h' = page_addr h"
proof -
  obtain stk' where pop: "stack_pop stk s = Some (stk', q)" and rep: "stack_rep stk' s ns qs"
    and nodes: "live (snodes stk') = live (snodes stk) - {n}" "cells (snodes stk') = cells (snodes stk)"
    and stks: "live (stacks stk') = live (stacks stk)"
      "\<forall>x. x \<noteq> s \<longrightarrow> cells (stacks stk') x = cells (stacks stk) x"
    by (rule stack_pop_rep [OF pages_atD(1) [OF s]])
  have q: "valid h q" "q \<notin> set qs"
    using pages_atD [OF s] by auto
  define h' where "h' = h\<lparr>live := live h - {q}\<rparr>"
  have free: "free h q = Some h'"
    using q by (simp add: heap_simps h'_def)
  have s': "pages_at stk' h' s ns qs"
    using rep s q pages_at_pages [OF s(1)] pages_atD(2) [OF s]
    by (auto simp: pages_at_def h'_def valid_def)
  have t': "pages_at stk' h' t ns' qs'"
    using t disj nodes stks pages_at_nodes [OF t(1)] pages_at_pages [OF t(1)]
      pages_at_stack [OF t(1)]
    by (intro pages_at_cong [OF t(1)]) (auto simp: valid_def h'_def)
  have addr: "page_addr h' = page_addr h"
    by (simp add: page_addr_def h'_def fun_eq_iff)
  show ?thesis
    by (rule that [OF pop q(1) free s' t' addr])
qed

subsection \<open>The operations keep the invariant\<close>

lemma pages_at_ConsE:
  assumes "pages_at stk h s ns qs" "p # ps = map f qs"
  obtains n ns' q qs' where "ns = n # ns'" "qs = q # qs'" "f q = p" "ps = map f qs'" "s \<noteq> NULL"
  using assms by (auto simp: pages_at_def stack_rep_def split: if_splits)

lemma pmem_invE:
  assumes "pmem_inv m ps fw"
  obtains ns qs ns' qs' where
    "pages_at (pm_stk m) (pm_pages m) (page_stack m) ns qs"
    "pages_at (pm_stk m) (pm_pages m) (firmware_stack m) ns' qs'"
    "set ns \<inter> set ns' = {}" "set qs \<inter> set qs' = {}"
    "page_stack m = firmware_stack m \<longrightarrow> firmware_stack m = NULL"
    "ps = map (page_addr (pm_pages m)) qs" "fw = map (page_addr (pm_pages m)) qs'"
    "freeKiB m = of_nat (4 * length ps)"
  using assms unfolding pmem_inv_def by metis

lemma pmem_invI:
  assumes "pages_at (pm_stk m) (pm_pages m) (page_stack m) ns qs"
    "pages_at (pm_stk m) (pm_pages m) (firmware_stack m) ns' qs'"
    "set ns \<inter> set ns' = {}" "set qs \<inter> set qs' = {}"
    "page_stack m = firmware_stack m \<longrightarrow> firmware_stack m = NULL"
    "ps = map (page_addr (pm_pages m)) qs" "fw = map (page_addr (pm_pages m)) qs'"
    "freeKiB m = of_nat (4 * length ps)"
  shows "pmem_inv m ps fw"
  unfolding pmem_inv_def using assms by metis

lemma pmem_alloc_inv:
  assumes "pmem_inv m (p # ps) fw"
  shows "\<exists>m'. pmem_alloc m = Some (m', p) \<and> pmem_inv m' ps fw"
proof -
  obtain ns qs ns' qs' where
    s: "pages_at (pm_stk m) (pm_pages m) (page_stack m) ns qs"
    and t: "pages_at (pm_stk m) (pm_pages m) (firmware_stack m) ns' qs'"
    and disj: "set ns \<inter> set ns' = {}" "set qs \<inter> set qs' = {}"
    and ne: "page_stack m = firmware_stack m \<longrightarrow> firmware_stack m = NULL"
    and ps: "p # ps = map (page_addr (pm_pages m)) qs"
    and fw: "fw = map (page_addr (pm_pages m)) qs'"
    and k: "freeKiB m = of_nat (4 * length (p # ps))"
    by (rule pmem_invE [OF assms])
  obtain n ns1 q qs1 where c: "ns = n # ns1" "qs = q # qs1" "page_addr (pm_pages m) q = p"
    "ps = map (page_addr (pm_pages m)) qs1" "page_stack m \<noteq> NULL"
    by (rule pages_at_ConsE [OF s ps])
  obtain stk h where x: "stack_pop (pm_stk m) (page_stack m) = Some (stk, q)"
    "valid (pm_pages m) q" "free (pm_pages m) q = Some h"
    "pages_at stk h (page_stack m) ns1 qs1" "pages_at stk h (firmware_stack m) ns' qs'"
    "page_addr h = page_addr (pm_pages m)"
    by (rule pop_page [OF s [unfolded c] c(5) t ne disj [unfolded c]])
  define m' where "m' = m\<lparr>pm_stk := stk, pm_pages := h, freeKiB := freeKiB m - PAGE_SIZE div 1024\<rparr>"
  have "pmem_alloc m = Some (m', p)"
    using c x(1-3) valid_nonnull [OF x(2)]
    by (simp add: pmem_alloc_def heap_simps m'_def page_addr_def)
  moreover have "pmem_inv m' ps fw"
    using x c fw disj ne k
    by (intro pmem_invI [of m' ns1 qs1 ns' qs']) (auto simp: m'_def)
  ultimately show ?thesis by blast
qed

lemma pmem_alloc_firmware_inv:
  assumes "pmem_inv m ps (p # fw)"
  shows "\<exists>m'. pmem_alloc_special m PMEM_SPECIAL_FIRMWARE = Some (m', p) \<and> pmem_inv m' ps fw"
proof -
  obtain ns qs ns' qs' where
    s: "pages_at (pm_stk m) (pm_pages m) (page_stack m) ns qs"
    and t: "pages_at (pm_stk m) (pm_pages m) (firmware_stack m) ns' qs'"
    and disj: "set ns \<inter> set ns' = {}" "set qs \<inter> set qs' = {}"
    and ne: "page_stack m = firmware_stack m \<longrightarrow> firmware_stack m = NULL"
    and ps: "ps = map (page_addr (pm_pages m)) qs"
    and fw: "p # fw = map (page_addr (pm_pages m)) qs'"
    and k: "freeKiB m = of_nat (4 * length ps)"
    by (rule pmem_invE [OF assms])
  obtain n ns1 q qs1 where c: "ns' = n # ns1" "qs' = q # qs1" "page_addr (pm_pages m) q = p"
    "fw = map (page_addr (pm_pages m)) qs1" "firmware_stack m \<noteq> NULL"
    by (rule pages_at_ConsE [OF t fw])
  have ne': "firmware_stack m = page_stack m \<longrightarrow> page_stack m = NULL"
    using ne by auto
  have disj': "set (n # ns1) \<inter> set ns = {}" "set (q # qs1) \<inter> set qs = {}"
    using disj c by auto
  obtain stk h where x: "stack_pop (pm_stk m) (firmware_stack m) = Some (stk, q)"
    "valid (pm_pages m) q" "free (pm_pages m) q = Some h"
    "pages_at stk h (firmware_stack m) ns1 qs1" "pages_at stk h (page_stack m) ns qs"
    "page_addr h = page_addr (pm_pages m)"
    by (rule pop_page [OF t [unfolded c] c(5) s ne' disj'])
  define m' where "m' = m\<lparr>pm_stk := stk, pm_pages := h\<rparr>"
  have "pmem_alloc_special m PMEM_SPECIAL_FIRMWARE = Some (m', p)"
    using c x(1-3) valid_nonnull [OF x(2)]
    by (simp add: pmem_alloc_special_def PMEM_SPECIAL_FIRMWARE_def PMEM_SPECIAL_STANDARD_def
        heap_simps m'_def page_addr_def)
  moreover have "pmem_inv m' ps fw"
    using x c ps disj ne k
    by (intro pmem_invI [of m' ns qs ns1 qs1]) (auto simp: m'_def)
  ultimately show ?thesis by blast
qed

lemma al_ok_mono:
  assumes "al_ok m al'" "al_page al' \<noteq> al_page al" "al_node al' \<noteq> al_node al"
    "al_stack al' \<noteq> al_stack al"
    "live (pm_pages m') = insert (al_page al) (live (pm_pages m))"
    "live (snodes (pm_stk m')) = insert (al_node al) (live (snodes (pm_stk m)))"
    "live (stacks (pm_stk m')) \<subseteq> insert (al_stack al) (live (stacks (pm_stk m)))"
  shows "al_ok m' al'"
  using assms by (auto simp: al_ok_def fresh_def)

lemma news_ok_Cons:
  assumes "news_ok m (al # news)"
    "live (pm_pages m') = insert (al_page al) (live (pm_pages m))"
    "live (snodes (pm_stk m')) = insert (al_node al) (live (snodes (pm_stk m)))"
    "live (stacks (pm_stk m')) \<subseteq> insert (al_stack al) (live (stacks (pm_stk m)))"
  shows "news_ok m' news"
proof -
  have "al_ok m' a" if "a \<in> set news" for a
  proof (rule al_ok_mono [OF _ _ _ _ assms(2-4)])
    show "al_ok m a" "al_page a \<noteq> al_page al" "al_node a \<noteq> al_node al" "al_stack a \<noteq> al_stack al"
      using assms(1) that distinct_map_neq [OF _ that, of _ al] unfolding news_ok_def
      by (metis list.set_intros(2))+
  qed
  then show ?thesis
    using assms(1) by (simp add: news_ok_def)
qed

text \<open>The control block of the page stack is created when the first page is freed.\<close>

lemma pmem_dealloc_stack:
  assumes "pmem_inv m ps fw" "al_ok m al"
  obtains m1 where
    "(if page_stack m = NULL then do {
        (stk, s) \<leftarrow> create_stack (pm_stk m) (al_stack al);
        stk \<leftarrow> stack_flags stk s STACK_FLAGS_NOMEMLOCK;
        Some (m\<lparr>pm_stk := stk, page_stack := s\<rparr>)
      } else Some m) = Some m1"
    "pmem_inv m1 ps fw" "page_stack m1 \<noteq> NULL"
    "pm_pages m1 = pm_pages m" "snodes (pm_stk m1) = snodes (pm_stk m)"
    "live (stacks (pm_stk m1)) \<subseteq> insert (al_stack al) (live (stacks (pm_stk m)))"
    "freeKiB m1 = freeKiB m"
proof (cases "page_stack m = NULL")
  case False
  with assms(1) show ?thesis by (intro that [of m]) auto
next
  case True
  obtain ns qs ns' qs' where
    s: "pages_at (pm_stk m) (pm_pages m) (page_stack m) ns qs"
    and t: "pages_at (pm_stk m) (pm_pages m) (firmware_stack m) ns' qs'"
    and disj: "set ns \<inter> set ns' = {}" "set qs \<inter> set qs' = {}"
    and ps: "ps = map (page_addr (pm_pages m)) qs"
    and fw: "fw = map (page_addr (pm_pages m)) qs'"
    and k: "freeKiB m = of_nat (4 * length ps)"
    by (rule pmem_invE [OF assms(1)])
  have nil: "ns = []" "qs = []"
    using s True by (simp_all add: pages_at_def)
  have fr: "fresh (stacks (pm_stk m)) (al_stack al)"
    using assms(2) by (simp add: al_ok_def)
  obtain k1 where c: "create_stack (pm_stk m) (al_stack al) = Some (k1, al_stack al)"
    "stack_rep k1 (al_stack al) [] []" "snodes k1 = snodes (pm_stk m)"
    "live (stacks k1) = insert (al_stack al) (live (stacks (pm_stk m)))"
    "\<forall>t. t \<noteq> al_stack al \<longrightarrow> cells (stacks k1) t = cells (stacks (pm_stk m)) t"
    by (rule create_stack_rep [OF fr])
  obtain k2 where f: "stack_flags k1 (al_stack al) STACK_FLAGS_NOMEMLOCK = Some k2"
    "stack_rep k2 (al_stack al) [] []" "snodes k2 = snodes k1" "live (stacks k2) = live (stacks k1)"
    "\<forall>t. t \<noteq> al_stack al \<longrightarrow> cells (stacks k2) t = cells (stacks k1) t"
    by (rule stack_flags_rep [OF c(2), where f = STACK_FLAGS_NOMEMLOCK])
  let ?m1 = "m\<lparr>pm_stk := k2, page_stack := al_stack al\<rparr>"
  have ne: "firmware_stack m \<noteq> al_stack al" if "firmware_stack m \<noteq> NULL"
    using pages_at_stack [OF t that] fr by (auto simp: fresh_def valid_def)
  have t': "pages_at k2 (pm_pages m) (firmware_stack m) ns' qs'"
    using c f ne pages_at_nodes [OF t] pages_at_pages [OF t] pages_at_stack [OF t]
    by (intro pages_at_cong [OF t]) (auto simp: valid_def)
  have "pmem_inv ?m1 ps fw"
    using t' f(2) ne nil ps fw k fr
    by (intro pmem_invI [of ?m1 "[]" "[]" ns' qs']) (auto simp: pages_at_def fresh_def)
  moreover have "(if page_stack m = NULL then do {
        (stk, s) \<leftarrow> create_stack (pm_stk m) (al_stack al);
        stk \<leftarrow> stack_flags stk s STACK_FLAGS_NOMEMLOCK;
        Some (m\<lparr>pm_stk := stk, page_stack := s\<rparr>)
      } else Some m) = Some ?m1"
    using True c(1) f(1) by simp
  ultimately show ?thesis
    using c f fr by (intro that [of ?m1]) (auto simp: fresh_def)
qed

lemma pmem_dealloc_inv:
  assumes inv: "pmem_inv m ps fw" and ok: "news_ok m (al # news)"
  shows "\<exists>m'. pmem_dealloc m p al = Some m' \<and> pmem_inv m' (p # ps) fw \<and> news_ok m' news \<and>
    live (stacks (pm_stk m')) \<subseteq> insert (al_stack al) (live (stacks (pm_stk m)))"
proof -
  have al: "al_ok m al" using ok by (simp add: news_ok_def)
  obtain m1 where init: "(if page_stack m = NULL then do {
        (stk, s) \<leftarrow> create_stack (pm_stk m) (al_stack al);
        stk \<leftarrow> stack_flags stk s STACK_FLAGS_NOMEMLOCK;
        Some (m\<lparr>pm_stk := stk, page_stack := s\<rparr>)
      } else Some m) = Some m1"
    and inv1: "pmem_inv m1 ps fw" and s1: "page_stack m1 \<noteq> NULL"
    and eq: "pm_pages m1 = pm_pages m" "snodes (pm_stk m1) = snodes (pm_stk m)"
    and lv: "live (stacks (pm_stk m1)) \<subseteq> insert (al_stack al) (live (stacks (pm_stk m)))"
    and "freeKiB m1 = freeKiB m"
    by (rule pmem_dealloc_stack [OF inv al])
  obtain ns qs ns' qs' where
    s: "pages_at (pm_stk m1) (pm_pages m1) (page_stack m1) ns qs"
    and t: "pages_at (pm_stk m1) (pm_pages m1) (firmware_stack m1) ns' qs'"
    and disj: "set ns \<inter> set ns' = {}" "set qs \<inter> set qs' = {}"
    and ne: "page_stack m1 = firmware_stack m1 \<longrightarrow> firmware_stack m1 = NULL"
    and ps: "ps = map (page_addr (pm_pages m1)) qs"
    and fw: "fw = map (page_addr (pm_pages m1)) qs'"
    and k: "freeKiB m1 = of_nat (4 * length ps)"
    by (rule pmem_invE [OF inv1])
  have fr: "fresh (pm_pages m1) (al_page al)" "fresh (snodes (pm_stk m1)) (al_node al)"
    using al eq by (simp_all add: al_ok_def)
  obtain stk where x: "stack_push (pm_stk m1) (page_stack m1) (al_page al) (al_node al) = Some stk"
    "pages_at stk (new_page (pm_pages m1) (al_page al) p) (page_stack m1) (al_node al # ns) (al_page al # qs)"
    "pages_at stk (new_page (pm_pages m1) (al_page al) p) (firmware_stack m1) ns' qs'"
    "al_page al \<notin> set qs \<union> set qs'" "al_node al \<notin> set ns \<union> set ns'"
    "live (snodes stk) = insert (al_node al) (live (snodes (pm_stk m1)))"
    "live (stacks stk) = live (stacks (pm_stk m1))"
    by (rule push_page [OF s s1 t ne fr])
  define m' where "m' = m1\<lparr>pm_stk := stk, pm_pages := new_page (pm_pages m1) (al_page al) p,
      freeKiB := freeKiB m1 + PAGE_SIZE div 1024\<rparr>"
  have "pmem_dealloc m p al = Some m'"
    unfolding pmem_dealloc_def init using x(1) fr(1)
    by (simp add: heap_simps fresh_nonnull m'_def new_page_def)
  moreover have "pmem_inv m' (p # ps) fw"
    using x ps fw disj ne k
    by (intro pmem_invI [of m' "al_node al # ns" "al_page al # qs" ns' qs'])
      (auto simp: m'_def algebra_simps)
  moreover have "news_ok m' news"
    using lv eq x by (intro news_ok_Cons [OF ok]) (auto simp: m'_def)
  moreover have "live (stacks (pm_stk m')) \<subseteq> insert (al_stack al) (live (stacks (pm_stk m)))"
    using lv x by (simp add: m'_def)
  ultimately show ?thesis by blast
qed

lemma pmem_dealloc_firmware_inv:
  assumes inv: "pmem_inv m ps fw" and ok: "news_ok m (al # news)" and t1: "firmware_stack m \<noteq> NULL"
  shows "\<exists>m'. pmem_dealloc_special m PMEM_SPECIAL_FIRMWARE p al = Some m' \<and>
    pmem_inv m' ps (p # fw) \<and> news_ok m' news \<and> firmware_stack m' = firmware_stack m \<and>
    totalKiB m' = totalKiB m"
proof -
  have al: "al_ok m al" using ok by (simp add: news_ok_def)
  obtain ns qs ns' qs' where
    s: "pages_at (pm_stk m) (pm_pages m) (page_stack m) ns qs"
    and t: "pages_at (pm_stk m) (pm_pages m) (firmware_stack m) ns' qs'"
    and disj: "set ns \<inter> set ns' = {}" "set qs \<inter> set qs' = {}"
    and ne: "page_stack m = firmware_stack m \<longrightarrow> firmware_stack m = NULL"
    and ps: "ps = map (page_addr (pm_pages m)) qs"
    and fw: "fw = map (page_addr (pm_pages m)) qs'"
    and k: "freeKiB m = of_nat (4 * length ps)"
    by (rule pmem_invE [OF inv])
  have ne': "firmware_stack m = page_stack m \<longrightarrow> page_stack m = NULL"
    using ne by auto
  have fr: "fresh (pm_pages m) (al_page al)" "fresh (snodes (pm_stk m)) (al_node al)"
    using al by (simp_all add: al_ok_def)
  obtain stk where x: "stack_push (pm_stk m) (firmware_stack m) (al_page al) (al_node al) = Some stk"
    "pages_at stk (new_page (pm_pages m) (al_page al) p) (firmware_stack m) (al_node al # ns') (al_page al # qs')"
    "pages_at stk (new_page (pm_pages m) (al_page al) p) (page_stack m) ns qs"
    "al_page al \<notin> set qs' \<union> set qs" "al_node al \<notin> set ns' \<union> set ns"
    "live (snodes stk) = insert (al_node al) (live (snodes (pm_stk m)))"
    "live (stacks stk) = live (stacks (pm_stk m))"
    by (rule push_page [OF t t1 s ne' fr])
  define m' where "m' = m\<lparr>pm_stk := stk, pm_pages := new_page (pm_pages m) (al_page al) p\<rparr>"
  have "pmem_dealloc_special m PMEM_SPECIAL_FIRMWARE p al = Some m'"
    using x(1) fr(1) t1
    by (simp add: pmem_dealloc_special_def PMEM_SPECIAL_FIRMWARE_def PMEM_SPECIAL_STANDARD_def
        heap_simps fresh_nonnull m'_def new_page_def)
  moreover have "pmem_inv m' ps (p # fw)"
    using x ps fw disj ne k
    by (intro pmem_invI [of m' ns qs "al_node al # ns'" "al_page al # qs'"]) (auto simp: m'_def)
  moreover have "news_ok m' news"
    using x by (intro news_ok_Cons [OF ok]) (auto simp: m'_def)
  ultimately show ?thesis by (auto simp: m'_def)
qed

section \<open>Clients of the page pool\<close>

text \<open>
  A client allocates pages and frees pages it holds: \<open>PFree i al\<close> frees the \<open>i\<close>-th page of its list.
  \<open>pool_ok\<close> says that the client allocates only while \<open>pmem_freek\<close> reports free memory, frees only
  pages it holds, and that the allocator answers with unused addresses.
\<close>

datatype pool_op = PAlloc | PFree nat pm_alloc

definition remove_nth :: "nat \<Rightarrow> 'a list \<Rightarrow> 'a list" where
  "remove_nth i xs = take i xs @ drop (Suc i) xs"

fun pool_run :: "pmem \<Rightarrow> u64 list \<Rightarrow> pool_op list \<Rightarrow> (pmem \<times> u64 list) option" where
  "pool_run m held [] = Some (m, held)"
| "pool_run m held (PAlloc # ops) = do {
     (m, p) \<leftarrow> pmem_alloc m;
     pool_run m (p # held) ops
   }"
| "pool_run m held (PFree i al # ops) = do {
     m \<leftarrow> pmem_dealloc m (held ! i) al;
     pool_run m (remove_nth i held) ops
   }"

fun pool_ok :: "pmem \<Rightarrow> u64 list \<Rightarrow> pool_op list \<Rightarrow> bool" where
  "pool_ok m held [] = True"
| "pool_ok m held (PAlloc # ops) =
     (pmem_freek m \<noteq> 0 \<and>
      (case pmem_alloc m of None \<Rightarrow> True | Some (m', p) \<Rightarrow> pool_ok m' (p # held) ops))"
| "pool_ok m held (PFree i al # ops) =
     (i < length held \<and> al_ok m al \<and>
      (case pmem_dealloc m (held ! i) al of None \<Rightarrow> True
       | Some m' \<Rightarrow> pool_ok m' (remove_nth i held) ops))"

lemma mset_remove_nth: "i < length xs \<Longrightarrow> add_mset (xs ! i) (mset (remove_nth i xs)) = mset xs"
  unfolding remove_nth_def using id_take_nth_drop [of i xs]
  by (metis mset.simps(2) mset_append union_mset_add_mset_right)

lemma pmem_freek_pos:
  assumes "pmem_inv m ps fw" "pmem_freek m \<noteq> 0"
  shows "ps \<noteq> []"
  using assms by (auto simp: pmem_inv_def pmem_freek_def)

lemma pool_run_conserves:
  "pmem_inv m ps fw \<Longrightarrow> pool_ok m held ops \<Longrightarrow>
   \<exists>m' held' ps'. pool_run m held ops = Some (m', held') \<and> pmem_inv m' ps' fw \<and>
     mset ps' + mset held' = mset ps + mset held"
proof (induction m held ops arbitrary: ps rule: pool_run.induct)
  case (2 m held ops)
  then obtain p ps1 where ps: "ps = p # ps1"
    using pmem_freek_pos [of m ps fw] by (cases ps) auto
  with 2(2) obtain m1 where m1: "pmem_alloc m = Some (m1, p)" "pmem_inv m1 ps1 fw"
    using pmem_alloc_inv by blast
  moreover have "pool_ok m1 (p # held) ops"
    using 2(3) m1 by simp
  ultimately obtain m' held' ps' where "pool_run m1 (p # held) ops = Some (m', held')"
      "pmem_inv m' ps' fw" "mset ps' + mset held' = mset ps1 + mset (p # held)"
    using 2(1) [OF m1(1) refl, of ps1] by metis
  with m1 ps show ?case
    by auto
next
  case (3 m held i al ops)
  then have al: "i < length held" "news_ok m [al]"
    by (auto simp: news_ok_def)
  then obtain m1 where m1: "pmem_dealloc m (held ! i) al = Some m1" "pmem_inv m1 (held ! i # ps) fw"
    using pmem_dealloc_inv [OF 3(2)] by blast
  moreover have "pool_ok m1 (remove_nth i held) ops"
    using 3(3) m1 by simp
  ultimately obtain m' held' ps' where "pool_run m1 (remove_nth i held) ops = Some (m', held')"
      "pmem_inv m' ps' fw" "mset ps' + mset held' = mset (held ! i # ps) + mset (remove_nth i held)"
    using 3(1) [OF m1(1), of "held ! i # ps"] by metis
  with m1 al mset_remove_nth [of i held] show ?case
    by auto
qed auto

section \<open>Properties\<close>

text \<open>
  C3. No page is lost or handed out twice: when a client starts with the pool holding the pages
  \<open>ps\<close>, all distinct, then every sequence of allocations and frees returns, the pages in the pool
  and the pages the client holds are together exactly \<open>ps\<close>, each once, the firmware pool is
  untouched, and \<open>pmem_freek\<close> reports four KiB for each page left in the pool.
\<close>

theorem pool_pages_conserved:
  assumes "pmem_inv m ps fw" "distinct ps" "pool_ok m [] ops"
  shows "\<exists>m' held ps'. pool_run m [] ops = Some (m', held) \<and> pmem_inv m' ps' fw \<and>
    mset (ps' @ held) = mset ps \<and> distinct (ps' @ held) \<and> pmem_freek m' = of_nat (4 * length ps')"
proof -
  obtain m' held ps' where "pool_run m [] ops = Some (m', held)" "pmem_inv m' ps' fw"
      "mset (ps' @ held) = mset ps"
    using pool_run_conserves [OF assms(1,3)] by auto
  moreover from this(3) have "distinct (ps' @ held)"
    using assms(2) by (metis mset_eq_imp_distinct_iff)
  moreover from calculation(2) have "pmem_freek m' = of_nat (4 * length ps')"
    by (auto simp: pmem_inv_def pmem_freek_def)
  ultimately show ?thesis
    by blast
qed

definition example_pmem :: pmem where
  "example_pmem =
     \<lparr>pm_stk = \<lparr>stacks = \<lparr>cells = \<lambda>_. \<lparr>st_head = 0x20, st_flags = 1\<rparr>, live = {0x10}\<rparr>,
         snodes = \<lparr>cells = \<lambda>n. (if n = 0x20 then \<lparr>sn_next = 0x21, sn_p = 0x30\<rparr> else \<lparr>sn_next = NULL, sn_p = 0x31\<rparr>),
                   live = {0x20, 0x21}\<rparr>\<rparr>,
      pm_pages = \<lparr>cells = \<lambda>q. (if q = 0x30 then \<lparr>pp_addr = 0x201000\<rparr> else \<lparr>pp_addr = 0x200000\<rparr>),
                  live = {0x30, 0x31}\<rparr>,
      page_stack = 0x10, freeKiB = 8, firmware_stack = NULL, totalKiB = 8\<rparr>"

lemma example_pmem_inv: "pmem_inv example_pmem [0x201000, 0x200000] []"
  by (rule pmem_invI [of _ "[0x20, 0x21]" "[0x30, 0x31]" "[]" "[]"])
    (simp_all add: example_pmem_def pages_at_def stack_rep_def valid_def snext_def sval_def page_addr_def)

lemma pool_pages_conserved_witness:
  "\<exists>m' held ps'. pool_run example_pmem []
       [PAlloc, PAlloc, PFree 1 \<lparr>al_stack = 0x11, al_page = 0x30, al_node = 0x20\<rparr>, PAlloc] = Some (m', held) \<and>
     pmem_inv m' ps' [] \<and> mset (ps' @ held) = mset [0x201000, 0x200000] \<and> distinct (ps' @ held) \<and>
     pmem_freek m' = of_nat (4 * length ps')"
  by (rule pool_pages_conserved [OF example_pmem_inv])
    (simp_all add: example_pmem_def pmem_freek_def pmem_alloc_def pmem_dealloc_def stack_pop_def
      stack_pop_loop.simps stack_push_def stack_push_loop.simps load_def upd_def malloc_def free_def
      valid_def al_ok_def fresh_def remove_nth_def Let_def PAGE_SIZE_def)

text \<open>
  Once the page stack exists and its last page is taken, the next \<open>pmem_alloc\<close> does not return
  0 to report that memory ran out: popping the empty stack reads through the NULL head.
\<close>

theorem pmem_alloc_exhausted_faults:
  assumes "pmem_inv m [] fw" "page_stack m \<noteq> NULL"
  shows "pmem_alloc m = None"
proof -
  have "stack_rep (pm_stk m) (page_stack m) [] []"
    using assms by (auto simp: pmem_inv_def pages_at_def stack_rep_def)
  then show ?thesis
    using assms(2) stack_pop_empty by (simp add: pmem_alloc_def)
qed

lemma pmem_alloc_exhausted_faults_witness:
  "pmem_alloc \<lparr>pm_stk = \<lparr>stacks = \<lparr>cells = \<lambda>_. \<lparr>st_head = NULL, st_flags = 1\<rparr>, live = {0x10}\<rparr>,
      snodes = empty_heap (\<lambda>_. \<lparr>sn_next = 0, sn_p = 0\<rparr>)\<rparr>, pm_pages = empty_heap (\<lambda>_. \<lparr>pp_addr = 0\<rparr>),
      page_stack = 0x10, freeKiB = 0, firmware_stack = NULL, totalKiB = 8\<rparr> = None"
  by (rule pmem_alloc_exhausted_faults [where fw = "[]"], rule pmem_invI [of _ "[]" "[]" "[]" "[]"])
    (simp_all add: pages_at_def stack_rep_def valid_def empty_heap_def)

end
