(* ===== verification/Forge_Pmem_Init.thy ===== *)
theory Forge_Pmem_Init
  imports Forge_Pmem
begin

text \<open>
  What \<open>mach_phys_init\<close> (\<open>src/src/kernel/mach/pc/pmem.c\<close>) makes of a boot memory map: the pages that
  end up on the free stack and on the firmware stack are exactly those a direct reading of the map
  gives, in reverse order.
\<close>

section \<open>Pages of one region\<close>

text \<open>
  \<open>region_pages start end\<close> are the page addresses a region contributes: \<open>start\<close>, \<open>start + PAGE_SIZE\<close>
  and so on below \<open>end\<close>. The region must end a page before the top of the address space, because the
  loop counter wraps otherwise.
\<close>

definition region_count :: "u64 \<Rightarrow> u64 \<Rightarrow> nat" where
  "region_count base end_a = (unat end_a - unat base + 0xFFF) div 0x1000"

definition region_pages :: "u64 \<Rightarrow> u64 \<Rightarrow> u64 list" where
  "region_pages base end_a = map (\<lambda>i. base + of_nat i * PAGE_SIZE) [0..<region_count base end_a]"

definition no_wrap :: "u64 \<Rightarrow> bool" where
  "no_wrap end_a \<longleftrightarrow> unat end_a + 0x1000 \<le> 2 ^ 64"

definition stacks_grow :: "pmem \<Rightarrow> pm_alloc list \<Rightarrow> pmem \<Rightarrow> bool" where
  "stacks_grow m news m' \<longleftrightarrow>
     live (stacks (pm_stk m')) \<subseteq> live (stacks (pm_stk m)) \<union> al_stack ` set news"

fun usable_pages :: "u64 \<Rightarrow> kboot_tag list \<Rightarrow> u64 list" where
  "usable_pages kernel_end [] = []"
| "usable_pages kernel_end (Tag_Other t # tags) = usable_pages kernel_end tags"
| "usable_pages kernel_end (Tag_Memory ty start end_a # tags) =
     (if ty = KBOOT_MEMORY_FREE \<and> end_a > kernel_end
      then region_pages (max kernel_end start) end_a else []) @ usable_pages kernel_end tags"

fun firmware_pages :: "kboot_tag list \<Rightarrow> u64 list" where
  "firmware_pages [] = []"
| "firmware_pages (Tag_Other t # tags) = firmware_pages tags"
| "firmware_pages (Tag_Memory ty start end_a # tags) =
     (if ty = KBOOT_MEMORY_FREE \<and> end_a \<le> FIRMWARE_END
      then filter (\<lambda>p. p \<noteq> 0xB8000) (region_pages start end_a) else []) @ firmware_pages tags"

fun is_memory_tag :: "kboot_tag \<Rightarrow> bool" where
  "is_memory_tag (Tag_Memory ty s e) = True"
| "is_memory_tag (Tag_Other t) = False"

fun tag_no_wrap :: "kboot_tag \<Rightarrow> bool" where
  "tag_no_wrap (Tag_Memory ty s e) = no_wrap e"
| "tag_no_wrap (Tag_Other t) = True"

lemma region_pages_Nil: "\<not> base < end_a \<Longrightarrow> region_pages base end_a = []"
  by (simp add: region_pages_def region_count_def word_less_nat_alt)

lemma page_count_step:
  fixes d :: nat
  assumes "0 < d"
  shows "(d + 0xFFF) div 0x1000 = Suc ((d - 0x1000 + 0xFFF) div 0x1000)"
proof (cases "d \<le> 0x1000")
  case True
  with assms have "(d + 0xFFF) div 0x1000 = 1"
    by (intro div_nat_eqI) auto
  with True show ?thesis by simp
next
  case False
  then have "d + 0xFFF = (d - 0x1000 + 0xFFF) + 0x1000" by simp
  then show ?thesis by simp
qed

lemma unat_PAGE_SIZE [simp]: "unat (PAGE_SIZE :: u64) = 0x1000"
  by (simp add: PAGE_SIZE_def)

lemma unat_next_page:
  assumes "base < end_a" "no_wrap end_a"
  shows "unat (base + PAGE_SIZE) = unat base + 0x1000"
  using assms by (subst unat_add_no_overflow) (simp_all add: no_wrap_def word_less_nat_alt)

lemma region_pages_Cons:
  assumes "base < end_a" "no_wrap end_a"
  shows "region_pages base end_a = base # region_pages (base + PAGE_SIZE) end_a"
proof -
  have lt: "unat base < unat end_a" using assms(1) by (simp add: word_less_nat_alt)
  have count: "region_count base end_a = Suc (region_count (base + PAGE_SIZE) end_a)"
    using lt page_count_step [of "unat end_a - unat base"]
    by (simp add: region_count_def unat_next_page [OF assms] diff_diff_eq)
  have "(\<lambda>i. base + of_nat (Suc i) * PAGE_SIZE) = (\<lambda>i. base + PAGE_SIZE + of_nat i * (PAGE_SIZE :: u64))"
    by (simp add: fun_eq_iff distrib_right)
  then show ?thesis
    unfolding region_pages_def count by (simp add: map_upt_Suc del: upt_Suc)
qed

lemma region_pages_lower: "no_wrap end_a \<Longrightarrow> p \<in> set (region_pages base end_a) \<Longrightarrow> base \<le> p"
proof (induction "region_count base end_a" arbitrary: base)
  case 0
  then show ?case by (simp add: region_pages_def)
next
  case (Suc k)
  show ?case
  proof (cases "base < end_a")
    case False
    with Suc.prems show ?thesis by (simp add: region_pages_Nil)
  next
    case True
    note c = region_pages_Cons [OF True Suc.prems(1)]
    have "length (region_pages base end_a) = Suc (length (region_pages (base + PAGE_SIZE) end_a))"
      by (simp add: c)
    then have "k = region_count (base + PAGE_SIZE) end_a"
      using Suc.hyps(2) by (simp add: region_pages_def)
    then have "p = base \<or> base + PAGE_SIZE \<le> p"
      using Suc.hyps(1) Suc.prems c by auto
    moreover have "base \<le> base + PAGE_SIZE"
      using unat_next_page [OF True Suc.prems(1)] by (simp add: word_le_nat_alt)
    ultimately show ?thesis by auto
  qed
qed

lemma usable_pages_lower:
  assumes "\<forall>t \<in> set tags. tag_no_wrap t" "p \<in> set (usable_pages kernel_end tags)"
  shows "kernel_end \<le> p"
  using assms
proof (induction kernel_end tags rule: usable_pages.induct)
  case (3 kernel_end ty start end_a tags)
  then show ?case
    using region_pages_lower [of end_a p "max kernel_end start"] by (auto split: if_splits)
qed auto

section \<open>The loops of mach\_phys\_init\<close>

lemma stacks_grow_refl [simp]: "stacks_grow m news m"
  by (simp add: stacks_grow_def)

lemma stacks_grow_Cons:
  assumes "live (stacks (pm_stk m1)) \<subseteq> insert (al_stack al) (live (stacks (pm_stk m)))"
    "stacks_grow m1 news m'"
  shows "stacks_grow m (al # news) m'"
  using assms unfolding stacks_grow_def by auto

lemma stacks_grow_drop:
  assumes "stacks_grow m news m1" "stacks_grow m1 (drop k news) m'"
  shows "stacks_grow m news m'"
  using assms set_drop_subset [of k news] unfolding stacks_grow_def by blast

lemma free_region_inv:
  assumes "pmem_inv m ps fw" "news_ok m news" "no_wrap end_a"
    "length (region_pages base end_a) \<le> length news"
  shows "\<exists>m' b n'. free_region m base end_a n news =
      Some (m', b, n', drop (length (region_pages base end_a)) news) \<and>
    pmem_inv m' (rev (region_pages base end_a) @ ps) fw \<and>
    news_ok m' (drop (length (region_pages base end_a)) news) \<and> stacks_grow m news m'"
  using assms
proof (induction news arbitrary: m base n ps)
  case Nil
  then have "\<not> base < end_a"
    using region_pages_Cons [of base end_a] by auto
  with Nil show ?case
    by (simp add: region_pages_Nil)
next
  case (Cons al news)
  show ?case
  proof (cases "base < end_a")
    case False
    with Cons.prems show ?thesis by (simp add: region_pages_Nil)
  next
    case True
    note rp = region_pages_Cons [OF True Cons.prems(3)]
    obtain m1 where d: "pmem_dealloc m base al = Some m1" "pmem_inv m1 (base # ps) fw"
      "news_ok m1 news"
      and g: "live (stacks (pm_stk m1)) \<subseteq> insert (al_stack al) (live (stacks (pm_stk m)))"
      using pmem_dealloc_inv [OF Cons.prems(1,2), of base] by blast
    have len: "length (region_pages (base + PAGE_SIZE) end_a) \<le> length news"
      using Cons.prems(4) rp by simp
    obtain m' b n' where "free_region m1 (base + PAGE_SIZE) end_a (n + 1) news =
        Some (m', b, n', drop (length (region_pages (base + PAGE_SIZE) end_a)) news)"
      "pmem_inv m' (rev (region_pages (base + PAGE_SIZE) end_a) @ base # ps) fw"
      "news_ok m' (drop (length (region_pages (base + PAGE_SIZE) end_a)) news)"
      "stacks_grow m1 news m'"
      using Cons.IH [OF d(2,3) Cons.prems(3) len, of "n + 1"] by blast
    with True d(1) stacks_grow_Cons [OF g] show ?thesis
      by (simp add: rp)
  qed
qed

lemma free_usable_inv:
  assumes "pmem_inv m ps fw" "news_ok m news" "\<forall>t \<in> set tags. tag_no_wrap t"
    "length (usable_pages kernel_end tags) \<le> length news"
  shows "\<exists>m' b n'. free_usable kernel_end m base n found news tags =
      Some (m', b, n', found \<or> (\<exists>t \<in> set tags. is_memory_tag t),
            drop (length (usable_pages kernel_end tags)) news) \<and>
    pmem_inv m' (rev (usable_pages kernel_end tags) @ ps) fw \<and>
    news_ok m' (drop (length (usable_pages kernel_end tags)) news) \<and> stacks_grow m news m'"
  using assms
proof (induction kernel_end m base n found news tags arbitrary: ps rule: free_usable.induct)
  case (3 kernel_end m base n found news ty start end_a tags)
  show ?case
  proof (cases "ty = KBOOT_MEMORY_FREE \<and> end_a > kernel_end")
    case False
    have up: "usable_pages kernel_end (Tag_Memory ty start end_a # tags) = usable_pages kernel_end tags"
      and fu: "free_usable kernel_end m base n found news (Tag_Memory ty start end_a # tags) =
        free_usable kernel_end m base n True news tags"
      unfolding usable_pages.simps free_usable.simps if_not_P [OF False] by simp_all
    have "\<forall>t \<in> set tags. tag_no_wrap t" "length (usable_pages kernel_end tags) \<le> length news"
      using "3.prems"(3,4) up by auto
    then show ?thesis
      unfolding up fu using "3.IH"(2) [OF False "3.prems"(1,2)] by simp
  next
    case True
    let ?b = "if start < kernel_end then kernel_end else start"
    have b: "?b = max kernel_end start" by (auto simp: max_def)
    let ?k = "length (region_pages ?b end_a)"
    have len: "?k \<le> length news" "length (usable_pages kernel_end tags) \<le> length (drop ?k news)"
      using "3.prems"(4) True unfolding b by auto
    have nw: "no_wrap end_a" "\<forall>t \<in> set tags. tag_no_wrap t"
      using "3.prems"(3) by auto
    obtain m1 b1 n1 where r: "free_region m ?b end_a n news = Some (m1, b1, n1, drop ?k news)"
      "pmem_inv m1 (rev (region_pages ?b end_a) @ ps) fw" "news_ok m1 (drop ?k news)"
      "stacks_grow m news m1"
      using free_region_inv [OF "3.prems"(1,2) nw(1) len(1), of n] by blast
    obtain m' b' n' where u: "free_usable kernel_end m1 b1 n1 True (drop ?k news) tags =
        Some (m', b', n', True, drop (length (usable_pages kernel_end tags)) (drop ?k news))"
      "pmem_inv m' (rev (usable_pages kernel_end tags) @ rev (region_pages ?b end_a) @ ps) fw"
      "news_ok m' (drop (length (usable_pages kernel_end tags)) (drop ?k news))"
      "stacks_grow m1 (drop ?k news) m'"
      using "3.IH"(1) [OF True r(1) refl refl refl r(2,3) nw(2) len(2)] by auto
    have up: "usable_pages kernel_end (Tag_Memory ty start end_a # tags) =
        region_pages ?b end_a @ usable_pages kernel_end tags"
      using True b by simp
    have eq: "drop (length (usable_pages kernel_end tags)) (drop ?k news) =
        drop (length (region_pages ?b end_a @ usable_pages kernel_end tags)) news"
      by (simp add: add.commute)
    have "free_usable kernel_end m base n found news (Tag_Memory ty start end_a # tags) =
        Some (m', b', n', True, drop (length (usable_pages kernel_end tags)) (drop ?k news))"
      using True r(1) u(1) by simp
    then show ?thesis
      unfolding up eq [symmetric] using u(2,3) stacks_grow_drop [OF r(4) u(4)] by simp
  qed
qed simp_all

lemma free_fw_region_inv:
  assumes "pmem_inv m ps fw" "news_ok m news" "no_wrap end_a" "firmware_stack m \<noteq> NULL"
    "length (filter (\<lambda>p. p \<noteq> 0xB8000) (region_pages base end_a)) \<le> length news"
  shows "\<exists>m' b n'. free_fw_region m base end_a n news =
      Some (m', b, n', drop (length (filter (\<lambda>p. p \<noteq> 0xB8000) (region_pages base end_a))) news) \<and>
    pmem_inv m' ps (rev (filter (\<lambda>p. p \<noteq> 0xB8000) (region_pages base end_a)) @ fw) \<and>
    news_ok m' (drop (length (filter (\<lambda>p. p \<noteq> 0xB8000) (region_pages base end_a))) news) \<and>
    firmware_stack m' \<noteq> NULL \<and> totalKiB m' = totalKiB m"
  using assms
proof (induction m base end_a n news arbitrary: fw rule: free_fw_region.induct)
  case (1 m base end_a n news)
  note unfold = free_fw_region.simps [of m base end_a n news]
  show ?case
  proof (cases "base < end_a")
    case False
    with "1.prems" show ?thesis by (simp add: unfold region_pages_Nil)
  next
    case lt: True
    note rp = region_pages_Cons [OF lt "1.prems"(3)]
    show ?thesis
    proof (cases "base = 0xB8000")
      case True
      have eq: "free_fw_region m base end_a n news = free_fw_region m (base + PAGE_SIZE) end_a n news"
        unfolding unfold if_P [OF lt] if_P [OF True] ..
      have fp: "filter (\<lambda>p. p \<noteq> 0xB8000) (region_pages base end_a) =
          filter (\<lambda>p. p \<noteq> 0xB8000) (region_pages (base + PAGE_SIZE) end_a)"
        unfolding rp by (simp add: True)
      show ?thesis
        unfolding eq fp using "1.IH"(1) [OF lt True "1.prems"(1-4)] "1.prems"(5) fp by simp
    next
      case False
      then obtain al news' where news: "news = al # news'"
        using "1.prems"(5) rp by (cases news) auto
      obtain m1 where d: "pmem_dealloc_special m PMEM_SPECIAL_FIRMWARE base al = Some m1"
        "pmem_inv m1 ps (base # fw)" "news_ok m1 news'"
        "firmware_stack m1 \<noteq> NULL" "totalKiB m1 = totalKiB m"
        using pmem_dealloc_firmware_inv [OF "1.prems"(1) _ "1.prems"(4)] "1.prems"(2,4) news by metis
      have len: "length (filter (\<lambda>p. p \<noteq> 0xB8000) (region_pages (base + PAGE_SIZE) end_a)) \<le> length news'"
        using "1.prems"(5) rp news False by simp
      have eq: "free_fw_region m base end_a n news = free_fw_region m1 (base + PAGE_SIZE) end_a (n + 1) news'"
        unfolding unfold if_P [OF lt] if_not_P [OF False] using news d(1) by simp
      show ?thesis
        unfolding eq using "1.IH"(2) [OF lt False news d(1-3) "1.prems"(3) d(4) len] d(5) False
        by (simp add: rp news)
    qed
  qed
qed

lemma free_firmware_inv:
  assumes "pmem_inv m ps fw" "news_ok m news" "\<forall>t \<in> set tags. tag_no_wrap t"
    "firmware_stack m \<noteq> NULL" "length (firmware_pages tags) \<le> length news"
  shows "\<exists>m' r. free_firmware m base n news tags = Some (m', r) \<and>
    pmem_inv m' ps (rev (firmware_pages tags) @ fw) \<and> totalKiB m' = totalKiB m"
  using assms
proof (induction m base n news tags arbitrary: fw rule: free_firmware.induct)
  case (3 m base n news ty start end_a tags)
  show ?case
  proof (cases "ty = KBOOT_MEMORY_FREE \<and> end_a \<le> FIRMWARE_END")
    case False
    have up: "firmware_pages (Tag_Memory ty start end_a # tags) = firmware_pages tags"
      and fu: "free_firmware m base n news (Tag_Memory ty start end_a # tags) =
        free_firmware m base n news tags"
      unfolding firmware_pages.simps free_firmware.simps if_not_P [OF False] by simp_all
    have "\<forall>t \<in> set tags. tag_no_wrap t" "length (firmware_pages tags) \<le> length news"
      using "3.prems"(3,5) up by auto
    then show ?thesis
      unfolding up fu using "3.IH"(2) [OF False "3.prems"(1,2) _ "3.prems"(4)] by simp
  next
    case True
    let ?ps = "filter (\<lambda>p. p \<noteq> 0xB8000) (region_pages start end_a)"
    have nw: "no_wrap end_a" "\<forall>t \<in> set tags. tag_no_wrap t"
      using "3.prems"(3) by auto
    have len: "length ?ps \<le> length news" "length (firmware_pages tags) \<le> length (drop (length ?ps) news)"
      using "3.prems"(5) True by auto
    obtain m1 b1 n1 where r: "free_fw_region m start end_a n news = Some (m1, b1, n1, drop (length ?ps) news)"
      "pmem_inv m1 ps (rev ?ps @ fw)" "news_ok m1 (drop (length ?ps) news)"
      "firmware_stack m1 \<noteq> NULL" "totalKiB m1 = totalKiB m"
      using free_fw_region_inv [OF "3.prems"(1,2) nw(1) "3.prems"(4) len(1), of n] by blast
    show ?thesis
      using "3.IH"(1) [OF True refl refl r(1) refl refl refl r(2,3) nw(2) r(4) len(2)] True r(1,5)
      by auto
  qed
qed auto

section \<open>The whole initialisation\<close>

lemma mach_phys_init_correct:
  assumes inv: "pmem_inv m [] []" and news: "news_ok m news"
    and fws: "fresh (stacks (pm_stk m)) fws" "fws \<notin> al_stack ` set news"
    and tags: "\<forall>t \<in> set tags. tag_no_wrap t" "\<exists>t \<in> set tags. is_memory_tag t"
    and len: "length (usable_pages kernel_end tags) + length (firmware_pages tags) \<le> length news"
  shows "\<exists>m'. mach_phys_init kernel_end m tags news fws = Some m' \<and>
    pmem_inv m' (rev (usable_pages kernel_end tags)) (rev (firmware_pages tags))"
proof -
  let ?k = "length (usable_pages kernel_end tags)"
  obtain m1 b1 n1 where u: "free_usable kernel_end m 0 0 False news tags =
      Some (m1, b1, n1, True, drop ?k news)"
    "pmem_inv m1 (rev (usable_pages kernel_end tags)) []" "news_ok m1 (drop ?k news)"
    "stacks_grow m news m1"
    using free_usable_inv [OF inv news tags(1), of kernel_end 0 0 False] tags(2) len by auto
  have fr: "fresh (stacks (pm_stk m1)) fws"
    using fws u(4) by (auto simp: fresh_def stacks_grow_def)
  obtain k1 where c: "create_stack (pm_stk m1) fws = Some (k1, fws)" "stack_rep k1 fws [] []"
    "snodes k1 = snodes (pm_stk m1)" "live (stacks k1) = insert fws (live (stacks (pm_stk m1)))"
    "\<forall>t. t \<noteq> fws \<longrightarrow> cells (stacks k1) t = cells (stacks (pm_stk m1)) t"
    by (rule create_stack_rep [OF fr])
  obtain k2 where f: "stack_flags k1 fws STACK_FLAGS_NOMEMLOCK = Some k2" "stack_rep k2 fws [] []"
    "snodes k2 = snodes k1" "live (stacks k2) = live (stacks k1)"
    "\<forall>t. t \<noteq> fws \<longrightarrow> cells (stacks k2) t = cells (stacks k1) t"
    by (rule stack_flags_rep [OF c(2), where f = STACK_FLAGS_NOMEMLOCK])
  obtain ns qs ns' qs' where
    s: "pages_at (pm_stk m1) (pm_pages m1) (page_stack m1) ns qs"
    and ps: "rev (usable_pages kernel_end tags) = map (page_addr (pm_pages m1)) qs"
    and k: "freeKiB m1 = of_nat (4 * length (rev (usable_pages kernel_end tags)))"
    by (rule pmem_invE [OF u(2)])
  define m2 where "m2 = m1\<lparr>totalKiB := ucast ((n1 * PAGE_SIZE) div 1024), pm_stk := k2, firmware_stack := fws\<rparr>"
  have ne: "page_stack m1 \<noteq> fws" if "page_stack m1 \<noteq> NULL"
    using pages_at_stack [OF s that] fr by (auto simp: fresh_def valid_def)
  have s': "pages_at k2 (pm_pages m1) (page_stack m1) ns qs"
    using c f ne pages_at_nodes [OF s] pages_at_pages [OF s] pages_at_stack [OF s]
    by (intro pages_at_cong [OF s]) (auto simp: valid_def)
  have inv2: "pmem_inv m2 (rev (usable_pages kernel_end tags)) []"
    using s' f(2) ne ps k fr
    by (intro pmem_invI [of m2 ns qs "[]" "[]"]) (auto simp: m2_def pages_at_def fresh_def)
  have "al_stack al \<noteq> fws" if "al \<in> set (drop ?k news)" for al
    using fws(2) that by (metis imageI in_set_dropD)
  then have news2: "news_ok m2 (drop ?k news)"
    using u(3) c(3,4) f(3,4) by (auto simp: news_ok_def al_ok_def fresh_def m2_def)
  have "firmware_stack m2 \<noteq> NULL" "length (firmware_pages tags) \<le> length (drop ?k news)"
    using fws(1) len by (auto simp: m2_def fresh_def)
  then obtain m' r where "free_firmware m2 b1 0 (drop ?k news) tags = Some (m', r)"
    "pmem_inv m' (rev (usable_pages kernel_end tags)) (rev (firmware_pages tags))"
    using free_firmware_inv [OF inv2 news2 tags(1), of b1 0] by auto
  moreover have "tags \<noteq> []" using tags(2) by auto
  ultimately show ?thesis
    using u(1) c(1) f(1) by (auto simp: mach_phys_init_def m2_def)
qed

lemma firmware_pages_zero:
  assumes "Tag_Memory KBOOT_MEMORY_FREE 0 e \<in> set tags" "0 < e" "e \<le> FIRMWARE_END"
  shows "0 \<in> set (firmware_pages tags)"
proof -
  have "no_wrap e"
    using assms(3) by (simp add: no_wrap_def FIRMWARE_END_def word_le_nat_alt)
  then have "0 \<in> set (region_pages 0 e)"
    using assms(2) region_pages_Cons [of 0 e] by simp
  with assms show ?thesis
    by (induction tags rule: firmware_pages.induct) auto
qed

section \<open>Properties\<close>


definition example_init :: pmem where
  "example_init =
     \<lparr>pm_stk = \<lparr>stacks = empty_heap (\<lambda>_. \<lparr>st_head = 0, st_flags = 0\<rparr>),
                snodes = empty_heap (\<lambda>_. \<lparr>sn_next = 0, sn_p = 0\<rparr>)\<rparr>,
      pm_pages = empty_heap (\<lambda>_. \<lparr>pp_addr = 0\<rparr>),
      page_stack = NULL, freeKiB = 0, firmware_stack = NULL, totalKiB = 0\<rparr>"

definition example_news :: "pm_alloc list" where
  "example_news = map (\<lambda>i. \<lparr>al_stack = 0x100 + i, al_page = 0x200 + i, al_node = 0x300 + i\<rparr>) [0, 1, 2, 3]"

definition example_tags :: "kboot_tag list" where
  "example_tags = [Tag_Memory 0 0 0x2000, Tag_Other 9, Tag_Memory 0 0x400000 0x403000]"

lemma example_init_inv: "pmem_inv example_init [] []"
  by (rule pmem_invI [of _ "[]" "[]" "[]" "[]"])
    (simp_all add: example_init_def pages_at_def)

lemma example_news_ok: "news_ok example_init example_news"
  by (simp add: news_ok_def example_news_def al_ok_def fresh_def example_init_def empty_heap_def)

lemma example_fws:
  "fresh (stacks (pm_stk example_init)) 0x50" "(0x50 :: ptr) \<notin> al_stack ` set example_news"
  by (simp_all add: example_init_def example_news_def fresh_def empty_heap_def)

lemma example_tags_ok:
  "\<forall>t \<in> set example_tags. tag_no_wrap t" "\<exists>t \<in> set example_tags. is_memory_tag t"
  by (simp_all add: example_tags_def no_wrap_def)

lemma example_pages:
  "usable_pages 0x401000 example_tags = [0x401000, 0x402000]"
  "firmware_pages example_tags = [0, 0x1000]"
  by (simp_all add: example_tags_def KBOOT_MEMORY_FREE_def FIRMWARE_END_def region_pages_def
      region_count_def PAGE_SIZE_def upt_rec max_def)


text \<open>
  The first page of memory is not kept out of the firmware pool: whenever the map has a free
  region that starts at address 0 and ends in the first MiB, page 0 is in the firmware pool after
  \<open>mach_phys_init\<close>, although \<open>pmem_alloc_special\<close> uses 0 to report failure. The adjustment of
  \<open>base\<close> made for this purpose is overwritten by the loop header.
\<close>

theorem mach_phys_init_page_zero:
  assumes "pmem_inv m [] []" "news_ok m news"
    and "fresh (stacks (pm_stk m)) fws" "fws \<notin> al_stack ` set news"
    and "\<forall>t \<in> set tags. tag_no_wrap t"
    and "length (usable_pages kernel_end tags) + length (firmware_pages tags) \<le> length news"
    and "Tag_Memory KBOOT_MEMORY_FREE 0 e \<in> set tags" "0 < e" "e \<le> FIRMWARE_END"
  shows "\<exists>m' ps fw. mach_phys_init kernel_end m tags news fws = Some m' \<and> pmem_inv m' ps fw \<and> 0 \<in> set fw"
proof -
  have "\<exists>t \<in> set tags. is_memory_tag t"
    using assms(7) by (intro bexI [of _ "Tag_Memory KBOOT_MEMORY_FREE 0 e"]) simp_all
  then obtain m' where "mach_phys_init kernel_end m tags news fws = Some m'"
      "pmem_inv m' (rev (usable_pages kernel_end tags)) (rev (firmware_pages tags))"
    using mach_phys_init_correct [OF assms(1-5) _ assms(6)] by blast
  moreover have "0 \<in> set (firmware_pages tags)"
    using assms(7-9) by (rule firmware_pages_zero)
  ultimately show ?thesis
    by (metis set_rev)
qed

lemma mach_phys_init_page_zero_witness:
  "\<exists>m' ps fw. mach_phys_init 0x401000 example_init example_tags example_news 0x50 = Some m' \<and>
     pmem_inv m' ps fw \<and> 0 \<in> set fw"
  by (rule mach_phys_init_page_zero [OF example_init_inv example_news_ok example_fws example_tags_ok(1),
        of "0x401000" "0x2000"])
    (simp_all add: example_pages, simp_all add: example_news_def example_tags_def
      KBOOT_MEMORY_FREE_def FIRMWARE_END_def)

end
