(* ===== verification/Forge_Queue.thy ===== *)
theory Forge_Queue
  imports Forge_Heap
begin

text \<open>
  The queue of \<open>src/src/kernel/queue.c\<close>: a linked list with a dummy node in front of the first
  element, pushed at the tail and popped at the head with compare-and-swap. The operations are
  executed here by one CPU at a time, so each swap compares against the current value of the field.
  \<open>queue_rep m q d ns xs\<close> says that \<open>q\<close> is a queue with dummy node \<open>d\<close>, element nodes \<open>ns\<close> and
  values \<open>xs\<close>, oldest first. The locale \<open>fifo\<close> is the contract the scheduler and the semaphores use.
\<close>

section \<open>Model of queue.c\<close>

record qnode =
  qn_p :: ptr
  qn_next :: ptr

record queue =
  q_head :: ptr
  q_tail :: ptr
  q_base :: ptr
  q_len :: u32

record qmem =
  queues :: "queue heap"
  qnodes :: "qnode heap"

definition QUEUE_MAGIC :: ptr where
  "QUEUE_MAGIC = 0xDEADBEEF"

text \<open>\<open>ret\<close> and \<open>base\<close> are the addresses of the two allocations.\<close>

definition create_queue :: "qmem \<Rightarrow> ptr \<Rightarrow> ptr \<Rightarrow> (qmem \<times> ptr) option" where
  "create_queue m ret base = do {
     let qh = malloc (queues m) ret;
     let nh = malloc (qnodes m) base;
     nh \<leftarrow> upd nh base (\<lambda>n. n\<lparr>qn_p := QUEUE_MAGIC\<rparr>);
     nh \<leftarrow> upd nh base (\<lambda>n. n\<lparr>qn_next := NULL\<rparr>);
     qh \<leftarrow> upd qh ret (\<lambda>q. q\<lparr>q_base := base\<rparr>);
     qh \<leftarrow> upd qh ret (\<lambda>q. q\<lparr>q_tail := base, q_head := base\<rparr>);
     qh \<leftarrow> upd qh ret (\<lambda>q. q\<lparr>q_len := 0\<rparr>);
     Some (\<lparr>queues = qh, qnodes = nh\<rparr>, ret)
   }"

partial_function (option) delete_queue_loop :: "qmem \<Rightarrow> ptr \<Rightarrow> ptr \<Rightarrow> qmem option" where
  "delete_queue_loop m q n =
     (if n = NULL then Some m
      else do {
        nd \<leftarrow> load (qnodes m) n;
        nh \<leftarrow> free (qnodes m) n;
        qs \<leftarrow> load (queues m) q;
        qh \<leftarrow> (if n = q_base qs then upd (queues m) q (\<lambda>x. x\<lparr>q_base := NULL\<rparr>) else Some (queues m));
        delete_queue_loop (m\<lparr>qnodes := nh, queues := qh\<rparr>) q (qn_next nd)
      })"

definition delete_queue :: "qmem \<Rightarrow> ptr \<Rightarrow> qmem option" where
  "delete_queue m q =
     (if q = NULL then Some m
      else do {
        qs \<leftarrow> load (queues m) q;
        m \<leftarrow> delete_queue_loop m q (q_head qs);
        qs \<leftarrow> load (queues m) q;
        nh \<leftarrow> (if q_base qs \<noteq> NULL then free (qnodes m) (q_base qs) else Some (qnodes m));
        qh \<leftarrow> free (queues m) q;
        Some (m\<lparr>qnodes := nh, queues := qh\<rparr>)
      })"

text \<open>
  \<open>cas_next\<close>, \<open>cas_tail\<close> and \<open>cas_head\<close> are the compare-and-swap operations on \<open>tail->next\<close>,
  \<open>q->tail\<close> and \<open>q->head\<close>: the flag says whether the swap took place.
\<close>

definition cas_next :: "qmem \<Rightarrow> ptr \<Rightarrow> ptr \<Rightarrow> ptr \<Rightarrow> (bool \<times> qmem) option" where
  "cas_next m n old new = do {
     nd \<leftarrow> load (qnodes m) n;
     if qn_next nd = old then do {
       nh \<leftarrow> upd (qnodes m) n (\<lambda>x. x\<lparr>qn_next := new\<rparr>);
       Some (True, m\<lparr>qnodes := nh\<rparr>)
     } else Some (False, m)
   }"

definition cas_tail :: "qmem \<Rightarrow> ptr \<Rightarrow> ptr \<Rightarrow> ptr \<Rightarrow> (bool \<times> qmem) option" where
  "cas_tail m q old new = do {
     qs \<leftarrow> load (queues m) q;
     if q_tail qs = old then do {
       qh \<leftarrow> upd (queues m) q (\<lambda>x. x\<lparr>q_tail := new\<rparr>);
       Some (True, m\<lparr>queues := qh\<rparr>)
     } else Some (False, m)
   }"

definition cas_head :: "qmem \<Rightarrow> ptr \<Rightarrow> ptr \<Rightarrow> ptr \<Rightarrow> (bool \<times> qmem) option" where
  "cas_head m q old new = do {
     qs \<leftarrow> load (queues m) q;
     if q_head qs = old then do {
       qh \<leftarrow> upd (queues m) q (\<lambda>x. x\<lparr>q_head := new\<rparr>);
       Some (True, m\<lparr>queues := qh\<rparr>)
     } else Some (False, m)
   }"

text \<open>The \<open>while(1)\<close> loop of \<open>queue_push\<close>; its result is the node behind which \<open>n\<close> was linked.\<close>

partial_function (option) queue_push_loop :: "qmem \<Rightarrow> ptr \<Rightarrow> ptr \<Rightarrow> (qmem \<times> ptr) option" where
  "queue_push_loop m q n = do {
     qs \<leftarrow> load (queues m) q;
     nd \<leftarrow> load (qnodes m) (q_tail qs);
     qs' \<leftarrow> load (queues m) q;
     if q_tail qs = q_tail qs' then
       (if qn_next nd = NULL then do {
          (ok, m) \<leftarrow> cas_next m (q_tail qs) (qn_next nd) n;
          if ok then Some (m, q_tail qs) else queue_push_loop m q n
        } else do {
          (ok, m) \<leftarrow> cas_tail m q (q_tail qs) (qn_next nd);
          queue_push_loop m q n
        })
     else queue_push_loop m q n
   }"

definition queue_push :: "qmem \<Rightarrow> ptr \<Rightarrow> ptr \<Rightarrow> ptr \<Rightarrow> qmem option" where
  "queue_push m q data n =
     (if q = NULL then Some m
      else do {
        let nh = malloc (qnodes m) n;
        nh \<leftarrow> upd nh n (\<lambda>x. x\<lparr>qn_p := data\<rparr>);
        nh \<leftarrow> upd nh n (\<lambda>x. x\<lparr>qn_next := NULL\<rparr>);
        (m, t) \<leftarrow> queue_push_loop (m\<lparr>qnodes := nh\<rparr>) q n;
        (ok, m) \<leftarrow> cas_tail m q t n;
        qh \<leftarrow> upd (queues m) q (\<lambda>x. x\<lparr>q_len := q_len x + 1\<rparr>);
        Some (m\<lparr>queues := qh\<rparr>)
      })"

text \<open>
  The \<open>while(1)\<close> loop of \<open>queue_pop\<close>: \<open>None\<close> inside the result is the early \<open>return 0\<close>, otherwise
  the value and the unlinked node.
\<close>

partial_function (option) queue_pop_loop :: "qmem \<Rightarrow> ptr \<Rightarrow> (qmem \<times> (ptr \<times> ptr) option) option" where
  "queue_pop_loop m q = do {
     qs \<leftarrow> load (queues m) q;
     nd \<leftarrow> load (qnodes m) (q_head qs);
     qs' \<leftarrow> load (queues m) q;
     if q_head qs = q_head qs' then
       (if q_head qs = q_tail qs then
          (if qn_next nd = NULL then Some (m, None)
           else do {
             (ok, m) \<leftarrow> cas_tail m q (q_tail qs) (qn_next nd);
             queue_pop_loop m q
           })
        else do {
          nn \<leftarrow> load (qnodes m) (qn_next nd);
          (ok, m) \<leftarrow> cas_head m q (q_head qs) (qn_next nd);
          if ok then Some (m, Some (qn_p nn, q_head qs)) else queue_pop_loop m q
        })
     else queue_pop_loop m q
   }"

definition queue_pop :: "qmem \<Rightarrow> ptr \<Rightarrow> (qmem \<times> ptr) option" where
  "queue_pop m q =
     (if q = NULL then Some (m, NULL)
      else do {
        (m, r) \<leftarrow> queue_pop_loop m q;
        (case r of
           None \<Rightarrow> Some (m, NULL)
         | Some (ret, hd_n) \<Rightarrow> do {
             nh \<leftarrow> free (qnodes m) hd_n;
             qh \<leftarrow> upd (queues m) q (\<lambda>x. x\<lparr>q_len := q_len x - 1\<rparr>);
             Some (m\<lparr>qnodes := nh, queues := qh\<rparr>, ret)
           })
      })"

definition queue_empty :: "qmem \<Rightarrow> ptr \<Rightarrow> bool option" where
  "queue_empty m q =
     (if q = NULL then Some False
      else do {
        qs \<leftarrow> load (queues m) q;
        if q_head qs = q_tail qs then do {
          nd \<leftarrow> load (qnodes m) (q_head qs);
          Some (qn_next nd = NULL)
        } else Some False
      })"

section \<open>Representation\<close>

definition qnext :: "qmem \<Rightarrow> ptr \<Rightarrow> ptr" where
  "qnext m n = qn_next (cells (qnodes m) n)"

definition qval :: "qmem \<Rightarrow> ptr \<Rightarrow> ptr" where
  "qval m n = qn_p (cells (qnodes m) n)"

abbreviation qctl :: "qmem \<Rightarrow> ptr \<Rightarrow> queue" where
  "qctl m q \<equiv> cells (queues m) q"

definition queue_rep :: "qmem \<Rightarrow> ptr \<Rightarrow> ptr \<Rightarrow> ptr list \<Rightarrow> ptr list \<Rightarrow> bool" where
  "queue_rep m q d ns xs \<longleftrightarrow>
     valid (queues m) q \<and>
     path (qnext m) (q_head (qctl m q)) (d # ns) NULL \<and>
     q_tail (qctl m q) = last (d # ns) \<and>
     set (d # ns) \<subseteq> live (qnodes m) \<and>
     xs = map (qval m) ns \<and>
     q_len (qctl m q) = of_nat (length xs)"

text \<open>Everything but the nodes of \<open>q\<close> and its control block is the same in \<open>m'\<close> as in \<open>m\<close>.\<close>

definition queue_frame :: "qmem \<Rightarrow> ptr \<Rightarrow> ptr set \<Rightarrow> qmem \<Rightarrow> bool" where
  "queue_frame m q ns m' \<longleftrightarrow>
     (\<forall>p. p \<noteq> q \<longrightarrow> (p \<in> live (queues m') \<longleftrightarrow> p \<in> live (queues m)) \<and> qctl m' p = qctl m p) \<and>
     (\<forall>n. n \<notin> ns \<longrightarrow> (n \<in> live (qnodes m') \<longleftrightarrow> n \<in> live (qnodes m)) \<and>
        cells (qnodes m') n = cells (qnodes m) n)"

lemma queue_rep_distinct: "queue_rep m q d ns xs \<Longrightarrow> distinct (d # ns)"
  unfolding queue_rep_def using path_NULL_distinct by blast

lemma queue_rep_node_valid:
  assumes "queue_rep m q d ns xs" "n \<in> set (d # ns)"
  shows "valid (qnodes m) n"
proof -
  have "NULL \<notin> set (d # ns)"
    using assms(1) path_nonnull unfolding queue_rep_def by blast
  with assms show ?thesis
    unfolding queue_rep_def valid_def by blast
qed

lemma queue_rep_head: "queue_rep m q d ns xs \<Longrightarrow> q_head (qctl m q) = d"
  by (simp add: queue_rep_def)

lemma queue_rep_tail_next: "queue_rep m q d ns xs \<Longrightarrow> qnext m (last (d # ns)) = NULL"
  unfolding queue_rep_def using path_last_next [of "qnext m"] by blast

text \<open>A queue is not disturbed by an operation on another queue with other nodes.\<close>

lemma queue_rep_frame:
  assumes rep: "queue_rep m q' d ns xs" and frame: "queue_frame m q A m'"
    and "q' \<noteq> q" "set (d # ns) \<inter> A = {}"
  shows "queue_rep m' q' d ns xs"
proof -
  have cells: "cells (qnodes m') n = cells (qnodes m) n" "n \<in> live (qnodes m')"
    if "n \<in> set (d # ns)" for n
    using that frame assms(4) rep by (auto simp: queue_frame_def queue_rep_def)
  have "path (qnext m') (q_head (qctl m q')) (d # ns) NULL"
    using rep cells path_cong [of "d # ns" "qnext m'" "qnext m" "q_head (qctl m q')" NULL]
    unfolding queue_rep_def qnext_def by simp
  moreover have "map (qval m') ns = map (qval m) ns"
    using cells by (simp add: qval_def)
  moreover have "qctl m' q' = qctl m q'" "valid (queues m') q'"
    using frame assms(3) rep by (auto simp: queue_frame_def queue_rep_def valid_def)
  ultimately show ?thesis
    using rep cells(2) by (simp add: queue_rep_def subset_iff)
qed

section \<open>The operations implement a FIFO queue\<close>

lemma create_queue_rep:
  assumes "fresh (queues m) q" "fresh (qnodes m) b"
  obtains m' where "create_queue m q b = Some (m', q)" "queue_rep m' q b [] []"
    "queue_frame m q {b} m'" "q_base (qctl m' q) = b"
  using assms that
  by (auto simp: create_queue_def heap_simps fresh_def queue_rep_def queue_frame_def qnext_def)

lemma queue_push_rep:
  assumes rep: "queue_rep m q d ns xs" and fresh: "fresh (qnodes m) n"
  obtains m' where "queue_push m q x n = Some m'" "queue_rep m' q d (ns @ [n]) (xs @ [x])"
    "queue_frame m q (set (d # ns) \<union> {n}) m'" "q_base (qctl m' q) = q_base (qctl m q)"
    "live (qnodes m') = insert n (live (qnodes m))"
proof -
  define t where "t = last (d # ns)"
  have t: "t \<in> live (qnodes m)" "t \<noteq> NULL" "t \<noteq> n" "t \<in> set (d # ns)"
    using queue_rep_node_valid [OF rep, of t] fresh by (auto simp: t_def valid_def fresh_def)
  have v: "valid (queues m) q" "q \<noteq> NULL" and tail: "q_tail (qctl m q) = t"
    and nx: "qn_next (cells (qnodes m) t) = NULL"
    using rep queue_rep_tail_next [OF rep] unfolding t_def by (auto simp: queue_rep_def qnext_def)
  have n: "n \<noteq> NULL" "n \<notin> set (d # ns)"
    using fresh rep by (auto simp: fresh_def queue_rep_def)
  define nh where "nh = (qnodes m)\<lparr>
      cells := (cells (qnodes m))(n := (cells (qnodes m) n)\<lparr>qn_p := x, qn_next := NULL\<rparr>,
                                  t := (cells (qnodes m) t)\<lparr>qn_next := n\<rparr>),
      live := insert n (live (qnodes m))\<rparr>"
  define m' where "m' = m\<lparr>qnodes := nh, queues := (queues m)\<lparr>cells := (cells (queues m))
      (q := (qctl m q)\<lparr>q_tail := n, q_len := q_len (qctl m q) + 1\<rparr>)\<rparr>\<rparr>"
  have exec: "queue_push m q x n = Some m'"
    using v t n tail nx
    by (simp add: queue_push_def queue_push_loop.simps cas_next_def cas_tail_def heap_simps
        m'_def nh_def)
  have qn: "qnext m' = (qnext m)(n := NULL, t := n)"
    using t by (auto simp: fun_eq_iff qnext_def m'_def nh_def)
  have qv: "qval m' k = (if k = n then x else qval m k)" for k
    using t by (auto simp: qval_def m'_def nh_def)
  obtain ys where ys: "d # ns = ys @ [t]"
    unfolding t_def by (metis append_butlast_last_id list.discI)
  have dist: "distinct (ys @ [t])"
    using queue_rep_distinct [OF rep] ys by metis
  have "path (qnext m) d (ys @ [t]) NULL"
    using rep queue_rep_head [OF rep] unfolding queue_rep_def ys by simp
  then have "path (qnext m') d (ys @ [t] @ [n]) NULL"
    using dist n ys t by (auto simp: path_simps qn)
  then have "path (qnext m') d (d # ns @ [n]) NULL"
    using ys by (metis append_Cons append_assoc)
  moreover have "map (qval m') (ns @ [n]) = xs @ [x]"
    using rep n by (auto simp: queue_rep_def qv)
  ultimately have "queue_rep m' q d (ns @ [n]) (xs @ [x])"
    using rep v by (auto simp: queue_rep_def m'_def nh_def)
  moreover have "queue_frame m q (set (d # ns) \<union> {n}) m'"
    using t by (auto simp: queue_frame_def m'_def nh_def)
  ultimately show ?thesis
    using exec by (intro that [of m']) (auto simp: m'_def nh_def)
qed

lemma queue_pop_rep:
  assumes rep: "queue_rep m q d (n # ns) (x # xs)"
  obtains m' where "queue_pop m q = Some (m', x)" "queue_rep m' q n ns xs"
    "queue_frame m q (set (d # n # ns)) m'" "q_base (qctl m' q) = q_base (qctl m q)"
    "live (qnodes m') = live (qnodes m) - {d}"
proof -
  have v: "valid (queues m) q" "q \<noteq> NULL" "valid (qnodes m) d" "valid (qnodes m) n"
    using rep queue_rep_node_valid [OF rep] by (auto simp: queue_rep_def)
  have hd: "q_head (qctl m q) = d" and nx: "qn_next (cells (qnodes m) d) = n"
    and x: "qn_p (cells (qnodes m) n) = x"
    using rep by (auto simp: queue_rep_def qnext_def qval_def)
  have dist: "distinct (d # n # ns)"
    by (rule queue_rep_distinct [OF rep])
  have tail: "q_tail (qctl m q) = last (n # ns)" "q_tail (qctl m q) \<noteq> d"
    using rep dist last_in_set [of "n # ns"] by (auto simp: queue_rep_def simp del: last_in_set)
  define m' where "m' = m\<lparr>
      queues := (queues m)\<lparr>cells := (cells (queues m))
        (q := (qctl m q)\<lparr>q_head := n, q_len := q_len (qctl m q) - 1\<rparr>)\<rparr>,
      qnodes := (qnodes m)\<lparr>live := live (qnodes m) - {d}\<rparr>\<rparr>"
  have exec: "queue_pop m q = Some (m', x)"
    using v hd nx x tail
    by (simp add: queue_pop_def queue_pop_loop.simps cas_head_def heap_simps m'_def)
  have eq: "qnext m' = qnext m" "qval m' = qval m"
    by (auto simp: fun_eq_iff qnext_def qval_def m'_def)
  have "queue_rep m' q n ns xs"
    using rep dist tail v unfolding queue_rep_def eq by (auto simp: m'_def)
  moreover have "queue_frame m q (set (d # n # ns)) m'"
    by (auto simp: queue_frame_def m'_def)
  ultimately show ?thesis
    using exec by (intro that [of m']) (auto simp: m'_def)
qed

lemma queue_pop_empty:
  assumes "queue_rep m q d [] []"
  shows "queue_pop m q = Some (m, NULL)"
  using assms queue_rep_node_valid [OF assms, of d]
  by (auto simp: queue_pop_def queue_pop_loop.simps queue_rep_def qnext_def heap_simps)

lemma queue_empty_rep:
  assumes rep: "queue_rep m q d ns xs"
  shows "queue_empty m q = Some (xs = [])"
proof (cases ns)
  case Nil
  then show ?thesis
    using rep queue_rep_node_valid [OF rep, of d]
    by (auto simp: queue_empty_def queue_rep_def qnext_def heap_simps)
next
  case (Cons n ns')
  moreover have "d \<noteq> last (n # ns')"
    using queue_rep_distinct [OF rep] Cons last_in_set by (metis distinct.simps(2) list.discI)
  ultimately show ?thesis
    using rep by (auto simp: queue_empty_def queue_rep_def heap_simps)
qed

subsection \<open>Deleting a queue\<close>

lemma delete_queue_loop_frees:
  assumes "path (qnext m) p ns NULL" "set ns \<subseteq> live (qnodes m)" "valid (queues m) q"
  shows "\<exists>m'. delete_queue_loop m q p = Some m' \<and> live (qnodes m') = live (qnodes m) - set ns \<and>
     cells (qnodes m') = cells (qnodes m) \<and> live (queues m') = live (queues m) \<and>
     (\<forall>k. k \<noteq> q \<longrightarrow> qctl m' k = qctl m k) \<and>
     q_base (qctl m' q) = (if q_base (qctl m q) \<in> set ns then NULL else q_base (qctl m q))"
  using assms
proof (induction ns arbitrary: m p)
  case Nil
  then show ?case
    by (simp add: delete_queue_loop.simps)
next
  case (Cons a ns)
  have a: "p = a" "a \<noteq> NULL" "valid (qnodes m) a" "path (qnext m) (qnext m a) ns NULL"
    using Cons.prems by (auto simp: valid_def)
  have an: "a \<notin> set ns" "NULL \<notin> set ns"
    using path_NULL_distinct [of "qnext m" p "a # ns"] path_nonnull [of "qnext m" p "a # ns"]
      Cons.prems(1) by auto
  define m1 where "m1 = m\<lparr>qnodes := (qnodes m)\<lparr>live := live (qnodes m) - {a}\<rparr>,
     queues := if a = q_base (qctl m q)
       then (queues m)\<lparr>cells := (cells (queues m))(q := (qctl m q)\<lparr>q_base := NULL\<rparr>)\<rparr>
       else queues m\<rparr>"
  have eq: "qnext m1 = qnext m"
    by (simp add: fun_eq_iff qnext_def m1_def)
  have step: "delete_queue_loop m q p = delete_queue_loop m1 q (qnext m a)"
    using a Cons.prems(3)
    by (subst delete_queue_loop.simps) (auto simp: heap_simps m1_def qnext_def)
  have sel: "live (qnodes m1) = live (qnodes m) - {a}" "cells (qnodes m1) = cells (qnodes m)"
    "live (queues m1) = live (queues m)" "\<forall>k. k \<noteq> q \<longrightarrow> qctl m1 k = qctl m k"
    "q_base (qctl m1 q) = (if a = q_base (qctl m q) then NULL else q_base (qctl m q))"
    by (auto simp: m1_def)
  have "\<exists>m'. delete_queue_loop m1 q (qnext m a) = Some m' \<and>
      live (qnodes m') = live (qnodes m1) - set ns \<and> cells (qnodes m') = cells (qnodes m1) \<and>
      live (queues m') = live (queues m1) \<and> (\<forall>k. k \<noteq> q \<longrightarrow> qctl m' k = qctl m1 k) \<and>
      q_base (qctl m' q) = (if q_base (qctl m1 q) \<in> set ns then NULL else q_base (qctl m1 q))"
    using a an Cons.prems by (intro Cons.IH) (auto simp: eq sel valid_def)
  then show ?case
    unfolding step sel using an sel(4) by fastforce
qed

text \<open>
  A queue that was never popped still has its first dummy node as \<open>base\<close>, and \<open>delete_queue\<close> frees
  exactly its nodes and its control block.
\<close>

lemma delete_queue_unpopped:
  assumes rep: "queue_rep m q d ns xs" and base: "q_base (qctl m q) = d"
  obtains m' where "delete_queue m q = Some m'"
    "live (qnodes m') = live (qnodes m) - set (d # ns)" "live (queues m') = live (queues m) - {q}"
proof -
  have v: "valid (queues m) q" "q \<noteq> NULL"
    using rep by (auto simp: queue_rep_def)
  obtain m1 where m1: "delete_queue_loop m q (q_head (qctl m q)) = Some m1"
    "live (qnodes m1) = live (qnodes m) - set (d # ns)" "live (queues m1) = live (queues m)"
    "q_base (qctl m1 q) = NULL"
    using delete_queue_loop_frees [of m "q_head (qctl m q)" "d # ns" q] rep base
    unfolding queue_rep_def by auto
  have "valid (queues m1) q"
    using v m1(3) by (simp add: valid_def)
  then show ?thesis
    using v m1 by (intro that [of "m1\<lparr>queues := (queues m1)\<lparr>live := live (queues m) - {q}\<rparr>\<rparr>"])
      (auto simp: delete_queue_def heap_simps)
qed

text \<open>
  A pop frees the dummy node; when that node was \<open>base\<close> and its address has not been handed out
  again, \<open>delete_queue\<close> frees it a second time.
\<close>

lemma delete_queue_dangling_base:
  assumes rep: "queue_rep m q d ns xs"
    and base: "q_base (qctl m q) \<notin> live (qnodes m)" "q_base (qctl m q) \<noteq> NULL"
  shows "delete_queue m q = None"
proof -
  have v: "valid (queues m) q" "q \<noteq> NULL" "q_base (qctl m q) \<notin> set (d # ns)"
    using rep base by (auto simp: queue_rep_def)
  obtain m1 where m1: "delete_queue_loop m q (q_head (qctl m q)) = Some m1"
    "live (qnodes m1) = live (qnodes m) - set (d # ns)" "live (queues m1) = live (queues m)"
    "q_base (qctl m1 q) = q_base (qctl m q)"
    using delete_queue_loop_frees [of m "q_head (qctl m q)" "d # ns" q] rep v(3)
    unfolding queue_rep_def by auto
  have "valid (queues m1) q" "free (qnodes m1) (q_base (qctl m q)) = None"
    using v m1 base by (auto simp: valid_def free_def)
  then show ?thesis
    using v m1 base by (simp add: delete_queue_def heap_simps)
qed

section \<open>Contract of a FIFO queue\<close>

definition queue_is :: "ptr \<Rightarrow> qmem \<Rightarrow> ptr list \<Rightarrow> bool" where
  "queue_is q m xs \<longleftrightarrow> (\<exists>d ns. queue_rep m q d ns xs)"

text \<open>
  A run of queue operations, on an implementation and on a list: \<open>Enq x n\<close> pushes \<open>x\<close> with the
  allocator answering \<open>n\<close>. \<open>ops_ok\<close> says that each allocation of the run is answered with an address
  the allocator may hand out at that point; a freed node may be handed out again.
\<close>

datatype qop = Enq ptr ptr | Deq

fun run_ops :: "('m \<Rightarrow> ptr \<Rightarrow> ptr \<Rightarrow> 'm option) \<Rightarrow> ('m \<Rightarrow> ('m \<times> ptr) option) \<Rightarrow> 'm \<Rightarrow> qop list
    \<Rightarrow> ('m \<times> ptr list) option" where
  "run_ops push pop m [] = Some (m, [])"
| "run_ops push pop m (Enq x n # ops) = do {
     m \<leftarrow> push m x n;
     run_ops push pop m ops
   }"
| "run_ops push pop m (Deq # ops) = do {
     (m, x) \<leftarrow> pop m;
     (m, out) \<leftarrow> run_ops push pop m ops;
     Some (m, x # out)
   }"

fun ops_ok :: "('m \<Rightarrow> ptr \<Rightarrow> bool) \<Rightarrow> ('m \<Rightarrow> ptr \<Rightarrow> ptr \<Rightarrow> 'm option) \<Rightarrow> ('m \<Rightarrow> ('m \<times> ptr) option)
    \<Rightarrow> 'm \<Rightarrow> qop list \<Rightarrow> bool" where
  "ops_ok ok push pop m [] = True"
| "ops_ok ok push pop m (Enq x n # ops) =
     (ok m n \<and> (case push m x n of None \<Rightarrow> True | Some m' \<Rightarrow> ops_ok ok push pop m' ops))"
| "ops_ok ok push pop m (Deq # ops) =
     (case pop m of None \<Rightarrow> True | Some (m', x) \<Rightarrow> ops_ok ok push pop m' ops)"

fun fifo_run :: "ptr list \<Rightarrow> qop list \<Rightarrow> ptr list \<times> ptr list" where
  "fifo_run xs [] = (xs, [])"
| "fifo_run xs (Enq x n # ops) = fifo_run (xs @ [x]) ops"
| "fifo_run [] (Deq # ops) = apsnd (Cons NULL) (fifo_run [] ops)"
| "fifo_run (x # xs) (Deq # ops) = apsnd (Cons x) (fifo_run xs ops)"

text \<open>\<open>ok\<close> says which addresses the allocator may hand out in a state.\<close>

locale fifo =
  fixes rep :: "'m \<Rightarrow> ptr list \<Rightarrow> bool"
    and ok :: "'m \<Rightarrow> ptr \<Rightarrow> bool"
    and push :: "'m \<Rightarrow> ptr \<Rightarrow> ptr \<Rightarrow> 'm option"
    and pop :: "'m \<Rightarrow> ('m \<times> ptr) option"
    and empty :: "'m \<Rightarrow> bool option"
  assumes push_rep: "rep m xs \<Longrightarrow> ok m n \<Longrightarrow> \<exists>m'. push m x n = Some m' \<and> rep m' (xs @ [x])"
    and pop_rep: "rep m (x # xs) \<Longrightarrow> \<exists>m'. pop m = Some (m', x) \<and> rep m' xs"
    and pop_nil: "rep m [] \<Longrightarrow> pop m = Some (m, NULL)"
    and empty_rep: "rep m xs \<Longrightarrow> empty m = Some (xs = [])"
begin

text \<open>A pop followed by a push of the value, the rotation of a ready queue, keeps all elements.\<close>

lemma pop_push_back:
  assumes "rep m (x # xs)" "\<forall>m'. pop m = Some (m', x) \<longrightarrow> ok m' n"
  shows "\<exists>m1 m2. pop m = Some (m1, x) \<and> push m1 x n = Some m2 \<and> rep m2 (xs @ [x])"
  using pop_rep [OF assms(1)] push_rep assms(2) by blast

lemma push_nonempty:
  assumes "rep m xs" "ok m n" "push m x n = Some m'"
  shows "empty m' = Some False"
  using push_rep [OF assms(1,2), of x] assms(3) empty_rep [of m' "xs @ [x]"] by auto

lemma run_refines:
  "rep m xs \<Longrightarrow> ops_ok ok push pop m ops \<Longrightarrow>
   \<exists>m'. run_ops push pop m ops = Some (m', snd (fifo_run xs ops)) \<and> rep m' (fst (fifo_run xs ops))"
proof (induction xs ops arbitrary: m rule: fifo_run.induct)
  case (2 xs x n ops)
  then obtain m1 where "push m x n = Some m1" "rep m1 (xs @ [x])"
    using push_rep [of m xs n x] by auto
  with 2 show ?case
    by simp
next
  case (3 ops)
  have p: "pop m = Some (m, NULL)"
    using 3(2) by (rule pop_nil)
  with 3 obtain m' where "run_ops push pop m ops = Some (m', snd (fifo_run [] ops))"
    "rep m' (fst (fifo_run [] ops))"
    by auto
  with p show ?case
    by simp
next
  case (4 x xs ops)
  then obtain m1 where m1: "pop m = Some (m1, x)" "rep m1 xs"
    using pop_rep [of m x xs] by auto
  with 4 obtain m' where "run_ops push pop m1 ops = Some (m', snd (fifo_run xs ops))"
    "rep m' (fst (fifo_run xs ops))"
    by auto
  with m1 show ?case
    by simp
qed simp

end

interpretation que: fifo "queue_is q" "\<lambda>m. fresh (qnodes m)"
  "\<lambda>m. queue_push m q" "\<lambda>m. queue_pop m q" "\<lambda>m. queue_empty m q"
proof unfold_locales
  fix m xs n x
  assume "queue_is q m xs" "fresh (qnodes m) n"
  then show "\<exists>m'. queue_push m q x n = Some m' \<and> queue_is q m' (xs @ [x])"
    unfolding queue_is_def by (metis queue_push_rep)
next
  fix m x xs
  assume "queue_is q m (x # xs)"
  then obtain d ns where rep: "queue_rep m q d ns (x # xs)"
    unfolding queue_is_def by blast
  then obtain n ns' where "ns = n # ns'"
    by (cases ns) (auto simp: queue_rep_def)
  with rep show "\<exists>m'. queue_pop m q = Some (m', x) \<and> queue_is q m' xs"
    unfolding queue_is_def by (metis queue_pop_rep)
next
  fix m
  assume "queue_is q m []"
  then obtain d where "queue_rep m q d [] []"
    unfolding queue_is_def queue_rep_def by auto
  then show "queue_pop m q = Some (m, NULL)"
    by (rule queue_pop_empty)
next
  fix m xs
  assume "queue_is q m xs"
  then show "queue_empty m q = Some (xs = [])"
    unfolding queue_is_def using queue_empty_rep by blast
qed

section \<open>Properties\<close>

text \<open>
  C1. Every run of pushes and pops on a queue returns and yields exactly the values a list used as
  a first-in first-out queue yields, a pop of the empty queue yielding NULL; the queue then holds
  what that list holds. Node addresses may be reused by the allocator during the run.
\<close>

theorem queue_run_fifo:
  assumes "queue_is q m xs"
    and "ops_ok (\<lambda>m. fresh (qnodes m)) (\<lambda>m. queue_push m q) (\<lambda>m. queue_pop m q) m ops"
  shows "\<exists>m'. run_ops (\<lambda>m. queue_push m q) (\<lambda>m. queue_pop m q) m ops
                = Some (m', snd (fifo_run xs ops)) \<and> queue_is q m' (fst (fifo_run xs ops))"
  using assms by (rule que.run_refines)

definition example_queue :: qmem where
  "example_queue =
     \<lparr>queues = \<lparr>cells = \<lambda>_. \<lparr>q_head = 0x200, q_tail = 0x200, q_base = 0x200, q_len = 0\<rparr>, live = {0x100}\<rparr>,
      qnodes = \<lparr>cells = \<lambda>_. \<lparr>qn_p = QUEUE_MAGIC, qn_next = NULL\<rparr>, live = {0x200}\<rparr>\<rparr>"

lemma example_queue_is: "queue_is 0x100 example_queue []"
  unfolding queue_is_def
  by (rule exI [of _ "0x200"], rule exI [of _ "[]"])
    (simp add: example_queue_def queue_rep_def valid_def qnext_def)

lemma queue_run_fifo_witness:
  "\<exists>m'. run_ops (\<lambda>m. queue_push m 0x100) (\<lambda>m. queue_pop m 0x100) example_queue
           [Enq 7 0x300, Enq 8 0x400, Deq, Enq 9 0x200, Deq, Deq, Deq] = Some (m', [7, 8, 9, NULL])
        \<and> queue_is 0x100 m' []"
  using queue_run_fifo [OF example_queue_is,
      of "[Enq 7 0x300, Enq 8 0x400, Deq, Enq 9 0x200, Deq, Deq, Deq]"]
  by (simp add: example_queue_def fresh_def queue_push_def queue_push_loop.simps queue_pop_def
      queue_pop_loop.simps cas_next_def cas_tail_def cas_head_def load_def upd_def malloc_def
      free_def valid_def)

text \<open>
  C2. \<open>delete_queue\<close> is only usable on a queue that was never popped: after creating a queue, pushing
  one value and popping it again, deleting the queue frees the first dummy node, which the pop has
  freed already, a second time.
\<close>

theorem delete_queue_double_free:
  assumes "fresh (queues m) q" "fresh (qnodes m) b" "fresh (qnodes m) n" "b \<noteq> n"
  shows "\<exists>m1 m2 m3. create_queue m q b = Some (m1, q) \<and> queue_push m1 q x n = Some m2 \<and>
           queue_pop m2 q = Some (m3, x) \<and> delete_queue m3 q = None"
proof -
  obtain m1 where m1: "create_queue m q b = Some (m1, q)" "queue_rep m1 q b [] []"
      "queue_frame m q {b} m1" "q_base (qctl m1 q) = b"
    using create_queue_rep assms(1,2) by blast
  have "fresh (qnodes m1) n"
    using m1(3) assms(3,4) by (simp add: queue_frame_def fresh_def)
  then obtain m2 where m2: "queue_push m1 q x n = Some m2" "queue_rep m2 q b [n] [x]"
      "q_base (qctl m2 q) = b"
    using queue_push_rep [OF m1(2), of n x] m1(4) by auto
  then obtain m3 where m3: "queue_pop m2 q = Some (m3, x)" "queue_rep m3 q n [] []"
      "q_base (qctl m3 q) = b" "live (qnodes m3) = live (qnodes m2) - {b}"
    using queue_pop_rep [OF m2(2)] by metis
  then have "delete_queue m3 q = None"
    using assms(2) by (intro delete_queue_dangling_base [OF m3(2)]) (auto simp: fresh_def)
  then show ?thesis
    using m1(1) m2(1) m3(1) by blast
qed

lemma delete_queue_double_free_witness:
  "\<exists>m1 m2 m3. create_queue \<lparr>queues = empty_heap (\<lambda>_. \<lparr>q_head = 0, q_tail = 0, q_base = 0, q_len = 0\<rparr>),
       qnodes = empty_heap (\<lambda>_. \<lparr>qn_p = 0, qn_next = 0\<rparr>)\<rparr> 0x100 0x200 = Some (m1, 0x100) \<and>
     queue_push m1 0x100 7 0x300 = Some m2 \<and> queue_pop m2 0x100 = Some (m3, 7) \<and>
     delete_queue m3 0x100 = None"
  by (rule delete_queue_double_free) (simp_all add: fresh_def empty_heap_def)

end
