(* ===== verification/Forge_Tree.thy ===== *)
theory Forge_Tree
  imports Forge_Heap
begin

text \<open>
  The balanced tree of \<open>src/src/kernel/tree.c\<close>: nodes with parent pointers and stored heights in a
  heap, a comparison function per tree, iterators that hold a reference to their node. Every write
  of the source is a write of the model; a read through NULL or freed memory, a second free of a
  node and a failed assertion have no result. Loops that follow pointers are partial functions: on
  a cyclic heap they have no result either.
\<close>

section \<open>Data\<close>

record tnode =
  tn_key :: ptr
  tn_val :: ptr
  tn_height :: u32
  tn_refcount :: u32
  tn_delete :: bool
  tn_parent :: ptr
  tn_left :: ptr
  tn_right :: ptr

record titer =
  ti_n :: ptr
  ti_prev :: ptr

record tmeta =
  tr_root :: ptr
  tr_cmp :: "ptr \<Rightarrow> ptr \<Rightarrow> int"
  tr_len :: u32

record tmem =
  trees :: "tmeta heap"
  tnodes :: "tnode heap"
  titers :: "titer heap"

definition TREE_NOTFOUND :: ptr where
  "TREE_NOTFOUND = 0xFFFFFFFF"

definition rd :: "tmem \<Rightarrow> ptr \<Rightarrow> (tnode \<Rightarrow> 'a) \<Rightarrow> 'a option" where
  "rd m n f = do { nd \<leftarrow> load (tnodes m) n; Some (f nd) }"

definition wr :: "tmem \<Rightarrow> ptr \<Rightarrow> (tnode \<Rightarrow> tnode) \<Rightarrow> tmem option" where
  "wr m n f = do { h \<leftarrow> upd (tnodes m) n f; Some (m\<lparr>tnodes := h\<rparr>) }"

definition wr_meta :: "tmem \<Rightarrow> ptr \<Rightarrow> (tmeta \<Rightarrow> tmeta) \<Rightarrow> tmem option" where
  "wr_meta m t f = do { h \<leftarrow> upd (trees m) t f; Some (m\<lparr>trees := h\<rparr>) }"

definition wr_iter :: "tmem \<Rightarrow> ptr \<Rightarrow> (titer \<Rightarrow> titer) \<Rightarrow> tmem option" where
  "wr_iter m i f = do { h \<leftarrow> upd (titers m) i f; Some (m\<lparr>titers := h\<rparr>) }"

definition default_comparer :: "ptr \<Rightarrow> ptr \<Rightarrow> int" where
  "default_comparer a b = (if a < b then -1 else if a = b then 0 else 1)"

section \<open>Rotations and heights\<close>

text \<open>
  The part both rotations share: \<open>y->parent = n->parent\<close>, and \<open>y\<close> takes the place of \<open>n\<close> below that
  parent or at the root.
\<close>

definition replace_child :: "tmem \<Rightarrow> ptr \<Rightarrow> ptr \<Rightarrow> ptr \<Rightarrow> tmem option" where
  "replace_child m t n y = do {
     par \<leftarrow> rd m n tn_parent;
     m \<leftarrow> wr m y (\<lambda>x. x\<lparr>tn_parent := par\<rparr>);
     par \<leftarrow> rd m n tn_parent;
     if par = NULL then wr_meta m t (\<lambda>x. x\<lparr>tr_root := y\<rparr>)
     else do {
       l \<leftarrow> rd m par tn_left;
       if n = l then wr m par (\<lambda>x. x\<lparr>tn_left := y\<rparr>) else wr m par (\<lambda>x. x\<lparr>tn_right := y\<rparr>)
     }
   }"

definition rotate_left :: "tmem \<Rightarrow> ptr \<Rightarrow> ptr \<Rightarrow> tmem option" where
  "rotate_left m t n = do {
     y \<leftarrow> rd m n tn_right;
     yl \<leftarrow> rd m y tn_left;
     m \<leftarrow> wr m n (\<lambda>x. x\<lparr>tn_right := yl\<rparr>);
     yl \<leftarrow> rd m y tn_left;
     m \<leftarrow> (if yl \<noteq> NULL then wr m yl (\<lambda>x. x\<lparr>tn_parent := n\<rparr>) else Some m);
     m \<leftarrow> replace_child m t n y;
     m \<leftarrow> wr m y (\<lambda>x. x\<lparr>tn_left := n\<rparr>);
     wr m n (\<lambda>x. x\<lparr>tn_parent := y\<rparr>)
   }"

definition rotate_right :: "tmem \<Rightarrow> ptr \<Rightarrow> ptr \<Rightarrow> tmem option" where
  "rotate_right m t n = do {
     y \<leftarrow> rd m n tn_left;
     yr \<leftarrow> rd m y tn_right;
     m \<leftarrow> wr m n (\<lambda>x. x\<lparr>tn_left := yr\<rparr>);
     yr \<leftarrow> rd m y tn_right;
     m \<leftarrow> (if yr \<noteq> NULL then wr m yr (\<lambda>x. x\<lparr>tn_parent := n\<rparr>) else Some m);
     m \<leftarrow> replace_child m t n y;
     m \<leftarrow> wr m y (\<lambda>x. x\<lparr>tn_right := n\<rparr>);
     wr m n (\<lambda>x. x\<lparr>tn_parent := y\<rparr>)
   }"

definition node_height :: "tmem \<Rightarrow> ptr \<Rightarrow> (tmem \<times> u32) option" where
  "node_height m n =
     (if n = NULL then Some (m, 0)
      else do {
        l \<leftarrow> rd m n tn_left;
        r \<leftarrow> rd m n tn_right;
        tempL \<leftarrow> (if l \<noteq> NULL then rd m l tn_height else Some 0);
        tempR \<leftarrow> (if r \<noteq> NULL then rd m r tn_height else Some 0);
        let tempL = tempL + 1;
        let tempR = tempR + 1;
        if tempL > tempR then do {
          m \<leftarrow> wr m n (\<lambda>x. x\<lparr>tn_height := tempL\<rparr>);
          Some (m, tempL)
        } else do {
          m \<leftarrow> wr m n (\<lambda>x. x\<lparr>tn_height := tempR\<rparr>);
          Some (m, tempR)
        }
      })"

text \<open>
  The balance factor is an \<open>int\<close> computed from the two heights converted to \<open>int\<close>. The source does
  not fix the order of the two calls; they write to different nodes.
\<close>

definition node_bfactor :: "tmem \<Rightarrow> ptr \<Rightarrow> (tmem \<times> int) option" where
  "node_bfactor m n = do {
     r \<leftarrow> rd m n tn_right;
     (m, hr) \<leftarrow> node_height m r;
     l \<leftarrow> rd m n tn_left;
     (m, hl) \<leftarrow> node_height m l;
     Some (m, sint hr - sint hl)
   }"

definition node_rebalance :: "tmem \<Rightarrow> ptr \<Rightarrow> ptr \<Rightarrow> tmem option" where
  "node_rebalance m t n = do {
     (m, b) \<leftarrow> node_bfactor m n;
     if b < -1 then do {
       l \<leftarrow> rd m n tn_left;
       (m, bl) \<leftarrow> node_bfactor m l;
       if bl > 0 then do {
         l \<leftarrow> rd m n tn_left;
         m \<leftarrow> rotate_left m t l;
         rotate_right m t n
       } else rotate_right m t n
     } else if b > 1 then do {
       r \<leftarrow> rd m n tn_right;
       (m, br) \<leftarrow> node_bfactor m r;
       if br < 0 then do {
         r \<leftarrow> rd m n tn_right;
         m \<leftarrow> rotate_right m t r;
         rotate_left m t n
       } else rotate_left m t n
     } else Some m
   }"

text \<open>The loop \<open>while(n) { ...; n = n->parent; }\<close> at the end of \<open>tree_insert\<close> and \<open>remove_node\<close>.\<close>

partial_function (option) rebalance_up :: "tmem \<Rightarrow> ptr \<Rightarrow> ptr \<Rightarrow> tmem option" where
  "rebalance_up m t n =
     (if n = NULL then Some m
      else do {
        (m, b) \<leftarrow> node_bfactor m n;
        m \<leftarrow> (if b < -1 \<or> b > 1 then node_rebalance m t n else Some m);
        par \<leftarrow> rd m n tn_parent;
        rebalance_up m t par
      })"

section \<open>Removing a node\<close>

partial_function (option) rotate_down :: "tmem \<Rightarrow> ptr \<Rightarrow> ptr \<Rightarrow> tmem option" where
  "rotate_down m t n = do {
     l \<leftarrow> rd m n tn_left;
     r \<leftarrow> rd m n tn_right;
     if l \<noteq> NULL \<or> r \<noteq> NULL then do {
       (m, hl) \<leftarrow> node_height m l;
       (m, hr) \<leftarrow> node_height m r;
       m \<leftarrow> (if hl = 0 then rotate_left m t n
            else if hr = 0 then rotate_right m t n
            else if hl \<le> hr then do {
              m \<leftarrow> rotate_right m t n;
              rotate_left m t n
            } else do {
              m \<leftarrow> rotate_left m t n;
              rotate_right m t n
            });
       rotate_down m t n
     } else Some m
   }"

definition unlink_node :: "tmem \<Rightarrow> ptr \<Rightarrow> ptr \<Rightarrow> tmem option" where
  "unlink_node m t n = do {
     par \<leftarrow> rd m n tn_parent;
     if par = NULL then wr_meta m t (\<lambda>x. x\<lparr>tr_root := NULL\<rparr>)
     else do {
       l \<leftarrow> rd m par tn_left;
       if l = n then wr m par (\<lambda>x. x\<lparr>tn_left := NULL\<rparr>) else wr m par (\<lambda>x. x\<lparr>tn_right := NULL\<rparr>)
     }
   }"

definition tnode_free :: "tmem \<Rightarrow> ptr \<Rightarrow> tmem option" where
  "tnode_free m n = do { h \<leftarrow> free (tnodes m) n; Some (m\<lparr>tnodes := h\<rparr>) }"

definition remove_node :: "tmem \<Rightarrow> ptr \<Rightarrow> ptr \<Rightarrow> tmem option" where
  "remove_node m t n = do {
     m \<leftarrow> wr_meta m t (\<lambda>x. x\<lparr>tr_len := tr_len x - 1\<rparr>);
     m \<leftarrow> rotate_down m t n;
     m \<leftarrow> unlink_node m t n;
     m \<leftarrow> rebalance_up m t n;
     tnode_free m n
   }"

definition free_node_if_needed :: "tmem \<Rightarrow> ptr \<Rightarrow> ptr \<Rightarrow> (tmem \<times> bool) option" where
  "free_node_if_needed m t n =
     (if n = NULL then None
      else do {
        nd \<leftarrow> load (tnodes m) n;
        if tn_refcount nd = 0 \<and> tn_delete nd then do {
          m \<leftarrow> remove_node m t n;
          m \<leftarrow> tnode_free m n;
          Some (m, True)
        } else Some (m, False)
      })"

section \<open>Operations\<close>

text \<open>\<open>len\<close> is not assigned: the new tree has whatever the allocated memory held there.\<close>

definition create_tree_cmp :: "tmem \<Rightarrow> (ptr \<Rightarrow> ptr \<Rightarrow> int) \<Rightarrow> ptr \<Rightarrow> (tmem \<times> ptr) option" where
  "create_tree_cmp m cmp t = do {
     let m = m\<lparr>trees := malloc (trees m) t\<rparr>;
     m \<leftarrow> wr_meta m t (\<lambda>x. x\<lparr>tr_root := NULL\<rparr>);
     m \<leftarrow> wr_meta m t (\<lambda>x. x\<lparr>tr_cmp := cmp\<rparr>);
     Some (m, t)
   }"

definition create_tree :: "tmem \<Rightarrow> ptr \<Rightarrow> (tmem \<times> ptr) option" where
  "create_tree m t = create_tree_cmp m default_comparer t"

definition delete_tree :: "tmem \<Rightarrow> ptr \<Rightarrow> tmem option" where
  "delete_tree m t = Some m"

partial_function (option) search_loop :: "tmem \<Rightarrow> (ptr \<Rightarrow> ptr \<Rightarrow> int) \<Rightarrow> ptr \<Rightarrow> ptr \<Rightarrow> ptr option" where
  "search_loop m cmp k n =
     (if n = NULL then Some NULL
      else do {
        nk \<leftarrow> rd m n tn_key;
        let c = cmp k nk;
        if c = 0 then Some n
        else if c < 0 then do { l \<leftarrow> rd m n tn_left; search_loop m cmp k l }
        else do { r \<leftarrow> rd m n tn_right; search_loop m cmp k r }
      })"

definition tree_search :: "tmem \<Rightarrow> ptr \<Rightarrow> ptr \<Rightarrow> ptr option" where
  "tree_search m t search_key =
     (if t = NULL then Some TREE_NOTFOUND
      else do {
        meta \<leftarrow> load (trees m) t;
        if tr_len meta = 0 then Some TREE_NOTFOUND
        else do {
          n \<leftarrow> search_loop m (tr_cmp meta) search_key (tr_root meta);
          if n = NULL then Some TREE_NOTFOUND else rd m n tn_val
        }
      })"

text \<open>The \<open>while(1)\<close> loop of \<open>tree_insert\<close>; its result is the node below which the new one hangs.\<close>

partial_function (option) insert_loop ::
  "tmem \<Rightarrow> (ptr \<Rightarrow> ptr \<Rightarrow> int) \<Rightarrow> ptr \<Rightarrow> ptr \<Rightarrow> ptr \<Rightarrow> (tmem \<times> ptr) option" where
  "insert_loop m cmp k new_node n = do {
     nk \<leftarrow> rd m n tn_key;
     if cmp k nk < 0 then do {
       l \<leftarrow> rd m n tn_left;
       if l = NULL then do {
         m \<leftarrow> wr m n (\<lambda>x. x\<lparr>tn_left := new_node\<rparr>);
         m \<leftarrow> wr m new_node (\<lambda>x. x\<lparr>tn_parent := n\<rparr>);
         Some (m, n)
       } else insert_loop m cmp k new_node l
     } else do {
       r \<leftarrow> rd m n tn_right;
       if r = NULL then do {
         m \<leftarrow> wr m n (\<lambda>x. x\<lparr>tn_right := new_node\<rparr>);
         m \<leftarrow> wr m new_node (\<lambda>x. x\<lparr>tn_parent := n\<rparr>);
         Some (m, n)
       } else insert_loop m cmp k new_node r
     }
   }"

definition blank_node :: tnode where
  "blank_node = \<lparr>tn_key = 0, tn_val = 0, tn_height = 0, tn_refcount = 0, tn_delete = False,
     tn_parent = NULL, tn_left = NULL, tn_right = NULL\<rparr>"

definition tree_insert :: "tmem \<Rightarrow> ptr \<Rightarrow> ptr \<Rightarrow> ptr \<Rightarrow> ptr \<Rightarrow> tmem option" where
  "tree_insert m t key val new_node =
     (if t = NULL then Some m
      else do {
        s \<leftarrow> tree_search m t key;
        if s \<noteq> TREE_NOTFOUND then Some m
        else do {
          let m = m\<lparr>tnodes := malloc (tnodes m) new_node\<rparr>;
          m \<leftarrow> wr m new_node (\<lambda>x. blank_node);
          m \<leftarrow> wr m new_node (\<lambda>x. x\<lparr>tn_key := key\<rparr>);
          m \<leftarrow> wr m new_node (\<lambda>x. x\<lparr>tn_val := val\<rparr>);
          m \<leftarrow> wr_meta m t (\<lambda>x. x\<lparr>tr_len := tr_len x + 1\<rparr>);
          meta \<leftarrow> load (trees m) t;
          if tr_root meta = NULL then wr_meta m t (\<lambda>x. x\<lparr>tr_root := new_node\<rparr>)
          else do {
            (m, n) \<leftarrow> insert_loop m (tr_cmp meta) key new_node (tr_root meta);
            rebalance_up m t n
          }
        }
      })"

definition tree_delete :: "tmem \<Rightarrow> ptr \<Rightarrow> ptr \<Rightarrow> tmem option" where
  "tree_delete m t key =
     (if t = NULL then Some m
      else do {
        meta \<leftarrow> load (trees m) t;
        if tr_len meta = 0 then Some m
        else do {
          s \<leftarrow> tree_search m t key;
          if s = TREE_NOTFOUND then Some m
          else do {
            n \<leftarrow> search_loop m (tr_cmp meta) key (tr_root meta);
            if n = NULL then Some m
            else do {
              m \<leftarrow> wr m n (\<lambda>x. x\<lparr>tn_delete := True\<rparr>);
              rc \<leftarrow> rd m n tn_refcount;
              if rc = 0 then remove_node m t n else Some m
            }
          }
        }
      })"

section \<open>Iterators\<close>

partial_function (option) leftmost :: "tmem \<Rightarrow> ptr \<Rightarrow> ptr option" where
  "leftmost m n = do { l \<leftarrow> rd m n tn_left; if l \<noteq> NULL then leftmost m l else Some n }"

partial_function (option) rightmost :: "tmem \<Rightarrow> ptr \<Rightarrow> ptr option" where
  "rightmost m n = do { r \<leftarrow> rd m n tn_right; if r \<noteq> NULL then rightmost m r else Some n }"

text \<open>\<open>while(n->parent && n == n->parent->right) n = n->parent; n = n->parent\<close>, and its mirror image.\<close>

partial_function (option) climb_right :: "tmem \<Rightarrow> ptr \<Rightarrow> ptr option" where
  "climb_right m n = do {
     par \<leftarrow> rd m n tn_parent;
     if par = NULL then Some NULL
     else do {
       r \<leftarrow> rd m par tn_right;
       if n = r then climb_right m par else Some par
     }
   }"

partial_function (option) climb_left :: "tmem \<Rightarrow> ptr \<Rightarrow> ptr option" where
  "climb_left m n = do {
     par \<leftarrow> rd m n tn_parent;
     if par = NULL then Some NULL
     else do {
       l \<leftarrow> rd m par tn_left;
       if n = l then climb_left m par else Some par
     }
   }"

definition tree_min :: "tmem \<Rightarrow> ptr \<Rightarrow> ptr option" where
  "tree_min m t =
     (if t = NULL then Some NULL
      else do { meta \<leftarrow> load (trees m) t; leftmost m (tr_root meta) })"

definition tree_max :: "tmem \<Rightarrow> ptr \<Rightarrow> ptr option" where
  "tree_max m t =
     (if t = NULL then Some NULL
      else do { meta \<leftarrow> load (trees m) t; rightmost m (tr_root meta) })"

definition tree_key :: "tmem \<Rightarrow> ptr \<Rightarrow> ptr option" where
  "tree_key m n = (if n = NULL then Some TREE_NOTFOUND else rd m n tn_key)"

definition tree_val :: "tmem \<Rightarrow> ptr \<Rightarrow> ptr option" where
  "tree_val m n = (if n = NULL then Some TREE_NOTFOUND else rd m n tn_val)"

definition ref_node :: "tmem \<Rightarrow> ptr \<Rightarrow> tmem option" where
  "ref_node m n = wr m n (\<lambda>x. x\<lparr>tn_refcount := tn_refcount x + 1\<rparr>)"

definition tree_iterator :: "tmem \<Rightarrow> ptr \<Rightarrow> ptr \<Rightarrow> (tmem \<times> ptr) option" where
  "tree_iterator m t it =
     (if t = NULL then Some (m, NULL)
      else do {
        let m = m\<lparr>titers := malloc (titers m) it\<rparr>;
        m \<leftarrow> wr_iter m it (\<lambda>x. \<lparr>ti_n = NULL, ti_prev = NULL\<rparr>);
        meta \<leftarrow> load (trees m) t;
        n \<leftarrow> leftmost m (tr_root meta);
        m \<leftarrow> wr_iter m it (\<lambda>x. x\<lparr>ti_n := n\<rparr>);
        m \<leftarrow> ref_node m n;
        Some (m, it)
      })"

definition tree_iterator_bof :: "tmem \<Rightarrow> ptr \<Rightarrow> ptr \<Rightarrow> bool option" where
  "tree_iterator_bof m t it =
     (if t = NULL \<or> it = NULL then Some False
      else do {
        i \<leftarrow> load (titers m) it;
        mn \<leftarrow> tree_min m t;
        Some (ti_n i = mn)
      })"

definition tree_iterator_eof :: "tmem \<Rightarrow> ptr \<Rightarrow> ptr \<Rightarrow> bool option" where
  "tree_iterator_eof m t it =
     (if t = NULL \<or> it = NULL then Some False
      else do {
        i \<leftarrow> load (titers m) it;
        Some (ti_n i = NULL)
      })"

definition tree_next :: "tmem \<Rightarrow> ptr \<Rightarrow> ptr \<Rightarrow> (tmem \<times> ptr) option" where
  "tree_next m t i =
     (if t = NULL \<or> i = NULL then Some (m, NULL)
      else do {
        it \<leftarrow> load (titers m) i;
        let p = ti_n it;
        if p = NULL then Some (m, ti_prev it)
        else do {
          r \<leftarrow> rd m p tn_right;
          n \<leftarrow> (if r \<noteq> NULL then leftmost m r else climb_right m p);
          m \<leftarrow> wr_iter m i (\<lambda>x. x\<lparr>ti_n := n\<rparr>);
          m \<leftarrow> wr m p (\<lambda>x. x\<lparr>tn_refcount := tn_refcount x - 1\<rparr>);
          (m, freed) \<leftarrow> free_node_if_needed m t p;
          m \<leftarrow> (if \<not> freed then wr_iter m i (\<lambda>x. x\<lparr>ti_prev := p\<rparr>) else Some m);
          m \<leftarrow> (if n \<noteq> NULL then ref_node m n else Some m);
          Some (m, n)
        }
      })"

definition tree_prev :: "tmem \<Rightarrow> ptr \<Rightarrow> ptr \<Rightarrow> (tmem \<times> ptr) option" where
  "tree_prev m t i =
     (if t = NULL \<or> i = NULL then Some (m, NULL)
      else do {
        it \<leftarrow> load (titers m) i;
        let p = ti_n it;
        if p = NULL then do {
          m \<leftarrow> wr_iter m i (\<lambda>x. x\<lparr>ti_n := ti_prev it\<rparr>);
          m \<leftarrow> ref_node m (ti_prev it);
          Some (m, ti_prev it)
        } else do {
          l \<leftarrow> rd m p tn_left;
          n \<leftarrow> (if l \<noteq> NULL then rightmost m l else climb_left m p);
          m \<leftarrow> wr_iter m i (\<lambda>x. x\<lparr>ti_n := n\<rparr>);
          m \<leftarrow> wr m p (\<lambda>x. x\<lparr>tn_refcount := tn_refcount x - 1\<rparr>);
          (m, freed) \<leftarrow> free_node_if_needed m t p;
          if n \<noteq> NULL then do {
            m \<leftarrow> wr_iter m i (\<lambda>x. x\<lparr>ti_prev := p\<rparr>);
            m \<leftarrow> ref_node m n;
            Some (m, n)
          } else Some (m, n)
        }
      })"

definition tree_deliterator :: "tmem \<Rightarrow> ptr \<Rightarrow> ptr \<Rightarrow> tmem option" where
  "tree_deliterator m t i =
     (if t = NULL \<or> i = NULL then Some m
      else do { h \<leftarrow> free (titers m) i; Some (m\<lparr>titers := h\<rparr>) })"

end
