(* ===== verification/Forge_Tree_Shape.thy ===== *)
theory Forge_Tree_Shape
  imports Forge_Prelude "HOL-Library.Tree"
begin

text \<open>
  The balancing algorithm of \<open>src/src/kernel/tree.c\<close> on trees of node addresses, without the heap: a
  position in a tree is a context and the subtree below it, a rotation changes the subtree, the loop
  towards the root (\<open>fix_up\<close>) and the loop that moves a node to be removed down to a leaf (\<open>sink\<close>)
  move through contexts. Rotations keep the inorder sequence, the loops terminate, and \<open>fix_up\<close>
  restores the balance after one insertion.
\<close>

section \<open>Contexts\<close>

datatype tctx = Top | InL tctx ptr "ptr tree" | InR "ptr tree" ptr tctx

fun plug :: "tctx \<Rightarrow> ptr tree \<Rightarrow> ptr tree" where
  "plug Top t = t"
| "plug (InL c x r) t = plug c (Node t x r)"
| "plug (InR l x c) t = plug c (Node l x t)"

fun ctx_nodes :: "tctx \<Rightarrow> ptr set" where
  "ctx_nodes Top = {}"
| "ctx_nodes (InL c x r) = insert x (set_tree r \<union> ctx_nodes c)"
| "ctx_nodes (InR l x c) = insert x (set_tree l \<union> ctx_nodes c)"

fun ctx_before :: "tctx \<Rightarrow> ptr list" where
  "ctx_before Top = []"
| "ctx_before (InL c x r) = ctx_before c"
| "ctx_before (InR l x c) = ctx_before c @ inorder l @ [x]"

fun ctx_after :: "tctx \<Rightarrow> ptr list" where
  "ctx_after Top = []"
| "ctx_after (InL c x r) = x # inorder r @ ctx_after c"
| "ctx_after (InR l x c) = ctx_after c"

lemma inorder_plug [simp]: "inorder (plug c t) = ctx_before c @ inorder t @ ctx_after c"
  by (induction c arbitrary: t) auto

lemma set_tree_plug [simp]: "set_tree (plug c t) = ctx_nodes c \<union> set_tree t"
  by (induction c arbitrary: t) auto

lemma size_plug_mono: "size t \<le> size (plug c t)"
  using length_inorder [of "plug c t"] by simp

lemma ctx_nodes_sets: "ctx_nodes c = set (ctx_before c) \<union> set (ctx_after c)"
  by (induction c) auto

lemma distinct_plugD:
  assumes "distinct (inorder (plug c t))"
  shows "distinct (inorder t)" "ctx_nodes c \<inter> set_tree t = {}"
  using assms by (auto simp: ctx_nodes_sets)

section \<open>Rotations\<close>

fun rotl :: "ptr tree \<Rightarrow> ptr tree" where
  "rotl (Node a x (Node b y c)) = Node (Node a x b) y c"
| "rotl t = t"

fun rotr :: "ptr tree \<Rightarrow> ptr tree" where
  "rotr (Node (Node a y b) x c) = Node a y (Node b x c)"
| "rotr t = t"

fun bal :: "ptr tree \<Rightarrow> int" where
  "bal Leaf = 0"
| "bal (Node l x r) = int (height r) - int (height l)"

fun rebal :: "ptr tree \<Rightarrow> ptr tree" where
  "rebal Leaf = Leaf"
| "rebal (Node l x r) =
     (if bal (Node l x r) < -1 then
        (if bal l > 0 then rotr (Node (rotl l) x r) else rotr (Node l x r))
      else if bal (Node l x r) > 1 then
        (if bal r < 0 then rotl (Node l x (rotr r)) else rotl (Node l x r))
      else Node l x r)"

lemma inorder_rotl [simp]: "inorder (rotl t) = inorder t"
  by (cases t rule: rotl.cases) auto

lemma inorder_rotr [simp]: "inorder (rotr t) = inorder t"
  by (cases t rule: rotr.cases) auto

lemma inorder_rebal [simp]: "inorder (rebal t) = inorder t"
  by (cases t) auto

text \<open>
  A rebalancing step at a node that needs one makes its subtree strictly lower, unless the node that
  comes up is balanced.
\<close>

abbreviation unbalanced :: "ptr tree \<Rightarrow> bool" where
  "unbalanced t \<equiv> bal t < -1 \<or> bal t > 1"

lemma rebal_left_progress:
  assumes "bal (Node (Node a y b) x r) < -1"
  shows "height (rebal (Node (Node a y b) x r)) < height (Node (Node a y b) x r) \<or>
    height (rebal (Node (Node a y b) x r)) = height (Node (Node a y b) x r) \<and>
    \<not> unbalanced (rebal (Node (Node a y b) x r))"
proof (cases "bal (Node a y b) > 0")
  case True
  then obtain p z q where "b = Node p z q"
    by (cases b) auto
  with True assms show ?thesis
    by (simp, arith)
next
  case False
  with assms show ?thesis
    by (simp, arith)
qed

lemma rebal_right_progress:
  assumes "bal (Node l x (Node b y c)) > 1"
  shows "height (rebal (Node l x (Node b y c))) < height (Node l x (Node b y c)) \<or>
    height (rebal (Node l x (Node b y c))) = height (Node l x (Node b y c)) \<and>
    \<not> unbalanced (rebal (Node l x (Node b y c)))"
proof (cases "bal (Node b y c) < 0")
  case True
  then obtain p z q where "b = Node p z q"
    by (cases b) auto
  with True assms show ?thesis
    by (simp, arith)
next
  case False
  with assms show ?thesis
    by (simp, arith)
qed

lemma rebal_progress:
  assumes "unbalanced t"
  shows "height (rebal t) < height t \<or> height (rebal t) = height t \<and> \<not> unbalanced (rebal t)"
proof (cases t)
  case (Node l x r)
  show ?thesis
  proof (cases "bal t < -1")
    case True
    with Node obtain a y b where "l = Node a y b"
      by (cases l) auto
    with True Node rebal_left_progress show ?thesis
      by blast
  next
    case False
    with assms Node obtain b y c where "r = Node b y c"
      by (cases r) auto
    with False assms Node rebal_right_progress show ?thesis
      by blast
  qed
qed (use assms in simp)

section \<open>The loop towards the root\<close>

function fix_up :: "tctx \<Rightarrow> ptr tree \<Rightarrow> ptr tree" where
  "fix_up c t =
     (if unbalanced t then fix_up c (rebal t)
      else (case c of
          Top \<Rightarrow> t
        | InL c' x r \<Rightarrow> fix_up c' (Node t x r)
        | InR l x c' \<Rightarrow> fix_up c' (Node l x t)))"
  by pat_completeness auto
termination
  by (relation "measures [\<lambda>(c, t). size c, \<lambda>(c, t). height t + (if unbalanced t then 1 else 0)]")
    (use rebal_progress in \<open>force+\<close>)

declare fix_up.simps [simp del]

lemma inorder_fix_up [simp]: "inorder (fix_up c t) = inorder (plug c t)"
proof (induction c t rule: fix_up.induct)
  case (1 c t)
  then show ?case
    by (subst fix_up.simps) (auto split: tctx.splits)
qed

lemma set_tree_fix_up [simp]: "set_tree (fix_up c t) = set_tree (plug c t)"
  by (metis inorder_fix_up set_inorder)

section \<open>Balance\<close>

fun avl :: "ptr tree \<Rightarrow> bool" where
  "avl Leaf = True"
| "avl (Node l x r) = (\<bar>bal (Node l x r)\<bar> \<le> 1 \<and> avl l \<and> avl r)"

lemma avl_rebal_left:
  assumes "avl l" "avl r" "height l = height r + 2"
  shows "avl (rebal (Node l x r))" "height (rebal (Node l x r)) \<in> {height l, height l + 1}"
proof -
  obtain a y b where l: "l = Node a y b"
    using assms(3) by (cases l) auto
  have "avl (rebal (Node l x r)) \<and> height (rebal (Node l x r)) \<in> {height l, height l + 1}"
  proof (cases "bal l > 0")
    case True
    then obtain p z q where "b = Node p z q"
      using l by (cases b) auto
    with True assms l show ?thesis
      by (simp, arith)
  next
    case False
    with assms l show ?thesis
      by (simp, arith)
  qed
  then show "avl (rebal (Node l x r))" "height (rebal (Node l x r)) \<in> {height l, height l + 1}"
    by auto
qed

lemma avl_rebal_right:
  assumes "avl l" "avl r" "height r = height l + 2"
  shows "avl (rebal (Node l x r))" "height (rebal (Node l x r)) \<in> {height r, height r + 1}"
proof -
  obtain b y c where r: "r = Node b y c"
    using assms(3) by (cases r) auto
  have "avl (rebal (Node l x r)) \<and> height (rebal (Node l x r)) \<in> {height r, height r + 1}"
  proof (cases "bal r < 0")
    case True
    then obtain p z q where "b = Node p z q"
      using r by (cases b) auto
    with True assms r show ?thesis
      by (simp, arith)
  next
    case False
    with assms r show ?thesis
      by (simp, arith)
  qed
  then show "avl (rebal (Node l x r))" "height (rebal (Node l x r)) \<in> {height r, height r + 1}"
    by auto
qed

lemma avl_plugD: "avl (plug c t) \<Longrightarrow> avl t"
  by (induction c arbitrary: t) fastforce+

lemma avl_bal: "avl t \<Longrightarrow> \<not> unbalanced t"
  by (cases t) auto

text \<open>
  Replacing a subtree \<open>s\<close> of a balanced tree by a balanced one at most one higher, as an insertion
  does, leaves a balanced tree after the loop.
\<close>

lemma avl_fix_up:
  assumes "avl (plug c s)" "avl t" "height t \<in> {height s, height s + 1}"
  shows "avl (fix_up c t)"
  using assms
proof (induction c arbitrary: s t)
  case Top
  then show ?case
    using avl_bal [of t] by (simp add: fix_up.simps)
next
  case (InL c x r)
  have s: "avl (Node s x r)"
    using InL.prems(1) avl_plugD [of c "Node s x r"] by simp
  have step: "fix_up (InL c x r) t = fix_up c (Node t x r)"
    using avl_bal [OF InL.prems(2)] by (subst fix_up.simps) auto
  show ?case
  proof (cases "height t = height r + 2")
    case True
    then have "fix_up c (Node t x r) = fix_up c (rebal (Node t x r))"
      by (subst fix_up.simps) auto
    moreover have "height (rebal (Node t x r)) \<in> {height (Node s x r), height (Node s x r) + 1}"
      using True InL.prems s avl_rebal_left [of t r x] by auto
    ultimately show ?thesis
      using InL.IH [of "Node s x r" "rebal (Node t x r)"] InL.prems True s
        avl_rebal_left [of t r x] step by auto
  next
    case False
    then have "avl (Node t x r)" "height (Node t x r) \<in> {height (Node s x r), height (Node s x r) + 1}"
      using InL.prems s by auto
    then show ?thesis
      using InL.IH [of "Node s x r" "Node t x r"] InL.prems step by simp
  qed
next
  case (InR l x c)
  have s: "avl (Node l x s)"
    using InR.prems(1) avl_plugD [of c "Node l x s"] by simp
  have step: "fix_up (InR l x c) t = fix_up c (Node l x t)"
    using avl_bal [OF InR.prems(2)] by (subst fix_up.simps) auto
  show ?case
  proof (cases "height t = height l + 2")
    case True
    then have "fix_up c (Node l x t) = fix_up c (rebal (Node l x t))"
      by (subst fix_up.simps) auto
    moreover have "height (rebal (Node l x t)) \<in> {height (Node l x s), height (Node l x s) + 1}"
      using True InR.prems s avl_rebal_right [of l t x] by auto
    ultimately show ?thesis
      using InR.IH [of "Node l x s" "rebal (Node l x t)"] InR.prems True s
        avl_rebal_right [of l t x] step by auto
  next
    case False
    then have "avl (Node l x t)" "height (Node l x t) \<in> {height (Node l x s), height (Node l x s) + 1}"
      using InR.prems s by auto
    then show ?thesis
      using InR.IH [of "Node l x s" "Node l x t"] InR.prems step by simp
  qed
qed

text \<open>A balanced tree of height \<open>h\<close> has at least \<open>2 ^ (h div 2) - 1\<close> nodes.\<close>

lemma avl_size: "avl t \<Longrightarrow> 2 ^ (height t div 2) \<le> size1 t"
proof (induction t rule: measure_induct_rule [of height])
  case (less t)
  show ?case
  proof (cases t)
    case (Node l x r)
    then have a: "avl l" "avl r" "height t \<le> height l + 2" "height t \<le> height r + 2"
      "height l < height t" "height r < height t"
      using less.prems by auto
    have le: "height t div 2 \<le> Suc (height l div 2)" "height t div 2 \<le> Suc (height r div 2)"
      using a(3,4) by (auto dest: div_le_mono [of _ _ 2])
    have "(2::nat) ^ (height t div 2) \<le> 2 ^ Suc (height l div 2)"
      "(2::nat) ^ (height t div 2) \<le> 2 ^ Suc (height r div 2)"
      using le by (auto simp only: power_increasing_iff)
    then have "2 ^ (height t div 2) \<le> 2 ^ (height l div 2) + (2::nat) ^ (height r div 2)"
      by simp
    also have "\<dots> \<le> size1 l + size1 r"
      using less.IH [OF a(5) a(1)] less.IH [OF a(6) a(2)] by (rule add_mono)
    finally show ?thesis
      using Node by simp
  qed simp
qed

section \<open>Moving a node down to a leaf\<close>

function sink :: "tctx \<Rightarrow> ptr tree \<Rightarrow> ptr \<Rightarrow> ptr tree \<Rightarrow> tctx" where
  "sink c Leaf n Leaf = c"
| "sink c Leaf n (Node b y d) = sink (InL c y d) Leaf n b"
| "sink c (Node a y b) n Leaf = sink (InR a y c) b n Leaf"
| "sink c (Node a y b) n (Node b' z d) =
     (if height (Node a y b) \<le> height (Node b' z d)
      then sink (InL (InR a y c) z d) b n b'
      else sink (InR a y (InL c z d)) b n b')"
  by pat_completeness auto
termination
  by (relation "measure (\<lambda>(c, l, n, r). size l + size r)") auto

lemma inorder_sink:
  "ctx_before (sink c l n r) = ctx_before c @ inorder l \<and> ctx_after (sink c l n r) = inorder r @ ctx_after c"
  by (induction c l n r rule: sink.induct) auto

definition remove_at :: "tctx \<Rightarrow> ptr tree" where
  "remove_at c = (case c of
      Top \<Rightarrow> Leaf
    | InL c' x r \<Rightarrow> fix_up c' (Node Leaf x r)
    | InR l x c' \<Rightarrow> fix_up c' (Node l x Leaf))"

lemma inorder_remove_at: "inorder (remove_at c) = ctx_before c @ ctx_after c"
  by (auto simp: remove_at_def split: tctx.splits)

section \<open>Search\<close>

text \<open>
  \<open>descend f\<close> walks down where \<open>f\<close>, the comparison of the search key with a node, points; \<open>f\<close> is
  ordered along a sequence of nodes when it is positive before, zero at and negative after the key.
\<close>

fun descend :: "(ptr \<Rightarrow> int) \<Rightarrow> tctx \<Rightarrow> ptr tree \<Rightarrow> tctx \<times> ptr tree" where
  "descend f c Leaf = (c, Leaf)"
| "descend f c (Node l x r) =
     (if f x = 0 then (c, Node l x r)
      else if f x < 0 then descend f (InL c x r) l
      else descend f (InR l x c) r)"

lemma plug_descend: "plug (fst (descend f c t)) (snd (descend f c t)) = plug c t"
  by (induction f c t rule: descend.induct) auto

lemma descend_root: "snd (descend f c t) = Node l x r \<Longrightarrow> f x = 0"
  by (induction f c t rule: descend.induct) (auto split: if_splits)

definition ordered_by :: "(ptr \<Rightarrow> int) \<Rightarrow> ptr list \<Rightarrow> bool" where
  "ordered_by f xs \<longleftrightarrow> sorted_wrt (\<lambda>a b. f a > 0 \<or> f b < 0) xs"

lemma ordered_by_Node:
  assumes "ordered_by f (inorder (Node l y r))"
  shows "ordered_by f (inorder l)" "ordered_by f (inorder r)"
    "\<forall>a \<in> set_tree l. f a > 0 \<or> f y < 0" "\<forall>b \<in> set_tree r. f y > 0 \<or> f b < 0"
    "\<forall>a \<in> set_tree l. \<forall>b \<in> set_tree r. f a > 0 \<or> f b < 0"
  using assms unfolding ordered_by_def by (auto simp: sorted_wrt_append)

lemma descend_found:
  assumes "ordered_by f (inorder t)" "x \<in> set_tree t" "f x = 0"
  shows "\<exists>l r. snd (descend f c t) = Node l x r"
  using assms
proof (induction f c t rule: descend.induct)
  case (2 f c l y r)
  note o = ordered_by_Node [OF "2.prems"(1)]
  consider "f y = 0" | "f y < 0" | "f y > 0"
    by linarith
  then show ?case
  proof cases
    case 1
    then have "x = y"
      using "2.prems" o by fastforce
    with 1 show ?thesis
      by simp
  next
    case 2
    then have "x \<in> set_tree l"
      using "2.prems" o(4) by force
    with 2 o "2.IH"(1) "2.prems" show ?thesis
      by simp
  next
    case 3
    then have "x \<in> set_tree r"
      using "2.prems" o(3) by force
    with 3 o "2.IH"(2) "2.prems" show ?thesis
      by simp
  qed
qed simp

lemma descend_absent:
  "\<forall>x \<in> set_tree t. f x \<noteq> 0 \<Longrightarrow> snd (descend f c t) = Leaf"
  by (induction f c t rule: descend.induct) auto

text \<open>Where the descent ends at a leaf, everything before it is smaller and everything after greater.\<close>

lemma descend_between:
  assumes "ordered_by f (inorder t)" "\<forall>x \<in> set_tree t. f x \<noteq> 0"
    "\<forall>x \<in> set (ctx_before c). f x > 0" "\<forall>x \<in> set (ctx_after c). f x < 0"
  shows "(\<forall>x \<in> set (ctx_before (fst (descend f c t))). f x > 0) \<and>
    (\<forall>x \<in> set (ctx_after (fst (descend f c t))). f x < 0)"
  using assms
proof (induction f c t rule: descend.induct)
  case (1 f c)
  then show ?case
    by (simp only: descend.simps fst_conv)
next
  case (2 f c l y r)
  note o = ordered_by_Node [OF "2.prems"(1)]
  have ne: "f y \<noteq> 0" "\<forall>x \<in> set_tree l. f x \<noteq> 0" "\<forall>x \<in> set_tree r. f x \<noteq> 0"
    using "2.prems"(2) by simp_all
  show ?case
  proof (cases "f y < 0")
    case True
    have "\<forall>x \<in> set (ctx_before (InL c y r)). f x > 0" "\<forall>x \<in> set (ctx_after (InL c y r)). f x < 0"
      using o(4) True "2.prems"(3,4) by auto
    from "2.IH"(1) [OF ne(1) True o(1) ne(2) this] show ?thesis
      by (simp only: descend.simps if_P [OF True] if_not_P [OF ne(1)])
  next
    case False
    have "\<forall>x \<in> set (ctx_before (InR l y c)). f x > 0" "\<forall>x \<in> set (ctx_after (InR l y c)). f x < 0"
      using o(3) False ne(1) "2.prems"(3,4) by auto
    from "2.IH"(2) [OF ne(1) False o(2) ne(3) this] show ?thesis
      by (simp only: descend.simps if_not_P [OF False] if_not_P [OF ne(1)])
  qed
qed

end
