(* ===== verification/Forge_Tree_Rep.thy ===== *)
theory Forge_Tree_Rep
  imports Forge_Tree Forge_Tree_Shape
begin

text \<open>
  When the heap of \<open>src/src/kernel/tree.c\<close> holds a tree: \<open>trep\<close> for a subtree, \<open>crep\<close> for the context
  around it, \<open>at\<close> for a whole tree seen from one of its positions. The two rotations are shown to
  perform the rotations of \<open>Forge_Tree_Shape\<close> at any position, changing nothing but links.
\<close>

named_theorems tree_simps

section \<open>Reading and writing fields\<close>

definition nd :: "tmem \<Rightarrow> ptr \<Rightarrow> tnode" where
  "nd m n = cells (tnodes m) n"

definition lf :: "tmem \<Rightarrow> ptr \<Rightarrow> ptr" where
  "lf m n = tn_left (nd m n)"

definition rt :: "tmem \<Rightarrow> ptr \<Rightarrow> ptr" where
  "rt m n = tn_right (nd m n)"

definition pa :: "tmem \<Rightarrow> ptr \<Rightarrow> ptr" where
  "pa m n = tn_parent (nd m n)"

definition ht :: "tmem \<Rightarrow> ptr \<Rightarrow> u32" where
  "ht m n = tn_height (nd m n)"

text \<open>What rotations and height updates leave alone: key, value, reference count, delete flag.\<close>

definition datum :: "tmem \<Rightarrow> ptr \<Rightarrow> ptr \<times> ptr \<times> u32 \<times> bool" where
  "datum m n = (tn_key (nd m n), tn_val (nd m n), tn_refcount (nd m n), tn_delete (nd m n))"

abbreviation tlive :: "tmem \<Rightarrow> ptr set" where
  "tlive m \<equiv> live (tnodes m)"

abbreviation meta :: "tmem \<Rightarrow> ptr \<Rightarrow> tmeta" where
  "meta m t \<equiv> cells (trees m) t"

definition setn :: "tmem \<Rightarrow> ptr \<Rightarrow> (tnode \<Rightarrow> tnode) \<Rightarrow> tmem" where
  "setn m n f = m\<lparr>tnodes := (tnodes m)\<lparr>cells := (cells (tnodes m))(n := f (cells (tnodes m) n))\<rparr>\<rparr>"

definition setm :: "tmem \<Rightarrow> ptr \<Rightarrow> (tmeta \<Rightarrow> tmeta) \<Rightarrow> tmem" where
  "setm m t f = m\<lparr>trees := (trees m)\<lparr>cells := (cells (trees m))(t := f (cells (trees m) t))\<rparr>\<rparr>"

lemma rd_live [tree_simps]: "n \<noteq> NULL \<Longrightarrow> n \<in> tlive m \<Longrightarrow> rd m n f = Some (f (nd m n))"
  by (simp add: rd_def nd_def load_def valid_def)

lemma wr_live [tree_simps]: "n \<noteq> NULL \<Longrightarrow> n \<in> tlive m \<Longrightarrow> wr m n f = Some (setn m n f)"
  by (simp add: wr_def upd_def valid_def setn_def)

lemma wr_meta_valid [tree_simps]: "valid (trees m) t \<Longrightarrow> wr_meta m t f = Some (setm m t f)"
  by (simp add: wr_meta_def upd_def setm_def)

lemma nd_sel [simp]:
  "tn_left (nd m n) = lf m n" "tn_right (nd m n) = rt m n"
  "tn_parent (nd m n) = pa m n" "tn_height (nd m n) = ht m n"
  by (simp_all add: lf_def rt_def pa_def ht_def)

lemma nd_setn: "nd (setn m n f) = (nd m)(n := f (nd m n))"
  by (auto simp: nd_def setn_def)

lemma setn_other [simp]:
  "tlive (setn m n f) = tlive m" "trees (setn m n f) = trees m" "titers (setn m n f) = titers m"
  by (simp_all add: setn_def)

lemma setm_other [simp]:
  "nd (setm m t f) = nd m" "tnodes (setm m t f) = tnodes m" "titers (setm m t f) = titers m"
  "live (trees (setm m t f)) = live (trees m)"
  "meta (setm m t f) = (meta m)(t := f (meta m t))"
  by (auto simp: setm_def nd_def)

lemma setm_fields [simp]:
  "lf (setm m t f) = lf m" "rt (setm m t f) = rt m" "pa (setm m t f) = pa m" "ht (setm m t f) = ht m"
  "datum (setm m t f) = datum m"
  by (simp_all add: fun_eq_iff lf_def rt_def pa_def ht_def datum_def del: nd_sel)

lemma setn_left [simp]:
  "lf (setn m n (tn_left_update (\<lambda>_. v))) = (lf m)(n := v)"
  "rt (setn m n (tn_left_update (\<lambda>_. v))) = rt m" "pa (setn m n (tn_left_update (\<lambda>_. v))) = pa m"
  "ht (setn m n (tn_left_update (\<lambda>_. v))) = ht m" "datum (setn m n (tn_left_update (\<lambda>_. v))) = datum m"
  by (auto simp: fun_eq_iff lf_def rt_def pa_def ht_def datum_def nd_setn simp del: nd_sel)

lemma setn_right [simp]:
  "rt (setn m n (tn_right_update (\<lambda>_. v))) = (rt m)(n := v)"
  "lf (setn m n (tn_right_update (\<lambda>_. v))) = lf m" "pa (setn m n (tn_right_update (\<lambda>_. v))) = pa m"
  "ht (setn m n (tn_right_update (\<lambda>_. v))) = ht m" "datum (setn m n (tn_right_update (\<lambda>_. v))) = datum m"
  by (auto simp: fun_eq_iff lf_def rt_def pa_def ht_def datum_def nd_setn simp del: nd_sel)

lemma setn_parent [simp]:
  "pa (setn m n (tn_parent_update (\<lambda>_. v))) = (pa m)(n := v)"
  "lf (setn m n (tn_parent_update (\<lambda>_. v))) = lf m" "rt (setn m n (tn_parent_update (\<lambda>_. v))) = rt m"
  "ht (setn m n (tn_parent_update (\<lambda>_. v))) = ht m" "datum (setn m n (tn_parent_update (\<lambda>_. v))) = datum m"
  by (auto simp: fun_eq_iff lf_def rt_def pa_def ht_def datum_def nd_setn simp del: nd_sel)

lemma setn_height [simp]:
  "ht (setn m n (tn_height_update (\<lambda>_. v))) = (ht m)(n := v)"
  "lf (setn m n (tn_height_update (\<lambda>_. v))) = lf m" "rt (setn m n (tn_height_update (\<lambda>_. v))) = rt m"
  "pa (setn m n (tn_height_update (\<lambda>_. v))) = pa m" "datum (setn m n (tn_height_update (\<lambda>_. v))) = datum m"
  by (auto simp: fun_eq_iff lf_def rt_def pa_def ht_def datum_def nd_setn simp del: nd_sel)

section \<open>Trees and contexts in the heap\<close>

fun trep :: "(ptr \<Rightarrow> ptr) \<Rightarrow> (ptr \<Rightarrow> ptr) \<Rightarrow> (ptr \<Rightarrow> ptr) \<Rightarrow> ptr \<Rightarrow> ptr \<Rightarrow> ptr tree \<Rightarrow> bool" where
  "trep L R P par p Leaf = (p = NULL)"
| "trep L R P par p (Node l x r) =
     (p = x \<and> x \<noteq> NULL \<and> P x = par \<and> trep L R P x (L x) l \<and> trep L R P x (R x) r)"

fun crep :: "(ptr \<Rightarrow> ptr) \<Rightarrow> (ptr \<Rightarrow> ptr) \<Rightarrow> (ptr \<Rightarrow> ptr) \<Rightarrow> ptr \<Rightarrow> tctx \<Rightarrow> ptr \<Rightarrow> ptr \<Rightarrow> bool" where
  "crep L R P root Top p par = (root = p \<and> par = NULL)"
| "crep L R P root (InL c x r) p par =
     (par = x \<and> x \<noteq> NULL \<and> L x = p \<and> trep L R P x (R x) r \<and> crep L R P root c x (P x))"
| "crep L R P root (InR l x c) p par =
     (par = x \<and> x \<noteq> NULL \<and> R x = p \<and> trep L R P x (L x) l \<and> crep L R P root c x (P x))"

lemma trep_cong:
  "(\<And>k. k \<in> set_tree t \<Longrightarrow> L k = L' k \<and> R k = R' k \<and> P k = P' k) \<Longrightarrow>
   trep L R P par p t \<longleftrightarrow> trep L' R' P' par p t"
  by (induction t arbitrary: par p) auto

lemma crep_cong:
  "(\<And>k. k \<in> ctx_nodes c \<Longrightarrow> L k = L' k \<and> R k = R' k \<and> P k = P' k) \<Longrightarrow>
   crep L R P root c p par \<longleftrightarrow> crep L' R' P' root c p par"
proof (induction c arbitrary: p par)
  case (InL c x r)
  then show ?case
    using trep_cong [of r L L' R R' P P'] by auto
next
  case (InR l x c)
  then show ?case
    using trep_cong [of l L L' R R' P P'] by auto
qed simp

lemma trep_transfer:
  "trep L R P par p t \<Longrightarrow> \<forall>k \<in> set_tree t. L' k = L k \<and> R' k = R k \<and> P' k = P k \<Longrightarrow>
   trep L' R' P' par p t"
  using trep_cong [of t L L' R R' P P' par p] by simp

lemma crep_transfer:
  "crep L R P root c p par \<Longrightarrow> \<forall>k \<in> ctx_nodes c. L' k = L k \<and> R' k = R k \<and> P' k = P k \<Longrightarrow>
   crep L' R' P' root c p par"
  using crep_cong [of c L L' R R' P P' root p par] by simp

lemma trep_nonnull: "trep L R P par p t \<Longrightarrow> NULL \<notin> set_tree t"
  by (induction t arbitrary: par p) auto

lemma crep_nonnull: "crep L R P root c p par \<Longrightarrow> NULL \<notin> ctx_nodes c"
  by (induction c arbitrary: p par) (auto dest: trep_nonnull)

lemma trep_reparent:
  assumes "trep L R P par p t" "distinct (inorder t)"
  shows "trep L R (if p = NULL then P else P(p := q)) q p t"
proof (cases t)
  case (Node l x r)
  then have "x \<notin> set_tree l" "x \<notin> set_tree r"
    using assms(2) by auto
  then have "trep L R (P(x := q)) u v l = trep L R P u v l"
    "trep L R (P(x := q)) u v r = trep L R P u v r" for u v
    by (auto intro!: trep_cong)
  then show ?thesis
    using assms(1) Node by auto
qed (use assms in simp)

lemma plug_rep:
  "trep L R P NULL root (plug c t) \<longleftrightarrow> (\<exists>p par. crep L R P root c p par \<and> trep L R P par p t)"
proof (induction c arbitrary: t)
  case (InL c x r)
  then show ?case by fastforce
next
  case (InR l x c)
  then show ?case by fastforce
qed auto

text \<open>The tree \<open>t\<close> seen from a position: context \<open>c\<close>, subtree \<open>s\<close> at \<open>p\<close> below the node \<open>par\<close>.\<close>

definition at :: "tmem \<Rightarrow> ptr \<Rightarrow> tctx \<Rightarrow> ptr tree \<Rightarrow> ptr \<Rightarrow> ptr \<Rightarrow> bool" where
  "at m t c s p par \<longleftrightarrow>
     valid (trees m) t \<and>
     crep (lf m) (rt m) (pa m) (tr_root (meta m t)) c p par \<and>
     trep (lf m) (rt m) (pa m) par p s \<and>
     distinct (inorder (plug c s)) \<and> ctx_nodes c \<union> set_tree s \<subseteq> tlive m"

text \<open>\<open>relinked m t A m'\<close>: only links and heights of the nodes in \<open>A\<close> and the root of \<open>t\<close> differ.\<close>

definition relinked :: "tmem \<Rightarrow> ptr \<Rightarrow> ptr set \<Rightarrow> tmem \<Rightarrow> bool" where
  "relinked m t A m' \<longleftrightarrow>
     tlive m' = tlive m \<and> live (trees m') = live (trees m) \<and> titers m' = titers m \<and>
     datum m' = datum m \<and> (\<forall>k. k \<notin> A \<longrightarrow> nd m' k = nd m k) \<and>
     (\<forall>u. u \<noteq> t \<longrightarrow> meta m' u = meta m u) \<and>
     tr_cmp (meta m' t) = tr_cmp (meta m t) \<and> tr_len (meta m' t) = tr_len (meta m t)"

lemma relinked_refl [simp]: "relinked m t A m"
  by (simp add: relinked_def)

lemma relinked_trans: "relinked m t A m' \<Longrightarrow> relinked m' t A m'' \<Longrightarrow> relinked m t A m''"
  by (simp add: relinked_def)

lemma relinked_setn:
  "n \<in> A \<Longrightarrow> datum (setn m n f) = datum m \<Longrightarrow> relinked m t A (setn m n f)"
  by (simp add: relinked_def nd_setn)

lemma relinked_root: "relinked m t A (setm m t (tr_root_update (\<lambda>_. v)))"
  by (simp add: relinked_def)

lemma at_plug:
  assumes "at m t c s p par"
  shows "\<exists>r. at m t Top (plug c s) r NULL"
  using assms plug_rep [of "lf m" "rt m" "pa m" "tr_root (meta m t)" c s]
  by (auto simp: at_def)

section \<open>Rotations\<close>

lemma replace_child_crep:
  assumes rep: "crep (lf m) (rt m) (pa m) (tr_root (meta m t)) c n (pa m n)"
    and v: "valid (trees m) t" "ctx_nodes c \<subseteq> tlive m"
    and n: "n \<noteq> NULL" "n \<in> tlive m" "y \<noteq> NULL" "y \<in> tlive m" "n \<noteq> y"
    and out: "y \<notin> ctx_nodes c" "distinct (ctx_before c @ n # ctx_after c)"
  obtains m' where "replace_child m t n y = Some m'"
    "crep (lf m') (rt m') (pa m') (tr_root (meta m' t)) c y (pa m n)"
    "pa m' = (pa m)(y := pa m n)" "ht m' = ht m"
    "\<forall>k. k \<notin> ctx_nodes c \<longrightarrow> lf m' k = lf m k \<and> rt m' k = rt m k"
    "relinked m t (insert y (ctx_nodes c)) m'"
proof (cases c)
  case Top
  with assms show ?thesis
    by (intro that [of "setm (setn m y (tn_parent_update (\<lambda>_. pa m n))) t (tr_root_update (\<lambda>_. y))"])
      (auto simp: replace_child_def tree_simps relinked_def nd_setn)
next
  case (InL c' x r)
  let ?m = "setn m y (tn_parent_update (\<lambda>_. pa m n))"
  let ?m' = "setn ?m x (tn_left_update (\<lambda>_. y))"
  have x: "pa m n = x" "x \<noteq> NULL" "x \<in> tlive m" "lf m x = n" "x \<noteq> y"
    using rep v InL out by auto
  have "replace_child m t n y = Some ?m'"
    using v n x by (simp add: replace_child_def tree_simps)
  moreover have "crep (lf ?m') (rt ?m') (pa ?m') (tr_root (meta ?m' t)) c y (pa m n)"
  proof -
    have "x \<notin> set_tree r" "x \<notin> ctx_nodes c'" "y \<notin> set_tree r" "y \<notin> ctx_nodes c'"
      using out InL by (auto simp: ctx_nodes_sets)
    then have "trep (lf ?m') (rt ?m') (pa ?m') u w r = trep (lf m) (rt m) (pa m) u w r"
      "crep (lf ?m') (rt ?m') (pa ?m') (tr_root (meta ?m' t)) c' u w =
        crep (lf m) (rt m) (pa m) (tr_root (meta m t)) c' u w" for u w
      by (auto intro!: trep_cong crep_cong)
    then show ?thesis
      using rep InL x by simp
  qed
  ultimately show ?thesis
    using InL x by (intro that [of ?m']) (auto simp: relinked_def nd_setn)
next
  case (InR l x c')
  let ?m = "setn m y (tn_parent_update (\<lambda>_. pa m n))"
  let ?m' = "setn ?m x (tn_right_update (\<lambda>_. y))"
  have x: "pa m n = x" "x \<noteq> NULL" "x \<in> tlive m" "rt m x = n" "x \<noteq> y"
    using rep v InR out by auto
  have "lf m x \<noteq> n"
  proof
    assume "lf m x = n"
    moreover have "trep (lf m) (rt m) (pa m) x (lf m x) l"
      using rep InR by simp
    ultimately have "n \<in> set_tree l"
      using n(1) by (cases l) auto
    then show False
      using out InR by auto
  qed
  then have "replace_child m t n y = Some ?m'"
    using v n x by (auto simp: replace_child_def tree_simps)
  moreover have "crep (lf ?m') (rt ?m') (pa ?m') (tr_root (meta ?m' t)) c y (pa m n)"
  proof -
    have "x \<notin> set_tree l" "x \<notin> ctx_nodes c'" "y \<notin> set_tree l" "y \<notin> ctx_nodes c'"
      using out InR by (auto simp: ctx_nodes_sets)
    then have "trep (lf ?m') (rt ?m') (pa ?m') u w l = trep (lf m) (rt m) (pa m) u w l"
      "crep (lf ?m') (rt ?m') (pa ?m') (tr_root (meta ?m' t)) c' u w =
        crep (lf m) (rt m) (pa m) (tr_root (meta m t)) c' u w" for u w
      by (auto intro!: trep_cong crep_cong)
    then show ?thesis
      using rep InR x by simp
  qed
  ultimately show ?thesis
    using InR x by (intro that [of ?m']) (auto simp: relinked_def nd_setn)
qed

text \<open>
  The links inside the rotated subtree: the middle subtree \<open>b\<close> gets the node \<open>x\<close> as parent when it is
  not empty.
\<close>

lemma middle_trep:
  assumes "trep L R P y p b" "distinct (inorder b)"
    and "\<forall>k \<in> set_tree b. L' k = L k \<and> R' k = R k"
    and "\<forall>k \<in> set_tree b. P' k = (if k = p then x else P k)"
  shows "trep L' R' P' x p b"
proof -
  have "trep L R (if p = NULL then P else P(p := x)) x p b"
    using assms(1,2) by (rule trep_reparent)
  moreover have "p \<noteq> NULL" if "k \<in> set_tree b" for k
    using that assms(1) by (cases b) auto
  ultimately show ?thesis
    using assms(3,4) trep_cong [of b L L' R R' "if p = NULL then P else P(p := x)" P' x p]
    by (auto split: if_splits)
qed

text \<open>
  What \<open>rotate_left\<close> does to the fields of the nodes, for a node \<open>x\<close> below the context \<open>c\<close> whose right
  child \<open>y\<close> has the left subtree \<open>b\<close>.
\<close>

lemma rotate_left_exec:
  assumes cr: "crep (lf m) (rt m) (pa m) (tr_root (meta m t)) c x (pa m x)"
    and tb: "trep (lf m) (rt m) (pa m) y (lf m y) b" and v: "valid (trees m) t"
    and dist: "distinct (ctx_before c @ x # y # inorder b @ ctx_after c)"
    and lv: "ctx_nodes c \<union> {x, y} \<union> set_tree b \<subseteq> tlive m"
    and p: "rt m x = y" "x \<noteq> NULL" "y \<noteq> NULL"
  obtains m' where "rotate_left m t x = Some m'"
    "crep (lf m') (rt m') (pa m') (tr_root (meta m' t)) c y (pa m x)"
    "\<forall>k. k \<notin> ctx_nodes c \<union> {x, y} \<longrightarrow> lf m' k = lf m k \<and> rt m' k = rt m k"
    "\<forall>k. k \<notin> {x, y, NULL} \<longrightarrow> pa m' k = (if k = lf m y then x else pa m k)"
    "lf m' x = lf m x" "rt m' x = lf m y" "lf m' y = x" "rt m' y = rt m y" "pa m' x = y" "pa m' y = pa m x"
    "ht m' = ht m" "relinked m t (ctx_nodes c \<union> {x, y} \<union> set_tree b) m'"
proof -
  let ?A = "ctx_nodes c \<union> {x, y} \<union> set_tree b"
  have ctx: "x \<notin> ctx_nodes c" "y \<notin> ctx_nodes c" "x \<noteq> y" "ctx_nodes c \<inter> set_tree b = {}"
    using dist by (auto simp: ctx_nodes_sets)
  have lb: "lf m y \<noteq> NULL \<Longrightarrow> lf m y \<in> set_tree b"
    using tb by (cases b) auto
  then have yl: "lf m y \<noteq> x" "lf m y \<noteq> y" "lf m y \<noteq> NULL \<Longrightarrow> lf m y \<notin> ctx_nodes c"
    "lf m y \<noteq> NULL \<Longrightarrow> lf m y \<in> tlive m"
    using dist p ctx(4) lv by auto
  define m1 where "m1 = setn m x (tn_right_update (\<lambda>_. lf m y))"
  define m2 where "m2 = (if lf m y \<noteq> NULL then setn m1 (lf m y) (tn_parent_update (\<lambda>_. x)) else m1)"
  have m2: "lf m2 = lf m" "rt m2 = (rt m)(x := lf m y)" "ht m2 = ht m" "tlive m2 = tlive m"
    "pa m2 = (if lf m y = NULL then pa m else (pa m)(lf m y := x))" "trees m2 = trees m"
    "relinked m t ?A m2"
    using lb by (auto simp: m1_def m2_def relinked_def nd_setn)
  have px: "pa m2 x = pa m x"
    using yl by (simp add: m2)
  have "crep (lf m2) (rt m2) (pa m2) (tr_root (meta m t)) c x (pa m x)"
    by (rule crep_transfer [OF cr]) (use ctx yl in \<open>auto simp: m2\<close>)
  then have cr2: "crep (lf m2) (rt m2) (pa m2) (tr_root (meta m2 t)) c x (pa m2 x)"
    by (simp add: m2(6) px)
  obtain m3 where m3: "replace_child m2 t x y = Some m3"
    "crep (lf m3) (rt m3) (pa m3) (tr_root (meta m3 t)) c y (pa m2 x)"
    "pa m3 = (pa m2)(y := pa m2 x)" "ht m3 = ht m2"
    "\<forall>k. k \<notin> ctx_nodes c \<longrightarrow> lf m3 k = lf m2 k \<and> rt m3 k = rt m2 k"
    "relinked m2 t (insert y (ctx_nodes c)) m3"
    by (rule replace_child_crep [OF cr2, of y])
      (use v lv m2 ctx p dist in \<open>auto simp: valid_def\<close>)
  define m4 where "m4 = setn (setn m3 y (tn_left_update (\<lambda>_. x))) x (tn_parent_update (\<lambda>_. y))"
  have lv3: "tlive m3 = tlive m" "live (trees m3) = live (trees m)"
    using m3(6) m2 by (simp_all add: relinked_def)
  have exec: "rotate_left m t x = Some m4"
    using v p yl lv ctx(3) m2 m3(1) lv3
    by (auto simp: rotate_left_def tree_simps m1_def m2_def m4_def)
  have "crep (lf m4) (rt m4) (pa m4) (tr_root (meta m3 t)) c y (pa m2 x)"
    by (rule crep_transfer [OF m3(2)]) (use ctx in \<open>auto simp: m4_def\<close>)
  then have "crep (lf m4) (rt m4) (pa m4) (tr_root (meta m4 t)) c y (pa m x)"
    by (simp add: px) (simp add: m4_def)
  moreover have "relinked m2 t ?A m3" "relinked m3 t ?A m4"
    using m3(6) by (auto simp: relinked_def m4_def nd_setn)
  then have "relinked m t ?A m4"
    using m2(7) relinked_trans by blast
  ultimately show ?thesis
    using exec m3(3,4,5) m2 ctx yl px p by (intro that [of m4]) (auto simp: m4_def)
qed

lemma rotate_left_at:
  assumes at: "at m t c (Node a x (Node b y d)) x par"
  obtains m' where "rotate_left m t x = Some m'" "at m' t c (Node (Node a x b) y d) y par"
    "ht m' = ht m" "relinked m t (ctx_nodes c \<union> set_tree (Node a x (Node b y d))) m'"
proof -
  let ?A = "ctx_nodes c \<union> set_tree (Node a x (Node b y d))"
  have v: "valid (trees m) t" and lv: "?A \<subseteq> tlive m"
    and cr: "crep (lf m) (rt m) (pa m) (tr_root (meta m t)) c x (pa m x)"
    and tr: "trep (lf m) (rt m) (pa m) x (lf m x) a" "trep (lf m) (rt m) (pa m) y (lf m y) b"
      "trep (lf m) (rt m) (pa m) y (rt m y) d"
    and p: "rt m x = y" "pa m x = par" "x \<noteq> NULL" "y \<noteq> NULL"
    using at by (auto simp: at_def)
  have dist: "distinct (ctx_before c @ inorder a @ x # inorder b @ y # inorder d @ ctx_after c)"
    using at by (simp add: at_def)
  obtain m' where m': "rotate_left m t x = Some m'"
    "crep (lf m') (rt m') (pa m') (tr_root (meta m' t)) c y (pa m x)"
    "\<forall>k. k \<notin> ctx_nodes c \<union> {x, y} \<longrightarrow> lf m' k = lf m k \<and> rt m' k = rt m k"
    "\<forall>k. k \<notin> {x, y, NULL} \<longrightarrow> pa m' k = (if k = lf m y then x else pa m k)"
    "lf m' x = lf m x" "rt m' x = lf m y" "lf m' y = x" "rt m' y = rt m y" "pa m' x = y" "pa m' y = pa m x"
    "ht m' = ht m" "relinked m t (ctx_nodes c \<union> {x, y} \<union> set_tree b) m'"
    by (rule rotate_left_exec [OF cr tr(2) v]) (use lv dist p in auto)
  have ctx: "\<forall>k \<in> set_tree a \<union> set_tree b \<union> set_tree d. k \<notin> ctx_nodes c \<union> {x, y} \<and> k \<noteq> NULL"
    using dist trep_nonnull [OF tr(1)] trep_nonnull [OF tr(2)] trep_nonnull [OF tr(3)]
    by (auto simp: ctx_nodes_sets)
  have "lf m y \<noteq> NULL \<Longrightarrow> lf m y \<in> set_tree b"
    using tr(2) by (cases b) auto
  then have nb: "\<forall>k \<in> set_tree a \<union> set_tree d. k \<noteq> lf m y"
    using dist ctx by auto
  have "trep (lf m') (rt m') (pa m') x (lf m x) a" "trep (lf m') (rt m') (pa m') y (rt m y) d"
    using ctx nb m'(3,4) by (auto intro!: trep_transfer [OF tr(1)] trep_transfer [OF tr(3)])
  moreover have "trep (lf m') (rt m') (pa m') x (lf m y) b"
    using dist ctx m'(3,4) by (intro middle_trep [OF tr(2)]) auto
  moreover have "tlive m' = tlive m" "live (trees m') = live (trees m)"
    using m'(12) by (simp_all add: relinked_def)
  ultimately have "at m' t c (Node (Node a x b) y d) y par"
    using m' p v lv dist by (auto simp: at_def valid_def)
  with m'(1,11,12) show ?thesis
    by (intro that [of m']) (auto simp: relinked_def)
qed

text \<open>
  What \<open>rotate_right\<close> does to the fields of the nodes, for a node \<open>x\<close> below the context \<open>c\<close> whose left
  child \<open>y\<close> has the right subtree \<open>b\<close>.
\<close>

lemma rotate_right_exec:
  assumes cr: "crep (lf m) (rt m) (pa m) (tr_root (meta m t)) c x (pa m x)"
    and tb: "trep (lf m) (rt m) (pa m) y (rt m y) b" and v: "valid (trees m) t"
    and dist: "distinct (ctx_before c @ x # y # inorder b @ ctx_after c)"
    and lv: "ctx_nodes c \<union> {x, y} \<union> set_tree b \<subseteq> tlive m"
    and p: "lf m x = y" "x \<noteq> NULL" "y \<noteq> NULL"
  obtains m' where "rotate_right m t x = Some m'"
    "crep (lf m') (rt m') (pa m') (tr_root (meta m' t)) c y (pa m x)"
    "\<forall>k. k \<notin> ctx_nodes c \<union> {x, y} \<longrightarrow> lf m' k = lf m k \<and> rt m' k = rt m k"
    "\<forall>k. k \<notin> {x, y, NULL} \<longrightarrow> pa m' k = (if k = rt m y then x else pa m k)"
    "rt m' x = rt m x" "lf m' x = rt m y" "rt m' y = x" "lf m' y = lf m y" "pa m' x = y" "pa m' y = pa m x"
    "ht m' = ht m" "relinked m t (ctx_nodes c \<union> {x, y} \<union> set_tree b) m'"
proof -
  let ?A = "ctx_nodes c \<union> {x, y} \<union> set_tree b"
  have ctx: "x \<notin> ctx_nodes c" "y \<notin> ctx_nodes c" "x \<noteq> y" "ctx_nodes c \<inter> set_tree b = {}"
    using dist by (auto simp: ctx_nodes_sets)
  have lb: "rt m y \<noteq> NULL \<Longrightarrow> rt m y \<in> set_tree b"
    using tb by (cases b) auto
  then have yl: "rt m y \<noteq> x" "rt m y \<noteq> y" "rt m y \<noteq> NULL \<Longrightarrow> rt m y \<notin> ctx_nodes c"
    "rt m y \<noteq> NULL \<Longrightarrow> rt m y \<in> tlive m"
    using dist p ctx(4) lv by auto
  define m1 where "m1 = setn m x (tn_left_update (\<lambda>_. rt m y))"
  define m2 where "m2 = (if rt m y \<noteq> NULL then setn m1 (rt m y) (tn_parent_update (\<lambda>_. x)) else m1)"
  have m2: "rt m2 = rt m" "lf m2 = (lf m)(x := rt m y)" "ht m2 = ht m" "tlive m2 = tlive m"
    "pa m2 = (if rt m y = NULL then pa m else (pa m)(rt m y := x))" "trees m2 = trees m"
    "relinked m t ?A m2"
    using lb by (auto simp: m1_def m2_def relinked_def nd_setn)
  have px: "pa m2 x = pa m x"
    using yl by (simp add: m2)
  have "crep (lf m2) (rt m2) (pa m2) (tr_root (meta m t)) c x (pa m x)"
    by (rule crep_transfer [OF cr]) (use ctx yl in \<open>auto simp: m2\<close>)
  then have cr2: "crep (lf m2) (rt m2) (pa m2) (tr_root (meta m2 t)) c x (pa m2 x)"
    by (simp add: m2(6) px)
  obtain m3 where m3: "replace_child m2 t x y = Some m3"
    "crep (lf m3) (rt m3) (pa m3) (tr_root (meta m3 t)) c y (pa m2 x)"
    "pa m3 = (pa m2)(y := pa m2 x)" "ht m3 = ht m2"
    "\<forall>k. k \<notin> ctx_nodes c \<longrightarrow> lf m3 k = lf m2 k \<and> rt m3 k = rt m2 k"
    "relinked m2 t (insert y (ctx_nodes c)) m3"
    by (rule replace_child_crep [OF cr2, of y])
      (use v lv m2 ctx p dist in \<open>auto simp: valid_def\<close>)
  define m4 where "m4 = setn (setn m3 y (tn_right_update (\<lambda>_. x))) x (tn_parent_update (\<lambda>_. y))"
  have lv3: "tlive m3 = tlive m" "live (trees m3) = live (trees m)"
    using m3(6) m2 by (simp_all add: relinked_def)
  have exec: "rotate_right m t x = Some m4"
    using v p yl lv ctx(3) m2 m3(1) lv3
    by (auto simp: rotate_right_def tree_simps m1_def m2_def m4_def)
  have "crep (lf m4) (rt m4) (pa m4) (tr_root (meta m3 t)) c y (pa m2 x)"
    by (rule crep_transfer [OF m3(2)]) (use ctx in \<open>auto simp: m4_def\<close>)
  then have "crep (lf m4) (rt m4) (pa m4) (tr_root (meta m4 t)) c y (pa m x)"
    by (simp add: px) (simp add: m4_def)
  moreover have "relinked m2 t ?A m3" "relinked m3 t ?A m4"
    using m3(6) by (auto simp: relinked_def m4_def nd_setn)
  then have "relinked m t ?A m4"
    using m2(7) relinked_trans by blast
  ultimately show ?thesis
    using exec m3(3,4,5) m2 ctx yl px p by (intro that [of m4]) (auto simp: m4_def)
qed

lemma rotate_right_at:
  assumes at: "at m t c (Node (Node d y b) x a) x par"
  obtains m' where "rotate_right m t x = Some m'" "at m' t c (Node d y (Node b x a)) y par"
    "ht m' = ht m" "relinked m t (ctx_nodes c \<union> set_tree (Node (Node d y b) x a)) m'"
proof -
  let ?A = "ctx_nodes c \<union> set_tree (Node (Node d y b) x a)"
  have v: "valid (trees m) t" and lv: "?A \<subseteq> tlive m"
    and cr: "crep (lf m) (rt m) (pa m) (tr_root (meta m t)) c x (pa m x)"
    and tr: "trep (lf m) (rt m) (pa m) x (rt m x) a" "trep (lf m) (rt m) (pa m) y (rt m y) b"
      "trep (lf m) (rt m) (pa m) y (lf m y) d"
    and p: "lf m x = y" "pa m x = par" "x \<noteq> NULL" "y \<noteq> NULL"
    using at by (auto simp: at_def)
  have dist: "distinct (ctx_before c @ inorder d @ y # inorder b @ x # inorder a @ ctx_after c)"
    using at by (simp add: at_def)
  obtain m' where m': "rotate_right m t x = Some m'"
    "crep (lf m') (rt m') (pa m') (tr_root (meta m' t)) c y (pa m x)"
    "\<forall>k. k \<notin> ctx_nodes c \<union> {x, y} \<longrightarrow> lf m' k = lf m k \<and> rt m' k = rt m k"
    "\<forall>k. k \<notin> {x, y, NULL} \<longrightarrow> pa m' k = (if k = rt m y then x else pa m k)"
    "rt m' x = rt m x" "lf m' x = rt m y" "rt m' y = x" "lf m' y = lf m y" "pa m' x = y" "pa m' y = pa m x"
    "ht m' = ht m" "relinked m t (ctx_nodes c \<union> {x, y} \<union> set_tree b) m'"
    by (rule rotate_right_exec [OF cr tr(2) v]) (use lv dist p in auto)
  have ctx: "\<forall>k \<in> set_tree a \<union> set_tree b \<union> set_tree d. k \<notin> ctx_nodes c \<union> {x, y} \<and> k \<noteq> NULL"
    using dist trep_nonnull [OF tr(1)] trep_nonnull [OF tr(2)] trep_nonnull [OF tr(3)]
    by (auto simp: ctx_nodes_sets)
  have "rt m y \<noteq> NULL \<Longrightarrow> rt m y \<in> set_tree b"
    using tr(2) by (cases b) auto
  then have nb: "\<forall>k \<in> set_tree a \<union> set_tree d. k \<noteq> rt m y"
    using dist ctx by auto
  have "trep (lf m') (rt m') (pa m') x (rt m x) a" "trep (lf m') (rt m') (pa m') y (lf m y) d"
    using ctx nb m'(3,4) by (auto intro!: trep_transfer [OF tr(1)] trep_transfer [OF tr(3)])
  moreover have "trep (lf m') (rt m') (pa m') x (rt m y) b"
    using dist ctx m'(3,4) by (intro middle_trep [OF tr(2)]) auto
  moreover have "tlive m' = tlive m" "live (trees m') = live (trees m)"
    using m'(12) by (simp_all add: relinked_def)
  ultimately have "at m' t c (Node d y (Node b x a)) y par"
    using m' p v lv dist by (auto simp: at_def valid_def)
  with m'(1,11,12) show ?thesis
    by (intro that [of m']) (auto simp: relinked_def)
qed

end
