(* ===== verification/Forge_Tree_Balance.thy ===== *)
theory Forge_Tree_Balance
  imports Forge_Tree_Rep
begin

text \<open>
  The stored heights of \<open>src/src/kernel/tree.c\<close> and the loops that use them. Between two operations
  every node but the root stores the height of its subtree (\<open>hsub\<close>); the loop towards the root works
  on a position whose grandchildren are exact and whose children may be stale (\<open>hloose\<close>). The loops
  return and perform \<open>fix_up\<close> and \<open>sink\<close> of \<open>Forge_Tree_Shape\<close>.
\<close>

section \<open>Stored heights\<close>

fun hexact :: "(ptr \<Rightarrow> u32) \<Rightarrow> ptr tree \<Rightarrow> bool" where
  "hexact H Leaf = True"
| "hexact H (Node l x r) = (H x = of_nat (height (Node l x r)) \<and> hexact H l \<and> hexact H r)"

fun hsub :: "(ptr \<Rightarrow> u32) \<Rightarrow> ptr tree \<Rightarrow> bool" where
  "hsub H Leaf = True"
| "hsub H (Node l x r) = (hexact H l \<and> hexact H r)"

fun hloose :: "(ptr \<Rightarrow> u32) \<Rightarrow> ptr tree \<Rightarrow> bool" where
  "hloose H Leaf = True"
| "hloose H (Node l x r) = (hsub H l \<and> hsub H r)"

fun ctx_exact :: "(ptr \<Rightarrow> u32) \<Rightarrow> tctx \<Rightarrow> bool" where
  "ctx_exact H Top = True"
| "ctx_exact H (InL c x r) = (hexact H r \<and> ctx_exact H c)"
| "ctx_exact H (InR l x c) = (hexact H l \<and> ctx_exact H c)"

lemma hexact_hsub: "hexact H t \<Longrightarrow> hsub H t"
  by (cases t) auto

lemma hsub_hloose: "hsub H t \<Longrightarrow> hloose H t"
  by (cases t) (auto intro: hexact_hsub)

lemma hexact_cong: "\<forall>k \<in> set_tree t. H' k = H k \<Longrightarrow> hexact H' t = hexact H t"
  by (induction t) auto

lemma hsub_cong: "\<forall>k \<in> set_tree t. H' k = H k \<Longrightarrow> hsub H' t = hsub H t"
  by (cases t) (simp_all add: hexact_cong [of _ H' H])

lemma ctx_exact_cong: "\<forall>k \<in> ctx_nodes c. H' k = H k \<Longrightarrow> ctx_exact H' c = ctx_exact H c"
  by (induction c) (simp_all add: hexact_cong [of _ H' H])

lemma hsub_hexact_upd:
  assumes "hsub H t" "distinct (inorder t)" "t = Node l x r"
  shows "hexact (H(x := of_nat (height t))) t"
proof -
  have "hexact (H(x := v)) l = hexact H l" "hexact (H(x := v)) r = hexact H r" for v
    using assms(2,3) by (auto intro!: hexact_cong)
  then show ?thesis
    using assms(1,3) by simp
qed

text \<open>Heights are far below the width of \<open>int\<close> when a tree has fewer than \<open>2 ^ 30\<close> nodes.\<close>

lemma height_le_size: "height (t :: ptr tree) \<le> size t"
  by (induction t) auto

definition small :: "ptr tree \<Rightarrow> bool" where
  "small t \<longleftrightarrow> size t < 2 ^ 30"

lemma small_plug: "small (plug c t) \<Longrightarrow> small t"
  using size_plug_mono [of t c] by (simp add: small_def)

lemma small_Node: "small (Node l x r) \<Longrightarrow> small l \<and> small r"
  by (simp add: small_def)

lemma small_height: "small t \<Longrightarrow> height t < 2 ^ 30"
  using height_le_size [of t] by (simp add: small_def)

lemma sint_of_small:
  assumes "n < 2 ^ 30"
  shows "sint (of_nat n :: u32) = int n"
proof -
  have "int n < 2 ^ 30"
    using assms by simp
  then show ?thesis
    using int_word_sint [of "int n", where ?'a = 32] by simp
qed

lemma of_nat_less_small:
  assumes "a < 2 ^ 30" "b < 2 ^ 30"
  shows "(of_nat a :: u32) < of_nat b \<longleftrightarrow> a < b" "(of_nat a :: u32) \<le> of_nat b \<longleftrightarrow> a \<le> b"
    "(of_nat a :: u32) = 0 \<longleftrightarrow> a = 0"
  using assms by (simp_all add: word_less_nat_alt word_le_nat_alt word_unat_eq_iff unat_of_nat)

section \<open>Positions\<close>

lemma at_sub:
  assumes "at m t c (Node l x r) x par"
  shows "x \<noteq> NULL" "x \<in> tlive m" "pa m x = par" "valid (trees m) t"
    "trep (lf m) (rt m) (pa m) x (lf m x) l" "trep (lf m) (rt m) (pa m) x (rt m x) r"
    "set_tree l \<subseteq> tlive m" "set_tree r \<subseteq> tlive m" "distinct (inorder l)" "distinct (inorder r)"
    "x \<notin> set_tree l" "x \<notin> set_tree r" "set_tree l \<inter> set_tree r = {}"
    "ctx_nodes c \<inter> insert x (set_tree l \<union> set_tree r) = {}"
  using assms by (auto simp: at_def ctx_nodes_sets)

lemma at_InL: "at m t (InL c z r) s p par \<Longrightarrow> par = z \<and> at m t c (Node s z r) z (pa m z)"
  by (auto simp: at_def)

lemma at_InR: "at m t (InR l z c) s p par \<Longrightarrow> par = z \<and> at m t c (Node l z s) z (pa m z)"
  by (auto simp: at_def)

lemma at_left: "at m t c (Node l x r) p par \<Longrightarrow> at m t (InL c x r) l (lf m x) x"
  by (auto simp: at_def)

lemma at_right: "at m t c (Node l x r) p par \<Longrightarrow> at m t (InR l x c) r (rt m x) x"
  by (auto simp: at_def)

lemma at_root_ptr: "at m t c (Node l x r) p par \<Longrightarrow> p = x"
  by (simp add: at_def)

lemma at_same_links:
  "at m t c s p par \<Longrightarrow> lf m' = lf m \<Longrightarrow> rt m' = rt m \<Longrightarrow> pa m' = pa m \<Longrightarrow> trees m' = trees m \<Longrightarrow>
   tlive m' = tlive m \<Longrightarrow> at m' t c s p par"
  by (simp add: at_def)

section \<open>Computing heights\<close>

lemma trep_root: "trep L R P par p t \<Longrightarrow> t \<noteq> Leaf \<Longrightarrow> p \<in> set_tree t"
  by (cases t) auto

lemma stored_height:
  assumes "trep L R P par p t" "hexact (ht m) t" "set_tree t \<subseteq> tlive m"
  shows "(if p \<noteq> NULL then rd m p tn_height else Some 0) = Some (of_nat (height t))"
  using assms by (cases t) (auto simp: tree_simps)

lemma node_height_rep:
  assumes tr: "trep (lf m) (rt m) (pa m) par p s" and hs: "hsub (ht m) s"
    and lv: "set_tree s \<subseteq> tlive m" and sm: "small s"
  shows "node_height m p = Some (if s = Leaf then m else setn m p (tn_height_update (\<lambda>_. of_nat (height s))),
    of_nat (height s))"
proof (cases s)
  case Leaf
  with tr show ?thesis by (simp add: node_height_def)
next
  case (Node l x r)
  then have p: "p = x" "x \<noteq> NULL" "x \<in> tlive m" and lr: "set_tree l \<subseteq> tlive m" "set_tree r \<subseteq> tlive m"
    and tl: "trep (lf m) (rt m) (pa m) x (lf m x) l" and tr': "trep (lf m) (rt m) (pa m) x (rt m x) r"
    and hx: "hexact (ht m) l" "hexact (ht m) r"
    using assms by auto
  have sl: "height l + 1 < 2 ^ 30" "height r + 1 < 2 ^ 30"
    using small_height [OF sm] Node by auto
  note st = stored_height [OF tl hx(1) lr(1)] stored_height [OF tr' hx(2) lr(2)]
  have lt: "(of_nat (height r) + 1 :: u32) < of_nat (height l) + 1 \<longleftrightarrow> height r < height l"
    using of_nat_less_small(1) [OF sl(2,1)] by (simp add: add.commute)
  show ?thesis
    using p Node st lt unfolding node_height_def by (simp add: tree_simps Let_def max_def add.commute)
qed

text \<open>What the balance factor of a node makes exact: the heights of its two children.\<close>

lemma node_bfactor_at:
  assumes at: "at m t c (Node l x r) x par" and hl: "hloose (ht m) (Node l x r)"
    and sm: "small (Node l x r)"
  obtains m' where "node_bfactor m x = Some (m', bal (Node l x r))" "at m' t c (Node l x r) x par"
    "hsub (ht m') (Node l x r)" "\<forall>k. k \<notin> set_tree l \<union> set_tree r \<longrightarrow> ht m' k = ht m k"
    "hsub (ht m) (Node l x r) \<Longrightarrow> ht m' = ht m"
    "relinked m t (set_tree l \<union> set_tree r) m'" "lf m' = lf m" "rt m' = rt m" "pa m' = pa m"
proof -
  note s = at_sub [OF at]
  have hs: "hsub (ht m) l" "hsub (ht m) r" and sml: "small l" "small r"
    using hl small_Node [OF sm] by auto
  define m1 where "m1 = (if r = Leaf then m else setn m (rt m x) (tn_height_update (\<lambda>_. of_nat (height r))))"
  define m2 where "m2 = (if l = Leaf then m1 else setn m1 (lf m x) (tn_height_update (\<lambda>_. of_nat (height l))))"
  have links: "lf m1 = lf m" "rt m1 = rt m" "pa m1 = pa m" "tlive m1 = tlive m" "trees m1 = trees m"
    "lf m2 = lf m" "rt m2 = rt m" "pa m2 = pa m" "tlive m2 = tlive m" "trees m2 = trees m"
    by (simp_all add: m1_def m2_def)
  have root: "l \<noteq> Leaf \<Longrightarrow> lf m x \<in> set_tree l" "r \<noteq> Leaf \<Longrightarrow> rt m x \<in> set_tree r"
    using trep_root [OF s(5)] trep_root [OF s(6)] by auto
  have h1: "node_height m (rt m x) = Some (m1, of_nat (height r))"
    using node_height_rep [OF s(6) hs(2) s(8) sml(2)] by (simp add: m1_def)
  have eq1: "\<forall>k \<in> set_tree l. ht m1 k = ht m k"
    using root(2) s(13) by (auto simp: m1_def)
  have hs1: "hsub (ht m1) l"
    using hs(1) hsub_cong [OF eq1] by simp
  have h2: "node_height m1 (lf m x) = Some (m2, of_nat (height l))"
    using node_height_rep [of m1 x "lf m x" l] s(5,7) hs1 sml(1) by (simp add: m2_def links)
  have b: "node_bfactor m x = Some (m2, bal (Node l x r))"
    using s(1,2) h1 h2 small_height [OF sml(1)] small_height [OF sml(2)]
    by (simp add: node_bfactor_def tree_simps links sint_of_small)
  have "hexact (ht m2) l"
    using hsub_hexact_upd [OF hs1 s(9)] s(5) by (cases l) (auto simp: m2_def)
  moreover have "hexact (ht m1) r"
    using hsub_hexact_upd [OF hs(2) s(10)] s(6) by (cases r) (auto simp: m1_def)
  then have "hexact (ht m2) r"
    using root(1) s(13) by (subst hexact_cong [of _ _ "ht m1"]) (auto simp: m2_def)
  ultimately have "hsub (ht m2) (Node l x r)"
    by simp
  moreover have "at m2 t c (Node l x r) x par"
    using at links by (auto intro: at_same_links)
  moreover have "ht m2 = ht m" if "hsub (ht m) (Node l x r)"
    using that s(5,6) by (cases l; cases r) (auto simp: m1_def m2_def fun_eq_iff)
  moreover have "relinked m t (set_tree l \<union> set_tree r) m2"
    using root by (auto simp: relinked_def m1_def m2_def nd_setn)
  ultimately show ?thesis
    using b root links by (intro that [of m2]) (auto simp: m1_def m2_def)
qed

fun ctx_par :: "tctx \<Rightarrow> ptr" where
  "ctx_par Top = NULL"
| "ctx_par (InL c x r) = x"
| "ctx_par (InR l x c) = x"

lemma at_par: "at m t c s p par \<Longrightarrow> par = ctx_par c"
  by (cases c) (auto simp: at_def)

lemma at_par_eq: "at m t c s p par \<Longrightarrow> at m' t c s' p' par' \<Longrightarrow> par' = par"
  using at_par by metis

section \<open>Rebalancing a node\<close>

lemma relinked_mono: "relinked m t A m' \<Longrightarrow> A \<subseteq> B \<Longrightarrow> relinked m t B m'"
  by (auto simp: relinked_def)

lemma hloose_rebal:
  assumes "hsub H t" "unbalanced t"
  shows "hloose H (rebal t)"
proof (cases t)
  case (Node l x r)
  show ?thesis
  proof (cases "bal t < -1")
    case True
    with Node obtain a y b where l: "l = Node a y b"
      by (cases l) auto
    with True Node assms(1) show ?thesis
      by (cases b) (auto intro: hexact_hsub)
  next
    case False
    with assms(2) Node obtain b y d where r: "r = Node b y d"
      by (cases r) auto
    with False assms Node show ?thesis
      by (cases b) (auto intro: hexact_hsub)
  qed
qed simp

text \<open>The two balance factors \<open>node_rebalance\<close> computes leave everything as it is.\<close>

lemma bfactor_exact:
  assumes at: "at m t c (Node l x r) x par" and hs: "hsub (ht m) (Node l x r)"
    and sm: "small (Node l x r)"
  obtains m' where "node_bfactor m x = Some (m', bal (Node l x r))" "at m' t c (Node l x r) x par"
    "ht m' = ht m" "relinked m t (ctx_nodes c \<union> set_tree (Node l x r)) m'"
proof (rule node_bfactor_at [OF at hsub_hloose [OF hs] sm])
  fix m'
  assume "node_bfactor m x = Some (m', bal (Node l x r))" "at m' t c (Node l x r) x par"
    "hsub (ht m) (Node l x r) \<Longrightarrow> ht m' = ht m" "relinked m t (set_tree l \<union> set_tree r) m'"
  with hs show ?thesis
    by (intro that [of m']) (auto intro: relinked_mono)
qed

lemma rebalance_left_heavy:
  assumes at: "at m t c (Node (Node a y b) x r) x par"
    and hs: "hsub (ht m) (Node (Node a y b) x r)" and sm: "small (Node (Node a y b) x r)"
    and b: "bal (Node (Node a y b) x r) < -1"
  shows "\<exists>m' z l' r'. node_rebalance m t x = Some m' \<and> rebal (Node (Node a y b) x r) = Node l' z r' \<and>
    at m' t c (Node l' z r') z par \<and> pa m' x = z \<and> ht m' = ht m \<and>
    relinked m t (ctx_nodes c \<union> set_tree (Node (Node a y b) x r)) m'"
proof -
  let ?A = "ctx_nodes c \<union> set_tree (Node (Node a y b) x r)"
  obtain m1 where m1: "node_bfactor m x = Some (m1, bal (Node (Node a y b) x r))"
    "at m1 t c (Node (Node a y b) x r) x par" "ht m1 = ht m" "relinked m t ?A m1"
    by (rule bfactor_exact [OF at hs sm])
  have y: "lf m1 x = y" "x \<noteq> NULL" "x \<in> tlive m1"
    using m1(2) by (auto simp: at_def)
  have at1: "at m1 t (InL c x r) (Node a y b) y x"
    using at_left [OF m1(2)] y by simp
  have hs1: "hsub (ht m1) (Node a y b)" "small (Node a y b)"
    using hs m1(3) small_Node [OF sm] by (simp_all add: hexact_hsub)
  obtain m2 where m2: "node_bfactor m1 y = Some (m2, bal (Node a y b))"
    "at m2 t (InL c x r) (Node a y b) y x" "ht m2 = ht m1"
    "relinked m1 t (ctx_nodes (InL c x r) \<union> set_tree (Node a y b)) m2"
    by (rule bfactor_exact [OF at1 hs1])
  have x2: "at m2 t c (Node (Node a y b) x r) x par"
    using at_InL [OF m2(2)] at_par_eq [OF m1(2)] by metis
  then have y2: "lf m2 x = y" "x \<in> tlive m2"
    by (auto simp: at_def)
  have r2: "relinked m t ?A m2"
    using relinked_trans [OF m1(4) relinked_mono [OF m2(4)]] by auto
  show ?thesis
  proof (cases "bal (Node a y b) > 0")
    case True
    then obtain b1 z b2 where bz: "b = Node b1 z b2"
      by (cases b) auto
    obtain m3 where m3: "rotate_left m2 t y = Some m3"
      "at m3 t (InL c x r) (Node (Node a y b1) z b2) z x" "ht m3 = ht m2"
      "relinked m2 t (ctx_nodes (InL c x r) \<union> set_tree (Node a y (Node b1 z b2))) m3"
      by (rule rotate_left_at [OF m2(2) [unfolded bz]])
    have x3: "at m3 t c (Node (Node (Node a y b1) z b2) x r) x par"
      using at_InL [OF m3(2)] at_par_eq [OF m1(2)] by metis
    obtain m4 where m4: "rotate_right m3 t x = Some m4"
      "at m4 t c (Node (Node a y b1) z (Node b2 x r)) z par" "ht m4 = ht m3"
      "relinked m3 t (ctx_nodes c \<union> set_tree (Node (Node (Node a y b1) z b2) x r)) m4"
      by (rule rotate_right_at [OF x3])
    have "node_rebalance m t x = Some m4"
      using b True m1(1) m2(1) m3(1) m4(1) y y2 by (simp add: node_rebalance_def tree_simps)
    moreover have "relinked m t ?A m4"
      using relinked_trans [OF r2 relinked_trans [OF relinked_mono [OF m3(4)] relinked_mono [OF m4(4)]]] bz
      by auto
    moreover have "pa m4 x = z"
      using m4(2) by (simp add: at_def)
    ultimately show ?thesis
      using b True bz m1(3) m2(3) m3(3) m4(2,3) by auto
  next
    case False
    obtain m3 where m3: "rotate_right m2 t x = Some m3" "at m3 t c (Node a y (Node b x r)) y par"
      "ht m3 = ht m2" "relinked m2 t ?A m3"
      by (rule rotate_right_at [OF x2])
    have "node_rebalance m t x = Some m3"
      using b False m1(1) m2(1) m3(1) y by (simp add: node_rebalance_def tree_simps)
    moreover have "pa m3 x = y"
      using m3(2) by (simp add: at_def)
    ultimately show ?thesis
      using b False m1(3) m2(3) m3 relinked_trans [OF r2 m3(4)] by auto
  qed
qed

lemma rebalance_right_heavy:
  assumes at: "at m t c (Node l x (Node b y d)) x par"
    and hs: "hsub (ht m) (Node l x (Node b y d))" and sm: "small (Node l x (Node b y d))"
    and b: "bal (Node l x (Node b y d)) > 1"
  shows "\<exists>m' z l' r'. node_rebalance m t x = Some m' \<and> rebal (Node l x (Node b y d)) = Node l' z r' \<and>
    at m' t c (Node l' z r') z par \<and> pa m' x = z \<and> ht m' = ht m \<and>
    relinked m t (ctx_nodes c \<union> set_tree (Node l x (Node b y d))) m'"
proof -
  let ?A = "ctx_nodes c \<union> set_tree (Node l x (Node b y d))"
  obtain m1 where m1: "node_bfactor m x = Some (m1, bal (Node l x (Node b y d)))"
    "at m1 t c (Node l x (Node b y d)) x par" "ht m1 = ht m" "relinked m t ?A m1"
    by (rule bfactor_exact [OF at hs sm])
  have y: "rt m1 x = y" "x \<noteq> NULL" "x \<in> tlive m1"
    using m1(2) by (auto simp: at_def)
  have at1: "at m1 t (InR l x c) (Node b y d) y x"
    using at_right [OF m1(2)] y by simp
  have hs1: "hsub (ht m1) (Node b y d)" "small (Node b y d)"
    using hs m1(3) small_Node [OF sm] by (simp_all add: hexact_hsub)
  obtain m2 where m2: "node_bfactor m1 y = Some (m2, bal (Node b y d))"
    "at m2 t (InR l x c) (Node b y d) y x" "ht m2 = ht m1"
    "relinked m1 t (ctx_nodes (InR l x c) \<union> set_tree (Node b y d)) m2"
    by (rule bfactor_exact [OF at1 hs1])
  have x2: "at m2 t c (Node l x (Node b y d)) x par"
    using at_InR [OF m2(2)] at_par_eq [OF m1(2)] by metis
  then have y2: "rt m2 x = y" "x \<in> tlive m2"
    by (auto simp: at_def)
  have r2: "relinked m t ?A m2"
    using relinked_trans [OF m1(4) relinked_mono [OF m2(4)]] by auto
  show ?thesis
  proof (cases "bal (Node b y d) < 0")
    case True
    then obtain b1 z b2 where bz: "b = Node b1 z b2"
      by (cases b) auto
    obtain m3 where m3: "rotate_right m2 t y = Some m3"
      "at m3 t (InR l x c) (Node b1 z (Node b2 y d)) z x" "ht m3 = ht m2"
      "relinked m2 t (ctx_nodes (InR l x c) \<union> set_tree (Node (Node b1 z b2) y d)) m3"
      by (rule rotate_right_at [OF m2(2) [unfolded bz]])
    have x3: "at m3 t c (Node l x (Node b1 z (Node b2 y d))) x par"
      using at_InR [OF m3(2)] at_par_eq [OF m1(2)] by metis
    obtain m4 where m4: "rotate_left m3 t x = Some m4"
      "at m4 t c (Node (Node l x b1) z (Node b2 y d)) z par" "ht m4 = ht m3"
      "relinked m3 t (ctx_nodes c \<union> set_tree (Node l x (Node b1 z (Node b2 y d)))) m4"
      by (rule rotate_left_at [OF x3])
    have "node_rebalance m t x = Some m4"
      using b True m1(1) m2(1) m3(1) m4(1) y y2 by (simp add: node_rebalance_def tree_simps)
    moreover have "relinked m t ?A m4"
      using relinked_trans [OF r2 relinked_trans [OF relinked_mono [OF m3(4)] relinked_mono [OF m4(4)]]] bz
      by auto
    moreover have "pa m4 x = z"
      using m4(2) by (simp add: at_def)
    ultimately show ?thesis
      using b True bz m1(3) m2(3) m3(3) m4(2,3) by auto
  next
    case False
    obtain m3 where m3: "rotate_left m2 t x = Some m3" "at m3 t c (Node (Node l x b) y d) y par"
      "ht m3 = ht m2" "relinked m2 t ?A m3"
      by (rule rotate_left_at [OF x2])
    have "node_rebalance m t x = Some m3"
      using b False m1(1) m2(1) m3(1) y by (simp add: node_rebalance_def tree_simps)
    moreover have "pa m3 x = y"
      using m3(2) by (simp add: at_def)
    ultimately show ?thesis
      using b False m1(3) m2(3) m3 relinked_trans [OF r2 m3(4)] by auto
  qed
qed

lemma node_rebalance_at:
  assumes at: "at m t c (Node l x r) x par" and hs: "hsub (ht m) (Node l x r)"
    and sm: "small (Node l x r)" and ub: "unbalanced (Node l x r)"
  obtains m' z l' r' where "node_rebalance m t x = Some m'" "rebal (Node l x r) = Node l' z r'"
    "at m' t c (Node l' z r') z par" "pa m' x = z" "ht m' = ht m"
    "relinked m t (ctx_nodes c \<union> set_tree (Node l x r)) m'"
proof (cases "bal (Node l x r) < -1")
  case True
  then obtain a y b where "l = Node a y b"
    by (cases l) auto
  then show ?thesis
    using rebalance_left_heavy [of m t c a y b x r par] at hs sm True that by blast
next
  case False
  then obtain b y d where "r = Node b y d"
    using ub by (cases r) auto
  then show ?thesis
    using rebalance_right_heavy [of m t c l x b y d par] at hs sm False ub that by blast
qed

section \<open>The loop towards the root\<close>

lemma size_rebal [simp]: "size (rebal t) = size t"
  by (metis inorder_rebal length_inorder)

lemma small_rebal: "small (plug c (rebal t)) = small (plug c t)"
  using length_inorder [of "plug c (rebal t)"] length_inorder [of "plug c t"]
  by (simp add: small_def)

lemma ctx_exact_ht:
  assumes "at m t c s p par" "ctx_exact (ht m) c" "\<forall>k. k \<notin> set_tree s \<longrightarrow> ht m' k = ht m k"
  shows "ctx_exact (ht m') c"
proof -
  have "ctx_nodes c \<inter> set_tree s = {}"
    using assms(1) distinct_plugD(2) by (auto simp: at_def)
  then show ?thesis
    using assms(2,3) ctx_exact_cong [of c "ht m'" "ht m"] by auto
qed

lemma set_tree_rebal [simp]: "set_tree (rebal t) = set_tree t"
  by (metis inorder_rebal set_inorder)

text \<open>One iteration at a balanced and at an unbalanced node.\<close>

lemma rebalance_up_bfactor:
  assumes at: "at m t c (Node l x r) x par" and hl: "hloose (ht m) (Node l x r)"
    and cx: "ctx_exact (ht m) c" and sm: "small (plug c (Node l x r))"
  obtains m1 where "node_bfactor m x = Some (m1, bal (Node l x r))" "at m1 t c (Node l x r) x par"
    "hsub (ht m1) (Node l x r)" "ctx_exact (ht m1) c" "relinked m t (set_tree (plug c (Node l x r))) m1"
proof (rule node_bfactor_at [OF at hl small_plug [OF sm]])
  fix m1
  assume m1: "node_bfactor m x = Some (m1, bal (Node l x r))" "at m1 t c (Node l x r) x par"
    "hsub (ht m1) (Node l x r)" "\<forall>k. k \<notin> set_tree l \<union> set_tree r \<longrightarrow> ht m1 k = ht m k"
    "relinked m t (set_tree l \<union> set_tree r) m1"
  have "ctx_exact (ht m1) c"
    using m1(4) by (intro ctx_exact_ht [OF at cx]) simp
  moreover have "relinked m t (set_tree (plug c (Node l x r))) m1"
    using m1(5) by (rule relinked_mono) auto
  ultimately show ?thesis
    using m1(1-3) that by blast
qed

lemma rebalance_up_balanced:
  assumes "at m t c (Node l x r) x par" "hloose (ht m) (Node l x r)" "ctx_exact (ht m) c"
    "small (plug c (Node l x r))" and b: "\<not> unbalanced (Node l x r)"
  obtains m1 where "rebalance_up m t x = rebalance_up m1 t par" "at m1 t c (Node l x r) x par"
    "hsub (ht m1) (Node l x r)" "ctx_exact (ht m1) c" "relinked m t (set_tree (plug c (Node l x r))) m1"
proof (rule rebalance_up_bfactor [OF assms(1-4)])
  fix m1
  assume m1: "node_bfactor m x = Some (m1, bal (Node l x r))" "at m1 t c (Node l x r) x par"
    "hsub (ht m1) (Node l x r)" "ctx_exact (ht m1) c" "relinked m t (set_tree (plug c (Node l x r))) m1"
  have x: "x \<noteq> NULL" "x \<in> tlive m1" "pa m1 x = par"
    using m1(2) by (auto simp: at_def)
  have "rebalance_up m t x = rebalance_up m1 t par"
    using x m1(1) b by (subst rebalance_up.simps) (simp add: tree_simps del: bal.simps)
  with m1 show ?thesis
    using that by blast
qed

lemma rebalance_up_unbalanced:
  assumes "at m t c (Node l x r) x par" "hloose (ht m) (Node l x r)" "ctx_exact (ht m) c"
    "small (plug c (Node l x r))" and ub: "unbalanced (Node l x r)"
  obtains m2 z l' r' where "rebalance_up m t x = rebalance_up m2 t z" "rebal (Node l x r) = Node l' z r'"
    "at m2 t c (Node l' z r') z par" "hloose (ht m2) (Node l' z r')" "ctx_exact (ht m2) c"
    "relinked m t (set_tree (plug c (Node l x r))) m2"
proof (rule rebalance_up_bfactor [OF assms(1-4)])
  fix m1
  assume m1: "node_bfactor m x = Some (m1, bal (Node l x r))" "at m1 t c (Node l x r) x par"
    "hsub (ht m1) (Node l x r)" "ctx_exact (ht m1) c" "relinked m t (set_tree (plug c (Node l x r))) m1"
  obtain m2 z l' r' where m2: "node_rebalance m1 t x = Some m2" "rebal (Node l x r) = Node l' z r'"
    "at m2 t c (Node l' z r') z par" "pa m2 x = z" "ht m2 = ht m1"
    "relinked m1 t (ctx_nodes c \<union> set_tree (Node l x r)) m2"
    by (rule node_rebalance_at [OF m1(2,3) small_plug [OF assms(4)] ub])
  have "tlive m2 = tlive m1"
    using m2(6) by (simp add: relinked_def)
  then have x: "x \<noteq> NULL" "x \<in> tlive m2"
    using m1(2) by (auto simp: at_def)
  have "rebalance_up m t x = rebalance_up m2 t z"
    using x m1(1) m2(1,4) ub by (subst rebalance_up.simps) (simp add: tree_simps del: bal.simps)
  moreover have "hloose (ht m2) (Node l' z r')"
    using hloose_rebal [OF m1(3) ub] m2(2,5) by simp
  moreover have "relinked m t (set_tree (plug c (Node l x r))) m2"
    using relinked_trans [OF m1(5)] m2(6) by simp
  ultimately show ?thesis
    using m1(4) m2(2,3,5) that by simp
qed

lemma rebalance_up_at:
  assumes "at m t c (Node l x r) x par" "hloose (ht m) (Node l x r)" "ctx_exact (ht m) c"
    "small (plug c (Node l x r))"
  shows "\<exists>m' p. rebalance_up m t x = Some m' \<and> at m' t Top (fix_up c (Node l x r)) p NULL \<and>
    hsub (ht m') (fix_up c (Node l x r)) \<and> relinked m t (set_tree (plug c (Node l x r))) m'"
  using assms
proof (induction c "Node l x r" arbitrary: m l x r par rule: fix_up.induct)
  case (1 c)
  let ?s = "Node l x r"
  show ?case
  proof (cases "unbalanced ?s")
    case True
    obtain m2 z l' r' where m2: "rebalance_up m t x = rebalance_up m2 t z" "rebal ?s = Node l' z r'"
      "at m2 t c (Node l' z r') z par" "hloose (ht m2) (Node l' z r')" "ctx_exact (ht m2) c"
      "relinked m t (set_tree (plug c ?s)) m2"
      by (rule rebalance_up_unbalanced [OF "1.prems" True])
    have sm: "small (plug c (Node l' z r'))"
      using "1.prems"(4) small_rebal [of c ?s] unfolding m2(2) by simp
    have eq: "set_tree (plug c (Node l' z r')) = set_tree (plug c ?s)"
      unfolding m2(2) [symmetric] set_tree_plug set_tree_rebal ..
    have fx: "fix_up c ?s = fix_up c (Node l' z r')"
      unfolding m2(2) [symmetric] by (simp only: fix_up.simps [of c ?s] if_P [OF True])
    from "1.hyps"(1) [OF True m2(2) m2(3-5) sm] show ?thesis
      unfolding m2(1) fx eq using relinked_trans [OF m2(6)] by blast
  next
    case False
    obtain m1 where m1: "rebalance_up m t x = rebalance_up m1 t par" "at m1 t c ?s x par"
      "hsub (ht m1) ?s" "ctx_exact (ht m1) c" "relinked m t (set_tree (plug c ?s)) m1"
      by (rule rebalance_up_balanced [OF "1.prems" False])
    show ?thesis
    proof (cases c)
      case Top
      have "par = NULL" "fix_up c ?s = ?s"
        using at_par [OF m1(2)] Top False by (simp_all add: fix_up.simps)
      then show ?thesis
        unfolding m1(1) using m1(2,3,5) Top by (auto simp: rebalance_up.simps)
    next
      case (InL c' y s)
      have up: "par = y" "at m1 t c' (Node ?s y s) y (pa m1 y)"
        using at_InL m1(2) InL by blast+
      have fx: "fix_up c ?s = fix_up c' (Node ?s y s)"
        unfolding InL by (simp only: fix_up.simps [of "InL c' y s" ?s] if_not_P [OF False] tctx.case)
      have h: "hloose (ht m1) (Node ?s y s)" "ctx_exact (ht m1) c'" "small (plug c' (Node ?s y s))"
        using m1(3,4) InL "1.prems"(4) by (simp_all add: hexact_hsub)
      have pl: "plug c ?s = plug c' (Node ?s y s)"
        by (simp add: InL)
      from "1.hyps"(2) [OF False InL up(2) h] show ?thesis
        unfolding m1(1) fx up(1) pl using relinked_trans [OF m1(5) [unfolded pl]] by blast
    next
      case (InR s y c')
      have up: "par = y" "at m1 t c' (Node s y ?s) y (pa m1 y)"
        using at_InR m1(2) InR by blast+
      have fx: "fix_up c ?s = fix_up c' (Node s y ?s)"
        unfolding InR by (simp only: fix_up.simps [of "InR s y c'" ?s] if_not_P [OF False] tctx.case)
      have h: "hloose (ht m1) (Node s y ?s)" "ctx_exact (ht m1) c'" "small (plug c' (Node s y ?s))"
        using m1(3,4) InR "1.prems"(4) by (simp_all add: hexact_hsub)
      have pl: "plug c ?s = plug c' (Node s y ?s)"
        by (simp add: InR)
      from "1.hyps"(3) [OF False InR up(2) h] show ?thesis
        unfolding m1(1) fx up(1) pl using relinked_trans [OF m1(5) [unfolded pl]] by blast
    qed
  qed
qed

section \<open>Moving a node down\<close>

lemma node_height_exact:
  assumes "trep (lf m) (rt m) (pa m) par p s" "hexact (ht m) s" "set_tree s \<subseteq> tlive m" "small s"
  obtains m' where "node_height m p = Some (m', of_nat (height s))" "lf m' = lf m" "rt m' = rt m"
    "pa m' = pa m" "ht m' = ht m" "trees m' = trees m" "relinked m t (set_tree s) m'"
proof (rule that [of "if s = Leaf then m else setn m p (tn_height_update (\<lambda>_. of_nat (height s)))"])
  show "node_height m p = Some (if s = Leaf then m else setn m p (tn_height_update (\<lambda>_. of_nat (height s))),
      of_nat (height s))"
    using assms by (intro node_height_rep) (auto intro: hexact_hsub)
  show "relinked m t (set_tree s)
      (if s = Leaf then m else setn m p (tn_height_update (\<lambda>_. of_nat (height s))))"
    using trep_root [OF assms(1)] by (auto intro!: relinked_setn)
qed (use assms(1,2) in \<open>cases s; auto simp: fun_eq_iff\<close>)+

text \<open>The test of the loop and the two heights it computes.\<close>

lemma rotate_down_heights:
  assumes at: "at m t c (Node l x r) x par" and hs: "hsub (ht m) (Node l x r)" and sm: "small (Node l x r)"
    and ne: "l \<noteq> Leaf \<or> r \<noteq> Leaf"
  obtains m2 where
    "rotate_down m t x = do {
       m \<leftarrow> (if l = Leaf then rotate_left m2 t x
            else if r = Leaf then rotate_right m2 t x
            else if height l \<le> height r then do { m \<leftarrow> rotate_right m2 t x; rotate_left m t x }
            else do { m \<leftarrow> rotate_left m2 t x; rotate_right m t x });
       rotate_down m t x }"
    "at m2 t c (Node l x r) x par" "ht m2 = ht m" "relinked m t (set_tree (plug c (Node l x r))) m2"
proof -
  note s = at_sub [OF at]
  have hx: "hexact (ht m) l" "hexact (ht m) r" and sml: "small l" "small r"
    using hs small_Node [OF sm] by auto
  obtain m1 where m1: "node_height m (lf m x) = Some (m1, of_nat (height l))" "lf m1 = lf m"
    "rt m1 = rt m" "pa m1 = pa m" "ht m1 = ht m" "trees m1 = trees m" "relinked m t (set_tree l) m1"
    by (rule node_height_exact [OF s(5) hx(1) s(7) sml(1)])
  have lv1: "tlive m1 = tlive m"
    using m1(7) by (simp add: relinked_def)
  have tr1: "trep (lf m1) (rt m1) (pa m1) x (rt m x) r" "hexact (ht m1) r" "set_tree r \<subseteq> tlive m1"
    using s(6,8) hx(2) m1 lv1 by simp_all
  obtain m2 where m2: "node_height m1 (rt m x) = Some (m2, of_nat (height r))" "lf m2 = lf m1"
    "rt m2 = rt m1" "pa m2 = pa m1" "ht m2 = ht m1" "trees m2 = trees m1" "relinked m1 t (set_tree r) m2"
    by (rule node_height_exact [OF tr1 sml(2)])
  have nul: "lf m x = NULL \<longleftrightarrow> l = Leaf" "rt m x = NULL \<longleftrightarrow> r = Leaf"
    using s(5,6) by (cases l; auto)(cases r; use s(6) in auto)
  have zero: "(of_nat (height l) :: u32) = 0 \<longleftrightarrow> l = Leaf" "(of_nat (height r) :: u32) = 0 \<longleftrightarrow> r = Leaf"
    "(of_nat (height l) :: u32) \<le> of_nat (height r) \<longleftrightarrow> height l \<le> height r"
    using of_nat_less_small [OF small_height [OF sml(1)] small_height [OF sml(2)]]
      of_nat_less_small(3) [OF small_height [OF sml(2)] small_height [OF sml(1)]]
    by (simp_all add: eq_height_0)
  have lv2: "tlive m2 = tlive m"
    using m2(7) lv1 by (simp add: relinked_def)
  have at2: "at m2 t c (Node l x r) x par"
    using m1 m2 lv2 by (intro at_same_links [OF at]) simp_all
  have "relinked m t (set_tree (plug c (Node l x r))) m2"
    by (rule relinked_trans [OF relinked_mono [OF m1(7)] relinked_mono [OF m2(7)]]) auto
  moreover have "rotate_down m t x = do {
       m \<leftarrow> (if l = Leaf then rotate_left m2 t x
            else if r = Leaf then rotate_right m2 t x
            else if height l \<le> height r then do { m \<leftarrow> rotate_right m2 t x; rotate_left m t x }
            else do { m \<leftarrow> rotate_left m2 t x; rotate_right m t x });
       rotate_down m t x }"
    using s(1,2) m1(1) m2(1) nul zero ne
    by (subst rotate_down.simps) (simp add: tree_simps cong: if_cong)
  ultimately show ?thesis
    using at2 m1(5) m2(5) by (intro that [of m2]) simp_all
qed

text \<open>One rotation that moves \<open>x\<close> below its right or its left child.\<close>

lemma rotate_left_below:
  assumes "at m t c (Node a x (Node b y d)) x par"
  obtains m' where "rotate_left m t x = Some m'" "at m' t (InL c y d) (Node a x b) x y" "ht m' = ht m"
    "relinked m t (set_tree (plug c (Node a x (Node b y d)))) m'"
proof (rule rotate_left_at [OF assms])
  fix m'
  assume m': "rotate_left m t x = Some m'" "at m' t c (Node (Node a x b) y d) y par" "ht m' = ht m"
    "relinked m t (ctx_nodes c \<union> set_tree (Node a x (Node b y d))) m'"
  have "at m' t (InL c y d) (Node a x b) x y"
    using at_left [OF m'(2)] at_root_ptr by metis
  then show ?thesis
    using m' that by simp
qed

lemma rotate_right_below:
  assumes "at m t c (Node (Node a y b) x d) x par"
  obtains m' where "rotate_right m t x = Some m'" "at m' t (InR a y c) (Node b x d) x y" "ht m' = ht m"
    "relinked m t (set_tree (plug c (Node (Node a y b) x d))) m'"
proof (rule rotate_right_at [OF assms])
  fix m'
  assume m': "rotate_right m t x = Some m'" "at m' t c (Node a y (Node b x d)) y par" "ht m' = ht m"
    "relinked m t (ctx_nodes c \<union> set_tree (Node (Node a y b) x d)) m'"
  have "at m' t (InR a y c) (Node b x d) x y"
    using at_right [OF m'(2)] at_root_ptr by metis
  then show ?thesis
    using m' that by simp
qed

lemma small_inorder: "inorder s = inorder s' \<Longrightarrow> small s = small s'"
  by (metis length_inorder small_def)

lemma rotate_down_at:
  assumes "at m t c (Node l x r) x par" "hsub (ht m) (Node l x r)" "ctx_exact (ht m) c"
    "small (plug c (Node l x r))"
  shows "\<exists>m' par'. rotate_down m t x = Some m' \<and> at m' t (sink c l x r) (Node Leaf x Leaf) x par' \<and>
    ctx_exact (ht m') (sink c l x r) \<and> relinked m t (set_tree (plug c (Node l x r))) m'"
  using assms
proof (induction c l x r arbitrary: m par rule: sink.induct)
  case (1 c x)
  have "rotate_down m t x = Some m"
    using at_sub [OF "1.prems"(1)] by (subst rotate_down.simps) (simp add: tree_simps)
  with 1 show ?case
    by auto
next
  case (2 c x b y d)
  obtain m2 where m2: "rotate_down m t x = do { m \<leftarrow> rotate_left m2 t x; rotate_down m t x }"
    "at m2 t c (Node Leaf x (Node b y d)) x par" "ht m2 = ht m"
    "relinked m t (set_tree (plug c (Node Leaf x (Node b y d)))) m2"
    by (rule rotate_down_heights [OF "2.prems"(1,2) small_plug [OF "2.prems"(4)]]) auto
  obtain m3 where m3: "rotate_left m2 t x = Some m3" "at m3 t (InL c y d) (Node Leaf x b) x y"
    "ht m3 = ht m2" "relinked m2 t (set_tree (plug c (Node Leaf x (Node b y d)))) m3"
    by (rule rotate_left_below [OF m2(2)])
  have h: "hsub (ht m3) (Node Leaf x b)" "ctx_exact (ht m3) (InL c y d)"
    "small (plug (InL c y d) (Node Leaf x b))"
    using "2.prems"(2-4) m2(3) m3(3) small_inorder [of "plug c (Node Leaf x (Node b y d))"] by auto
  have "set_tree (plug (InL c y d) (Node Leaf x b)) = set_tree (plug c (Node Leaf x (Node b y d)))"
    by auto
  with "2.IH" [OF m3(2) h] m2(1) m3(1) relinked_trans [OF relinked_trans [OF m2(4) m3(4)]]
  show ?case
    by fastforce
next
  case (3 c a y b x)
  obtain m2 where m2: "rotate_down m t x = do { m \<leftarrow> rotate_right m2 t x; rotate_down m t x }"
    "at m2 t c (Node (Node a y b) x Leaf) x par" "ht m2 = ht m"
    "relinked m t (set_tree (plug c (Node (Node a y b) x Leaf))) m2"
    by (rule rotate_down_heights [OF "3.prems"(1,2) small_plug [OF "3.prems"(4)]]) auto
  obtain m3 where m3: "rotate_right m2 t x = Some m3" "at m3 t (InR a y c) (Node b x Leaf) x y"
    "ht m3 = ht m2" "relinked m2 t (set_tree (plug c (Node (Node a y b) x Leaf))) m3"
    by (rule rotate_right_below [OF m2(2)])
  have h: "hsub (ht m3) (Node b x Leaf)" "ctx_exact (ht m3) (InR a y c)"
    "small (plug (InR a y c) (Node b x Leaf))"
    using "3.prems"(2-4) m2(3) m3(3) small_inorder [of "plug c (Node (Node a y b) x Leaf)"] by auto
  have "set_tree (plug (InR a y c) (Node b x Leaf)) = set_tree (plug c (Node (Node a y b) x Leaf))"
    by auto
  with "3.IH" [OF m3(2) h] m2(1) m3(1) relinked_trans [OF relinked_trans [OF m2(4) m3(4)]]
  show ?case
    by fastforce
next
  case (4 c a y b x b' z d)
  let ?s = "Node (Node a y b) x (Node b' z d)"
  note hs = "4.prems"(2) and cx = "4.prems"(3)
  obtain m2 where m2: "rotate_down m t x = do {
       m \<leftarrow> (if height (Node a y b) \<le> height (Node b' z d)
            then do { m \<leftarrow> rotate_right m2 t x; rotate_left m t x }
            else do { m \<leftarrow> rotate_left m2 t x; rotate_right m t x });
       rotate_down m t x }"
    "at m2 t c ?s x par" "ht m2 = ht m" "relinked m t (set_tree (plug c ?s)) m2"
    by (rule rotate_down_heights [OF "4.prems"(1,2) small_plug [OF "4.prems"(4)]]) (auto simp del: height_tree.simps)
  show ?case
  proof (cases "height (Node a y b) \<le> height (Node b' z d)")
    case True
    obtain m3 where m3: "rotate_right m2 t x = Some m3" "at m3 t (InR a y c) (Node b x (Node b' z d)) x y"
      "ht m3 = ht m2" "relinked m2 t (set_tree (plug c ?s)) m3"
      by (rule rotate_right_below [OF m2(2)])
    obtain m4 where m4: "rotate_left m3 t x = Some m4" "at m4 t (InL (InR a y c) z d) (Node b x b') x z"
      "ht m4 = ht m3" "relinked m3 t (set_tree (plug (InR a y c) (Node b x (Node b' z d)))) m4"
      by (rule rotate_left_below [OF m3(2)])
    have h: "hsub (ht m4) (Node b x b')" "ctx_exact (ht m4) (InL (InR a y c) z d)"
      "small (plug (InL (InR a y c) z d) (Node b x b'))"
      using hs cx "4.prems"(4) m2(3) m3(3) m4(3) small_inorder [of "plug c ?s"] by auto
    have st: "set_tree (plug (InL (InR a y c) z d) (Node b x b')) = set_tree (plug c ?s)"
      "set_tree (plug (InR a y c) (Node b x (Node b' z d))) = set_tree (plug c ?s)"
      by auto
    have "rotate_down m t x = rotate_down m4 t x"
      unfolding m2(1) if_P [OF True] using m3(1) m4(1) by simp
    with "4.IH"(1) [OF True m4(2) h] st True m4(4)
      relinked_trans [OF relinked_trans [OF relinked_trans [OF m2(4) m3(4)]]]
    show ?thesis
      unfolding sink.simps if_P [OF True] by metis
  next
    case False
    obtain m3 where m3: "rotate_left m2 t x = Some m3" "at m3 t (InL c z d) (Node (Node a y b) x b') x z"
      "ht m3 = ht m2" "relinked m2 t (set_tree (plug c ?s)) m3"
      by (rule rotate_left_below [OF m2(2)])
    obtain m4 where m4: "rotate_right m3 t x = Some m4" "at m4 t (InR a y (InL c z d)) (Node b x b') x y"
      "ht m4 = ht m3" "relinked m3 t (set_tree (plug (InL c z d) (Node (Node a y b) x b'))) m4"
      by (rule rotate_right_below [OF m3(2)])
    have h: "hsub (ht m4) (Node b x b')" "ctx_exact (ht m4) (InR a y (InL c z d))"
      "small (plug (InR a y (InL c z d)) (Node b x b'))"
      using hs cx "4.prems"(4) m2(3) m3(3) m4(3) small_inorder [of "plug c ?s"] by auto
    have st: "set_tree (plug (InR a y (InL c z d)) (Node b x b')) = set_tree (plug c ?s)"
      "set_tree (plug (InL c z d) (Node (Node a y b) x b')) = set_tree (plug c ?s)"
      by auto
    have "rotate_down m t x = rotate_down m4 t x"
      unfolding m2(1) if_not_P [OF False] using m3(1) m4(1) by simp
    with "4.IH"(2) [OF False m4(2) h] st False m4(4)
      relinked_trans [OF relinked_trans [OF relinked_trans [OF m2(4) m3(4)]]]
    show ?thesis
      unfolding sink.simps if_not_P [OF False] by metis
  qed
qed

section \<open>Removing a node\<close>

lemma unlink_node_at:
  assumes at: "at m t c (Node Leaf x Leaf) x par"
  obtains m' where "unlink_node m t x = Some m'" "at m' t c Leaf NULL par" "pa m' x = par"
    "lf m' x = NULL" "rt m' x = NULL" "ht m' = ht m" "relinked m t (ctx_nodes c) m'"
proof -
  note s = at_sub [OF at]
  have leaf: "lf m x = NULL" "rt m x = NULL"
    using s(5,6) by simp_all
  have dist: "distinct (ctx_before c @ x # ctx_after c)"
    and cr: "crep (lf m) (rt m) (pa m) (tr_root (meta m t)) c x par" and lv: "ctx_nodes c \<subseteq> tlive m"
    using at by (auto simp: at_def)
  show ?thesis
  proof (cases c)
    case Top
    let ?m' = "setm m t (tr_root_update (\<lambda>_. NULL))"
    have exec: "unlink_node m t x = Some ?m'" and at': "at ?m' t c Leaf NULL par"
      using Top s(1-4) cr by (simp_all add: unlink_node_def tree_simps at_def valid_def)
    show ?thesis
      using s(3) leaf by (intro that [OF exec at']) (simp_all add: relinked_root)
  next
    case (InL c' z r)
    let ?m' = "setn m z (tn_left_update (\<lambda>_. NULL))"
    have z: "par = z" "z \<noteq> NULL" "z \<in> tlive m" "lf m z = x"
      using cr lv InL by simp_all
    have out: "z \<noteq> x" "z \<notin> set_tree r" "z \<notin> ctx_nodes c'"
      using dist InL by (auto simp: ctx_nodes_sets)
    have "trep (lf ?m') (rt ?m') (pa ?m') z (rt m z) r"
      by (rule trep_transfer [of "lf m" "rt m" "pa m"]) (use cr InL out in auto)
    moreover have "crep (lf ?m') (rt ?m') (pa ?m') (tr_root (meta m t)) c' z (pa m z)"
      by (rule crep_transfer [of "lf m" "rt m" "pa m"]) (use cr InL out in auto)
    ultimately have at': "at ?m' t c Leaf NULL par"
      using InL z s(4) lv dist by (simp add: at_def)
    have exec: "unlink_node m t x = Some ?m'"
      using z s(1-3) by (simp add: unlink_node_def tree_simps)
    have "relinked m t (ctx_nodes c) ?m'"
      using InL by (intro relinked_setn) simp_all
    then show ?thesis
      using z out s(3) leaf by (intro that [OF exec at']) simp_all
  next
    case (InR l z c')
    let ?m' = "setn m z (tn_right_update (\<lambda>_. NULL))"
    have z: "par = z" "z \<noteq> NULL" "z \<in> tlive m" "rt m z = x"
      and tl: "trep (lf m) (rt m) (pa m) z (lf m z) l"
      using cr lv InR by simp_all
    have out: "z \<noteq> x" "z \<notin> set_tree l" "z \<notin> ctx_nodes c'" "x \<notin> set_tree l"
      using dist InR by (auto simp: ctx_nodes_sets)
    have "lf m z \<noteq> x"
      using trep_root [OF tl] tl out(4) s(1) by (cases l) auto
    then have exec: "unlink_node m t x = Some ?m'"
      using z s(1-3) by (simp add: unlink_node_def tree_simps)
    have "trep (lf ?m') (rt ?m') (pa ?m') z (lf m z) l"
      using tl out by (intro trep_transfer [OF tl]) auto
    moreover have "crep (lf ?m') (rt ?m') (pa ?m') (tr_root (meta m t)) c' z (pa m z)"
      by (rule crep_transfer [of "lf m" "rt m" "pa m"]) (use cr InR out in auto)
    ultimately have at': "at ?m' t c Leaf NULL par"
      using InR z s(4) lv dist by (simp add: at_def)
    have "relinked m t (ctx_nodes c) ?m'"
      using InR by (intro relinked_setn) simp_all
    then show ?thesis
      using z out s(3) leaf by (intro that [OF exec at']) simp_all
  qed
qed

text \<open>The loop towards the root, started at the unlinked node.\<close>

lemma rebalance_up_unlinked:
  assumes at: "at m t c Leaf NULL par" and x: "x \<noteq> NULL" "x \<in> tlive m" "pa m x = par" "lf m x = NULL" "rt m x = NULL"
    and cx: "ctx_exact (ht m) c" and sm: "small (plug c Leaf)"
  obtains m' p where "rebalance_up m t x = Some m'" "at m' t Top (remove_at c) p NULL"
    "hsub (ht m') (remove_at c)" "relinked m t (ctx_nodes c) m'"
proof -
  have step: "rebalance_up m t x = rebalance_up m t par"
    using x by (subst rebalance_up.simps) (simp add: node_bfactor_def node_height_def tree_simps)
  show ?thesis
  proof (cases c)
    case Top
    moreover have "par = NULL"
      using at_par [OF at] Top by simp
    ultimately show ?thesis
      using that [of m NULL] step at by (simp add: remove_at_def rebalance_up.simps)
  next
    case (InL c' z r)
    have up: "par = z" "at m t c' (Node Leaf z r) z (pa m z)"
      using at_InL at InL by blast+
    have h: "hloose (ht m) (Node Leaf z r)" "ctx_exact (ht m) c'" "small (plug c' (Node Leaf z r))"
      using cx sm InL by (simp_all add: hexact_hsub)
    show ?thesis
      using rebalance_up_at [OF up(2) h] that step up(1) InL by (auto simp: remove_at_def Un_commute)
  next
    case (InR l z c')
    have up: "par = z" "at m t c' (Node l z Leaf) z (pa m z)"
      using at_InR at InR by blast+
    have h: "hloose (ht m) (Node l z Leaf)" "ctx_exact (ht m) c'" "small (plug c' (Node l z Leaf))"
      using cx sm InR by (simp_all add: hexact_hsub)
    show ?thesis
      using rebalance_up_at [OF up(2) h] that step up(1) InR by (auto simp: remove_at_def Un_commute)
  qed
qed

lemma at_setm_len:
  "at m t c s p par \<Longrightarrow> at (setm m t (\<lambda>x. x\<lparr>tr_len := f x\<rparr>)) t c s p par"
  by (simp add: at_def valid_def)

lemma ctx_nodes_sink: "ctx_nodes (sink c l x r) = ctx_nodes c \<union> set_tree l \<union> set_tree r"
  using inorder_sink [of c l x r] by (auto simp: ctx_nodes_sets)

lemma remove_node_at:
  assumes at: "at m t c (Node l x r) x par" and hs: "hsub (ht m) (Node l x r)"
    and cx: "ctx_exact (ht m) c" and sm: "small (plug c (Node l x r))"
  obtains m' p where "remove_node m t x = Some m'" "at m' t Top (remove_at (sink c l x r)) p NULL"
    "hsub (ht m') (remove_at (sink c l x r))" "tlive m' = tlive m - {x}" "datum m' = datum m"
    "tr_len (meta m' t) = tr_len (meta m t) - 1" "tr_cmp (meta m' t) = tr_cmp (meta m t)"
    "titers m' = titers m" "live (trees m') = live (trees m)"
proof -
  let ?c = "sink c l x r" and ?A = "set_tree (plug c (Node l x r))"
  define m0 where "m0 = setm m t (\<lambda>x. x\<lparr>tr_len := tr_len x - 1\<rparr>)"
  have at0: "at m0 t c (Node l x r) x par" "hsub (ht m0) (Node l x r)" "ctx_exact (ht m0) c"
    using at hs cx by (simp_all add: m0_def at_setm_len)
  obtain m1 par1 where m1: "rotate_down m0 t x = Some m1" "at m1 t ?c (Node Leaf x Leaf) x par1"
    "ctx_exact (ht m1) ?c" "relinked m0 t ?A m1"
    using rotate_down_at [OF at0 sm] by blast
  obtain m2 where m2: "unlink_node m1 t x = Some m2" "at m2 t ?c Leaf NULL par1" "pa m2 x = par1"
    "lf m2 x = NULL" "rt m2 x = NULL" "ht m2 = ht m1" "relinked m1 t (ctx_nodes ?c) m2"
    by (rule unlink_node_at [OF m1(2)])
  have sz: "size (plug ?c Leaf) \<le> size (plug c (Node l x r))"
    using length_inorder [of "plug ?c Leaf"] length_inorder [of "plug c (Node l x r)"]
    by (simp add: inorder_sink)
  have x2: "x \<noteq> NULL" "x \<in> tlive m2" "ctx_exact (ht m2) ?c" "small (plug ?c Leaf)"
    using at m1(3,4) m2(6,7) sm sz by (auto simp: at_def relinked_def small_def m0_def)
  obtain m3 p where m3: "rebalance_up m2 t x = Some m3" "at m3 t Top (remove_at ?c) p NULL"
    "hsub (ht m3) (remove_at ?c)" "relinked m2 t (ctx_nodes ?c) m3"
    by (rule rebalance_up_unlinked [OF m2(2) x2(1,2) m2(3-5) x2(3,4)])
  have rl: "relinked m0 t ?A m3"
    using relinked_trans [OF m1(4) relinked_trans [OF relinked_mono [OF m2(7)] relinked_mono [OF m3(4)]]]
    by (auto simp: ctx_nodes_sink)
  define m4 where "m4 = m3\<lparr>tnodes := (tnodes m3)\<lparr>live := tlive m3 - {x}\<rparr>\<rparr>"
  have f4: "lf m4 = lf m3" "rt m4 = rt m3" "pa m4 = pa m3" "ht m4 = ht m3" "datum m4 = datum m3" "trees m4 = trees m3"
    by (simp_all add: m4_def fun_eq_iff lf_def rt_def pa_def ht_def datum_def nd_def)
  have "x \<in> tlive m3"
    using x2(2) m3(4) by (simp add: relinked_def)
  then have exec: "remove_node m t x = Some m4"
    using at m1(1) m2(1) m3(1) x2(1)
    by (simp add: remove_node_def at_def tree_simps m0_def m4_def tnode_free_def free_def)
  have "x \<notin> set_tree (remove_at ?c)"
  proof -
    have "distinct (inorder (plug c (Node l x r)))"
      using at by (simp add: at_def)
    then show ?thesis
      using set_inorder [of "remove_at ?c"] by (auto simp: inorder_remove_at inorder_sink)
  qed
  then have "at m4 t Top (remove_at ?c) p NULL"
    using m3(2) unfolding at_def f4 by (auto simp: m4_def)
  then show ?thesis
    using exec m3(3) rl f4 by (intro that [of m4 p]) (auto simp: m4_def relinked_def m0_def)
qed

end
