(* ===== verification/Forge_Tree_Map.thy ===== *)
theory Forge_Tree_Map
  imports Forge_Tree_Balance
begin

text \<open>
  The tree of \<open>src/src/kernel/tree.c\<close> as a finite map. \<open>tree_inv m t T\<close> is the invariant between two
  operations: the heap holds the tree \<open>T\<close>, its keys are in order, the stored heights are right and
  \<open>len\<close> is its size. \<open>contents\<close> lists its keys and values in order. The laws a comparison function
  has to satisfy are the locale \<open>comparer\<close>; the operations are specified once inside it.
\<close>

section \<open>Comparison functions\<close>

locale comparer =
  fixes cmp :: "ptr \<Rightarrow> ptr \<Rightarrow> int"
  assumes cmp_refl: "cmp a a = 0"
    and cmp_swap: "cmp a b < 0 \<longleftrightarrow> cmp b a > 0"
    and cmp_trans: "cmp a b \<le> 0 \<Longrightarrow> cmp b c \<le> 0 \<Longrightarrow> cmp a c \<le> 0"
begin

lemma cmp_eq_swap: "cmp a b = 0 \<longleftrightarrow> cmp b a = 0"
  using cmp_swap [of a b] cmp_swap [of b a] by linarith

lemma cmp_le_less: "cmp a b \<le> 0 \<Longrightarrow> cmp b c < 0 \<Longrightarrow> cmp a c < 0"
  using cmp_trans [of c a b] cmp_swap [of a c] cmp_swap [of b c] cmp_eq_swap [of a c] cmp_trans [of a b c]
  by (meson leD leI le_less not_less_iff_gr_or_eq)

lemma cmp_less_le: "cmp a b < 0 \<Longrightarrow> cmp b c \<le> 0 \<Longrightarrow> cmp a c < 0"
  using cmp_trans [of b c a] cmp_swap [of a c] cmp_swap [of a b] cmp_eq_swap [of a c] cmp_trans [of a b c]
  by (meson leD leI le_less not_less_iff_gr_or_eq)

lemma cmp_eq_trans: "cmp a b = 0 \<Longrightarrow> cmp b c = 0 \<Longrightarrow> cmp a c = 0"
  using cmp_trans [of a b c] cmp_trans [of c b a] cmp_eq_swap cmp_swap
  by (metis leD le_less order_refl)

end

interpretation default_cmp: comparer default_comparer
  by unfold_locales (auto simp: default_comparer_def split: if_splits)

section \<open>Invariant and contents\<close>

definition nkey :: "tmem \<Rightarrow> ptr \<Rightarrow> ptr" where
  "nkey m n = tn_key (nd m n)"

definition nval :: "tmem \<Rightarrow> ptr \<Rightarrow> ptr" where
  "nval m n = tn_val (nd m n)"

definition keys_sorted :: "tmem \<Rightarrow> (ptr \<Rightarrow> ptr \<Rightarrow> int) \<Rightarrow> ptr list \<Rightarrow> bool" where
  "keys_sorted m cmp ns \<longleftrightarrow> sorted_wrt (\<lambda>a b. cmp (nkey m a) (nkey m b) < 0) ns"

definition tree_inv :: "tmem \<Rightarrow> ptr \<Rightarrow> ptr tree \<Rightarrow> bool" where
  "tree_inv m t T \<longleftrightarrow>
     (\<exists>p. at m t Top T p NULL) \<and> hsub (ht m) T \<and> small T \<and>
     keys_sorted m (tr_cmp (meta m t)) (inorder T) \<and> tr_len (meta m t) = of_nat (size T)"

definition contents :: "tmem \<Rightarrow> ptr tree \<Rightarrow> (ptr \<times> ptr) list" where
  "contents m T = map (\<lambda>n. (nkey m n, nval m n)) (inorder T)"

fun lookup_by :: "(ptr \<Rightarrow> ptr \<Rightarrow> int) \<Rightarrow> (ptr \<times> ptr) list \<Rightarrow> ptr \<Rightarrow> ptr option" where
  "lookup_by cmp [] k = None"
| "lookup_by cmp ((a, v) # al) k = (if cmp k a = 0 then Some v else lookup_by cmp al k)"

lemma lookup_by_append:
  "lookup_by cmp (xs @ ys) k = (case lookup_by cmp xs k of None \<Rightarrow> lookup_by cmp ys k | Some v \<Rightarrow> Some v)"
  by (induction xs) (auto split: if_splits)

lemma lookup_by_None: "lookup_by cmp al k = None \<longleftrightarrow> (\<forall>(a, v) \<in> set al. cmp k a \<noteq> 0)"
  by (induction cmp al k rule: lookup_by.induct) auto

lemma at_unplug:
  assumes "at m t Top (plug c s) p NULL"
  obtains p' par' where "at m t c s p' par'"
proof -
  obtain p' par' where "crep (lf m) (rt m) (pa m) (tr_root (meta m t)) c p' par'"
      "trep (lf m) (rt m) (pa m) par' p' s"
    using assms plug_rep [of "lf m" "rt m" "pa m" "tr_root (meta m t)" c s] by (auto simp: at_def)
  with assms show ?thesis
    by (intro that [of p' par']) (auto simp: at_def)
qed

lemma descend_exact:
  "hsub H s \<Longrightarrow> ctx_exact H c \<Longrightarrow>
   ctx_exact H (fst (descend f c s)) \<and> hsub H (snd (descend f c s))"
  by (induction f c s rule: descend.induct) (auto intro: hexact_hsub)

section \<open>Search\<close>

lemma search_loop_rep:
  assumes "trep (lf m) (rt m) (pa m) par p s" "set_tree s \<subseteq> tlive m"
  shows "search_loop m cmp k p =
    Some (case snd (descend (\<lambda>n. cmp k (nkey m n)) c s) of Leaf \<Rightarrow> NULL | Node l x r \<Rightarrow> x)"
  using assms
proof (induction s arbitrary: p par c)
  case Leaf
  then show ?case
    by (simp add: search_loop.simps)
next
  case (Node l x r)
  then have x: "p = x" "x \<noteq> NULL" "x \<in> tlive m" "set_tree l \<subseteq> tlive m" "set_tree r \<subseteq> tlive m"
    "trep (lf m) (rt m) (pa m) x (lf m x) l" "trep (lf m) (rt m) (pa m) x (rt m x) r"
    by auto
  have key: "rd m x tn_key = Some (nkey m x)"
    using x by (simp add: tree_simps nkey_def)
  show ?case
    using x key Node.IH(1) [OF x(6,4), of "InL c x r"] Node.IH(2) [OF x(7,5), of "InR l x c"]
    by (subst search_loop.simps) (simp add: tree_simps Let_def)
qed

context comparer
begin

lemma sorted_ordered_by:
  assumes "keys_sorted m cmp ns"
  shows "ordered_by (\<lambda>n. cmp k (nkey m n)) ns"
  using assms unfolding keys_sorted_def ordered_by_def
  by (rule sorted_wrt_mono_rel [rotated]) (use cmp_le_less leI in blast)

lemma lookup_nodes:
  assumes "keys_sorted m cmp ns" "n \<in> set ns" "cmp k (nkey m n) = 0"
  shows "lookup_by cmp (map (\<lambda>n. (nkey m n, nval m n)) ns) k = Some (nval m n)"
  using assms
proof (induction ns)
  case (Cons a ns)
  show ?case
  proof (cases "a = n")
    case False
    then have "cmp (nkey m a) (nkey m n) < 0"
      using Cons.prems by (simp add: keys_sorted_def)
    then have "cmp k (nkey m a) \<noteq> 0"
      using Cons.prems(3) cmp_le_less [of k "nkey m a" "nkey m n"] by auto
    with False Cons show ?thesis
      by (simp add: keys_sorted_def)
  qed (use Cons.prems in simp)
qed simp

lemma lookup_contents:
  assumes "keys_sorted m cmp (inorder T)"
  shows "lookup_by cmp (contents m T) k =
    (case snd (descend (\<lambda>n. cmp k (nkey m n)) c T) of Leaf \<Rightarrow> None | Node l x r \<Rightarrow> Some (nval m x))"
proof (cases "\<exists>x \<in> set_tree T. cmp k (nkey m x) = 0")
  case True
  then obtain x where x: "x \<in> set_tree T" "cmp k (nkey m x) = 0"
    by blast
  then obtain l r where "snd (descend (\<lambda>n. cmp k (nkey m n)) c T) = Node l x r"
    using descend_found [OF sorted_ordered_by [OF assms]] by blast
  with x assms show ?thesis
    by (simp add: contents_def lookup_nodes)
next
  case False
  then have "snd (descend (\<lambda>n. cmp k (nkey m n)) c T) = Leaf"
    by (intro descend_absent) auto
  moreover have "lookup_by cmp (contents m T) k = None"
    using False by (auto simp: lookup_by_None contents_def)
  ultimately show ?thesis
    by simp
qed

lemma tree_search_spec:
  assumes inv: "tree_inv m t T" and cmp: "tr_cmp (meta m t) = cmp"
  shows "tree_search m t k =
    Some (case lookup_by cmp (contents m T) k of None \<Rightarrow> TREE_NOTFOUND | Some v \<Rightarrow> v)"
proof -
  obtain p where at: "at m t Top T p NULL"
    using inv by (auto simp: tree_inv_def)
  then have v: "valid (trees m) t" "t \<noteq> NULL" and root: "tr_root (meta m t) = p"
    and rep: "trep (lf m) (rt m) (pa m) NULL p T" "set_tree T \<subseteq> tlive m"
    by (auto simp: at_def)
  have len: "tr_len (meta m t) = 0 \<longleftrightarrow> T = Leaf"
    using inv of_nat_less_small(3) [of "size T" "size T"] by (auto simp: tree_inv_def small_def eq_size_0)
  have look: "lookup_by cmp (contents m T) k = (case snd (descend (\<lambda>n. cmp k (nkey m n)) Top T) of
      Leaf \<Rightarrow> None | Node l x r \<Rightarrow> Some (nval m x))"
    using inv cmp by (intro lookup_contents) (simp add: tree_inv_def)
  show ?thesis
  proof (cases "snd (descend (\<lambda>n. cmp k (nkey m n)) Top T)")
    case Leaf
    with v len look search_loop_rep [OF rep, of cmp k Top] show ?thesis
      by (simp add: tree_search_def load_def root cmp)
  next
    case (Node l x r)
    then have "x \<in> set_tree T" "T \<noteq> Leaf"
      using plug_descend [of "\<lambda>n. cmp k (nkey m n)" Top T] by auto
        (metis Un_iff insertI1 plug.simps(1) set_tree_plug tree.set_intros(2))
    moreover from this have "x \<noteq> NULL" "x \<in> tlive m"
      using rep trep_nonnull by blast+
    ultimately show ?thesis
      using Node v len look search_loop_rep [OF rep, of cmp k Top]
      by (simp add: tree_search_def load_def root cmp tree_simps nval_def)
  qed
qed

end

section \<open>Insertion\<close>

text \<open>\<open>blank m n\<close>: the node \<open>n\<close> is allocated and has no children, as after \<open>memset\<close>.\<close>

definition blank :: "tmem \<Rightarrow> ptr \<Rightarrow> bool" where
  "blank m n \<longleftrightarrow> n \<noteq> NULL \<and> n \<in> tlive m \<and> lf m n = NULL \<and> rt m n = NULL"

lemma link_left:
  assumes at: "at m t (InL c z r) Leaf p par" and n: "blank m n" "n \<notin> ctx_nodes (InL c z r)"
  defines "m' \<equiv> setn (setn m z (tn_left_update (\<lambda>_. n))) n (tn_parent_update (\<lambda>_. z))"
  shows "at m' t (InL c z r) (Node Leaf n Leaf) n z" "ht m' = ht m"
    "relinked m t (insert n (ctx_nodes (InL c z r))) m'"
proof -
  have z: "z \<noteq> NULL" "z \<in> tlive m" "z \<noteq> n"
    and dist: "distinct (ctx_before c @ z # inorder r @ ctx_after c)"
    and tr: "trep (lf m) (rt m) (pa m) z (rt m z) r"
    and cr: "crep (lf m) (rt m) (pa m) (tr_root (meta m t)) c z (pa m z)"
    using at n by (auto simp: at_def)
  have out: "z \<notin> set_tree r" "z \<notin> ctx_nodes c" "n \<notin> set_tree r" "n \<notin> ctx_nodes c"
    using dist n(2) by (auto simp: ctx_nodes_sets)
  have "trep (lf m') (rt m') (pa m') z (rt m z) r"
    by (rule trep_transfer [OF tr]) (use out in \<open>auto simp: m'_def\<close>)
  moreover have "crep (lf m') (rt m') (pa m') (tr_root (meta m t)) c z (pa m z)"
    by (rule crep_transfer [OF cr]) (use out in \<open>auto simp: m'_def\<close>)
  ultimately show "at m' t (InL c z r) (Node Leaf n Leaf) n z"
    using at n z by (auto simp: at_def m'_def blank_def ctx_nodes_sets)
  show "ht m' = ht m"
    by (simp add: m'_def)
  show "relinked m t (insert n (ctx_nodes (InL c z r))) m'"
    unfolding m'_def by (rule relinked_trans; rule relinked_setn) simp_all
qed

lemma link_right:
  assumes at: "at m t (InR l z c) Leaf p par" and n: "blank m n" "n \<notin> ctx_nodes (InR l z c)"
  defines "m' \<equiv> setn (setn m z (tn_right_update (\<lambda>_. n))) n (tn_parent_update (\<lambda>_. z))"
  shows "at m' t (InR l z c) (Node Leaf n Leaf) n z" "ht m' = ht m"
    "relinked m t (insert n (ctx_nodes (InR l z c))) m'"
proof -
  have z: "z \<noteq> NULL" "z \<in> tlive m" "z \<noteq> n"
    and dist: "distinct (ctx_before c @ inorder l @ z # ctx_after c)"
    and tr: "trep (lf m) (rt m) (pa m) z (lf m z) l"
    and cr: "crep (lf m) (rt m) (pa m) (tr_root (meta m t)) c z (pa m z)"
    using at n by (auto simp: at_def)
  have out: "z \<notin> set_tree l" "z \<notin> ctx_nodes c" "n \<notin> set_tree l" "n \<notin> ctx_nodes c"
    using dist n(2) by (auto simp: ctx_nodes_sets)
  have "trep (lf m') (rt m') (pa m') z (lf m z) l"
    by (rule trep_transfer [OF tr]) (use out in \<open>auto simp: m'_def\<close>)
  moreover have "crep (lf m') (rt m') (pa m') (tr_root (meta m t)) c z (pa m z)"
    by (rule crep_transfer [OF cr]) (use out in \<open>auto simp: m'_def\<close>)
  ultimately show "at m' t (InR l z c) (Node Leaf n Leaf) n z"
    using at n z by (auto simp: at_def m'_def blank_def ctx_nodes_sets)
  show "ht m' = ht m"
    by (simp add: m'_def)
  show "relinked m t (insert n (ctx_nodes (InR l z c))) m'"
    unfolding m'_def by (rule relinked_trans; rule relinked_setn) simp_all
qed

lemma insert_loop_at:
  assumes "at m t c (Node l x r) x par" "\<forall>n \<in> set_tree (Node l x r). cmp k (nkey m n) \<noteq> 0"
    and "blank m n" "n \<notin> set_tree (plug c (Node l x r))"
  shows "\<exists>m'. insert_loop m cmp k n x =
      Some (m', ctx_par (fst (descend (\<lambda>n. cmp k (nkey m n)) c (Node l x r)))) \<and>
    at m' t (fst (descend (\<lambda>n. cmp k (nkey m n)) c (Node l x r))) (Node Leaf n Leaf) n
      (ctx_par (fst (descend (\<lambda>n. cmp k (nkey m n)) c (Node l x r)))) \<and>
    ht m' = ht m \<and> relinked m t (insert n (set_tree (plug c (Node l x r)))) m'"
  using assms
proof (induction "Node l x r" arbitrary: c l x r par)
  case (Node l x r)
  note s = at_sub [OF Node.prems(1)]
  have step: "rd m x tn_key = Some (nkey m x)" "rd m x tn_left = Some (lf m x)" "rd m x tn_right = Some (rt m x)"
    "\<And>f. wr m x f = Some (setn m x f)" "\<And>g f. wr (setn m x g) n f = Some (setn (setn m x g) n f)"
    using s(1,2) Node.prems(3) by (simp_all add: tree_simps nkey_def blank_def)
  have nz: "cmp k (nkey m x) \<noteq> 0"
    using Node.prems(2) by simp
  show ?case
  proof (cases "cmp k (nkey m x) < 0")
    case lt: True
    have atl: "at m t (InL c x r) l (lf m x) x"
      by (rule at_left [OF Node.prems(1)])
    show ?thesis
    proof (cases l)
      case Leaf
      have nl: "lf m x = NULL"
        using s(5) Leaf by simp
      show ?thesis
        using link_left [of m t c x r "lf m x" x n] atl Node.prems(3,4) step nl lt Leaf
        by (subst insert_loop.simps) (auto simp: insert_commute Un_commute)
    next
      case (Node a y b)
      have y: "lf m x = y" "y \<noteq> NULL"
        using s(5) Node by simp_all
      have eq: "insert_loop m cmp k n x = insert_loop m cmp k n y"
        using step y lt by (subst insert_loop.simps) simp
      have st: "set_tree (plug (InL c x r) (Node a y b)) = set_tree (plug c (Node l x r))"
        using Node by auto
      show ?thesis
        using Node.hyps(1) [OF Node, of "InL c x r" x] atl Node.prems(2-4) lt nz y Node
        unfolding eq st by simp
    qed
  next
    case ge: False
    have atr: "at m t (InR l x c) r (rt m x) x"
      by (rule at_right [OF Node.prems(1)])
    show ?thesis
    proof (cases r)
      case Leaf
      have nl: "rt m x = NULL"
        using s(6) Leaf by simp
      show ?thesis
        using link_right [of m t l x c "rt m x" x n] atr Node.prems(3,4) step nl ge nz Leaf
        by (subst insert_loop.simps) (auto simp: insert_commute Un_commute)
    next
      case (Node a y b)
      have y: "rt m x = y" "y \<noteq> NULL"
        using s(6) Node by simp_all
      have eq: "insert_loop m cmp k n x = insert_loop m cmp k n y"
        using step y ge by (subst insert_loop.simps) simp
      have st: "set_tree (plug (InR l x c) (Node a y b)) = set_tree (plug c (Node l x r))"
        using Node by auto
      show ?thesis
        using Node.hyps(2) [OF Node, of "InR l x c" x] atr Node.prems(2-4) ge nz y Node
        unfolding eq st by simp
    qed
  qed
qed

text \<open>The state after the new node is filled in and counted.\<close>

definition new_node_in :: "tmem \<Rightarrow> ptr \<Rightarrow> ptr \<Rightarrow> ptr \<Rightarrow> ptr \<Rightarrow> tmem" where
  "new_node_in m t k v n =
     setm (m\<lparr>tnodes := (tnodes m)\<lparr>cells := (cells (tnodes m))(n := blank_node\<lparr>tn_key := k, tn_val := v\<rparr>),
                        live := insert n (tlive m)\<rparr>\<rparr>) t (\<lambda>x. x\<lparr>tr_len := tr_len x + 1\<rparr>)"

lemma new_node_in_fields [simp]:
  "lf (new_node_in m t k v n) = (lf m)(n := NULL)" "rt (new_node_in m t k v n) = (rt m)(n := NULL)"
  "pa (new_node_in m t k v n) = (pa m)(n := NULL)" "ht (new_node_in m t k v n) = (ht m)(n := 0)"
  "datum (new_node_in m t k v n) = (datum m)(n := (k, v, 0, False))"
  "nkey (new_node_in m t k v n) = (nkey m)(n := k)" "nval (new_node_in m t k v n) = (nval m)(n := v)"
  "tlive (new_node_in m t k v n) = insert n (tlive m)"
  "meta (new_node_in m t k v n) = (meta m)(t := (meta m t)\<lparr>tr_len := tr_len (meta m t) + 1\<rparr>)"
  "titers (new_node_in m t k v n) = titers m" "live (trees (new_node_in m t k v n)) = live (trees m)"
  by (auto simp: new_node_in_def fun_eq_iff lf_def rt_def pa_def ht_def datum_def nkey_def nval_def
      nd_def setm_def blank_node_def)

lemma new_node_exec:
  assumes "fresh (tnodes m) n" "valid (trees m) t"
  shows "do {
      m \<leftarrow> wr (m\<lparr>tnodes := malloc (tnodes m) n\<rparr>) n (\<lambda>x. blank_node);
      m \<leftarrow> wr m n (\<lambda>x. x\<lparr>tn_key := k\<rparr>);
      m \<leftarrow> wr m n (\<lambda>x. x\<lparr>tn_val := v\<rparr>);
      m \<leftarrow> wr_meta m t (\<lambda>x. x\<lparr>tr_len := tr_len x + 1\<rparr>);
      f m
    } = f (new_node_in m t k v n)"
proof -
  have "n \<noteq> NULL"
    using assms(1) by (simp add: fresh_def)
  then show ?thesis
    using assms(2)
    by (simp add: tree_simps malloc_def wr_def wr_meta_def upd_def valid_def new_node_in_def setm_def)
qed

lemma new_node_at:
  assumes "at m t c s p par" "n \<notin> set_tree (plug c s)"
  shows "at (new_node_in m t k v n) t c s p par"
proof -
  let ?m = "new_node_in m t k v n"
  have "crep (lf ?m) (rt ?m) (pa ?m) (tr_root (meta m t)) c p par"
    by (rule crep_transfer [of "lf m" "rt m" "pa m"]) (use assms in \<open>auto simp: at_def\<close>)
  moreover have "trep (lf ?m) (rt ?m) (pa ?m) par p s"
    by (rule trep_transfer [of "lf m" "rt m" "pa m"]) (use assms in \<open>auto simp: at_def\<close>)
  ultimately show ?thesis
    using assms(1) by (auto simp: at_def valid_def)
qed

lemma ordinary_leaf: "\<not> unbalanced (Node Leaf n Leaf)"
  by simp

lemma fix_up_InL: "\<not> unbalanced s \<Longrightarrow> fix_up (InL c z r) s = fix_up c (Node s z r)"
  using if_not_P by (subst fix_up.simps) simp

lemma fix_up_InR: "\<not> unbalanced s \<Longrightarrow> fix_up (InR l z c) s = fix_up c (Node l z s)"
  using if_not_P by (subst fix_up.simps) simp

text \<open>Linking a blank node below a leaf position and rebalancing.\<close>

lemma rebalance_inserted:
  assumes at: "at m t c (Node Leaf n Leaf) n (ctx_par c)" and cx: "ctx_exact (ht m) c" and ne: "c \<noteq> Top"
    and sm: "small (plug c (Node Leaf n Leaf))"
  shows "\<exists>m' p. rebalance_up m t (ctx_par c) = Some m' \<and> at m' t Top (fix_up c (Node Leaf n Leaf)) p NULL \<and>
    hsub (ht m') (fix_up c (Node Leaf n Leaf)) \<and> relinked m t (set_tree (plug c (Node Leaf n Leaf))) m'"
proof (cases c)
  case (InL c' z r)
  have up: "at m t c' (Node (Node Leaf n Leaf) z r) z (pa m z)"
    using at_InL at InL by blast
  have "hloose (ht m) (Node (Node Leaf n Leaf) z r)" "ctx_exact (ht m) c'"
    "small (plug c' (Node (Node Leaf n Leaf) z r))"
    using cx sm InL by (simp_all add: hexact_hsub)
  from rebalance_up_at [OF up this] show ?thesis
    using fix_up_InL [OF ordinary_leaf [of n]] InL by auto
next
  case (InR l z c')
  have up: "at m t c' (Node l z (Node Leaf n Leaf)) z (pa m z)"
    using at_InR at InR by blast
  have "hloose (ht m) (Node l z (Node Leaf n Leaf))" "ctx_exact (ht m) c'"
    "small (plug c' (Node l z (Node Leaf n Leaf)))"
    using cx sm InR by (simp_all add: hexact_hsub)
  from rebalance_up_at [OF up this] show ?thesis
    using fix_up_InR [OF ordinary_leaf [of n]] InR by auto
qed (use ne in simp)

lemma descend_not_Top: "fst (descend f c (Node l x r)) = Top \<Longrightarrow> f x \<noteq> 0 \<Longrightarrow> False"
proof -
  have "size c \<le> size (fst (descend f c s))" for c s
    by (induction f c s rule: descend.induct) auto
  from this [of "InL c x r" l] this [of "InR l x c" r]
  show "fst (descend f c (Node l x r)) = Top \<Longrightarrow> f x \<noteq> 0 \<Longrightarrow> False"
    by (auto split: if_splits)
qed

context comparer
begin

lemma keys_sorted_insert:
  assumes "keys_sorted m cmp (xs @ ys)" "\<forall>x \<in> set xs. cmp (nkey m n) (nkey m x) > 0"
    "\<forall>y \<in> set ys. cmp (nkey m n) (nkey m y) < 0"
  shows "keys_sorted m cmp (xs @ n # ys)"
  using assms cmp_swap by (auto simp: keys_sorted_def sorted_wrt_append)

lemma insert_linked:
  assumes at: "at m t Top T p NULL" and hs: "hsub (ht m) T" and cmp: "tr_cmp (meta m t) = cmp"
    and srt: "keys_sorted m cmp (inorder T)" and ab: "\<forall>x \<in> set_tree T. cmp (nkey m n) (nkey m x) \<noteq> 0"
    and n: "blank m n" "n \<notin> set_tree T" and T: "T = Node l x r" and sm: "size T + 1 < 2 ^ 30"
  shows "\<exists>m' T' p' xs ys. do { (m, z) \<leftarrow> insert_loop m cmp (nkey m n) n p; rebalance_up m t z } = Some m' \<and>
    at m' t Top T' p' NULL \<and> hsub (ht m') T' \<and> inorder T = xs @ ys \<and> inorder T' = xs @ n # ys \<and>
    keys_sorted m cmp (xs @ n # ys) \<and> (avl T \<longrightarrow> avl T') \<and> relinked m t (insert n (set_tree T)) m'"
proof -
  let ?f = "\<lambda>y. cmp (nkey m n) (nkey m y)"
  define c where "c = fst (descend ?f Top T)"
  have p: "p = x"
    using at T at_root_ptr by blast
  have pl: "plug c Leaf = T"
    using plug_descend [of ?f Top T] descend_absent [of T ?f Top] ab by (simp add: c_def)
  have cx: "ctx_exact (ht m) c"
    using descend_exact [OF hs, of Top ?f] by (simp add: c_def)
  obtain m1 where m1: "insert_loop m cmp (nkey m n) n p = Some (m1, ctx_par c)"
    "at m1 t c (Node Leaf n Leaf) n (ctx_par c)" "ht m1 = ht m" "relinked m t (insert n (set_tree T)) m1"
    using insert_loop_at [of m t Top l x r NULL cmp "nkey m n" n] at T ab n p by (auto simp: c_def)
  have io: "inorder T = ctx_before c @ ctx_after c"
    using pl inorder_plug [of c Leaf] by simp
  have "size (plug c (Node Leaf n Leaf)) = size T + 1"
    using length_inorder [of "plug c (Node Leaf n Leaf)"] length_inorder [of T] io by simp
  then have "small (plug c (Node Leaf n Leaf))"
    using sm by (simp add: small_def)
  moreover have "c \<noteq> Top"
    using descend_not_Top [of ?f Top l x r] ab T by (auto simp: c_def)
  moreover have "ctx_exact (ht m1) c"
    using cx m1(3) by simp
  ultimately obtain m2 p2 where m2: "rebalance_up m1 t (ctx_par c) = Some m2"
    "at m2 t Top (fix_up c (Node Leaf n Leaf)) p2 NULL" "hsub (ht m2) (fix_up c (Node Leaf n Leaf))"
    "relinked m1 t (set_tree (plug c (Node Leaf n Leaf))) m2"
    using rebalance_inserted [OF m1(2)] by blast
  have "(\<forall>x \<in> set (ctx_before c). ?f x > 0) \<and> (\<forall>x \<in> set (ctx_after c). ?f x < 0)"
    unfolding c_def using ab by (intro descend_between sorted_ordered_by [OF srt]) auto
  then have "keys_sorted m cmp (ctx_before c @ n # ctx_after c)"
    using srt io by (intro keys_sorted_insert) auto
  moreover have "avl T \<longrightarrow> avl (fix_up c (Node Leaf n Leaf))"
    using avl_fix_up [of c Leaf "Node Leaf n Leaf"] pl by simp
  moreover have "set_tree (plug c (Node Leaf n Leaf)) = insert n (set_tree T)"
    using pl set_tree_plug [of c Leaf] by auto
  then have "relinked m t (insert n (set_tree T)) m2"
    using relinked_trans [OF m1(4)] m2(4) by simp
  ultimately show ?thesis
    using m1(1) m2 io by (intro exI conjI) auto
qed

end

lemma datum_keys:
  assumes "datum m' = datum m"
  shows "nkey m' = nkey m" "nval m' = nval m"
  using assms by (auto simp: fun_eq_iff datum_def nkey_def nval_def)

lemma keys_sorted_cong:
  "\<forall>n \<in> set ns. nkey m' n = nkey m n \<Longrightarrow> keys_sorted m' cmp ns = keys_sorted m cmp ns"
  unfolding keys_sorted_def by (induction ns) auto

lemma contents_cong:
  "\<forall>n \<in> set_tree T. nkey m' n = nkey m n \<and> nval m' n = nval m n \<Longrightarrow> contents m' T = contents m T"
  by (simp add: contents_def)

context comparer
begin

lemma tree_insert_spec:
  assumes inv: "tree_inv m t T" and cmp: "tr_cmp (meta m t) = cmp"
    and ab: "lookup_by cmp (contents m T) k = None" and fr: "fresh (tnodes m) n"
    and sm: "size T + 1 < 2 ^ 30"
  shows "\<exists>m' T' xs ys. tree_insert m t k v n = Some m' \<and> tree_inv m' t T' \<and>
    inorder T = xs @ ys \<and> inorder T' = xs @ n # ys \<and> (avl T \<longrightarrow> avl T') \<and>
    tr_cmp (meta m' t) = cmp \<and> datum m' = (datum m)(n := (k, v, 0, False)) \<and>
    tlive m' = insert n (tlive m) \<and> titers m' = titers m"
proof -
  let ?m = "new_node_in m t k v n"
  obtain p where at: "at m t Top T p NULL" and hs: "hsub (ht m) T" and srt: "keys_sorted m cmp (inorder T)"
    and len: "tr_len (meta m t) = of_nat (size T)"
    using inv cmp by (auto simp: tree_inv_def)
  have v: "valid (trees m) t" "t \<noteq> NULL" "n \<noteq> NULL" "n \<notin> set_tree T"
    using at fr by (auto simp: at_def fresh_def)
  have root: "tr_root (meta m t) = p" "p = NULL \<longleftrightarrow> T = Leaf"
    using at by (cases T; auto simp: at_def)+
  have at1: "at ?m t Top T p NULL"
    using at v(4) by (intro new_node_at) simp_all
  have hs1: "hsub (ht ?m) T"
    using hs hsub_cong [of T "ht ?m" "ht m"] v(4) by (auto simp: fun_upd_def)
  have srt1: "keys_sorted ?m cmp (inorder T)"
    using srt v(4) keys_sorted_cong [of "inorder T" ?m m] by (auto simp: fun_upd_def)
  have ab1: "\<forall>x \<in> set_tree T. cmp (nkey ?m n) (nkey ?m x) \<noteq> 0"
    using ab v(4) by (auto simp: lookup_by_None contents_def)
  have cmp1: "tr_cmp (meta ?m t) = cmp" and bl: "blank ?m n"
    using cmp v(3) by (simp_all add: blank_def)
  have exec: "tree_insert m t k v n =
      (if p = NULL then wr_meta ?m t (\<lambda>x. x\<lparr>tr_root := n\<rparr>)
       else do { (m, z) \<leftarrow> insert_loop ?m cmp k n p; rebalance_up m t z })"
    using v tree_search_spec [OF inv cmp, of k] ab cmp root(1)
    by (simp add: tree_insert_def Let_def new_node_exec [OF fr v(1)]) (simp add: load_def valid_def)
  show ?thesis
  proof (cases T)
    case Leaf
    let ?m' = "setm ?m t (tr_root_update (\<lambda>_. n))"
    have "tree_insert m t k v n = Some ?m'"
      using exec root(2) Leaf v(1) by (simp add: tree_simps valid_def)
    moreover have "tree_inv ?m' t (Node Leaf n Leaf)"
      using v len Leaf by (auto simp: tree_inv_def at_def small_def keys_sorted_def valid_def)
    ultimately show ?thesis
      using Leaf cmp by (intro exI [of _ ?m'] exI [of _ "Node Leaf n Leaf"]) auto
  next
    case (Node l x r)
    obtain m' T' p' xs ys where m': "do { (m, z) \<leftarrow> insert_loop ?m cmp k n p; rebalance_up m t z } = Some m'"
      "at m' t Top T' p' NULL" "hsub (ht m') T'" "inorder T = xs @ ys" "inorder T' = xs @ n # ys"
      "keys_sorted ?m cmp (xs @ n # ys)" "avl T \<longrightarrow> avl T'" "relinked ?m t (insert n (set_tree T)) m'"
      using insert_linked [OF at1 hs1 cmp1 srt1 ab1 bl v(4) Node sm] by auto
    have size: "size T' = size T + 1"
      using length_inorder [of T'] length_inorder [of T] m'(4,5) by simp
    have fields: "tr_cmp (meta m' t) = cmp" "tr_len (meta m' t) = of_nat (size T')"
      "datum m' = datum ?m" "tlive m' = insert n (tlive m)" "titers m' = titers m"
      using m'(8) cmp len size by (simp_all add: relinked_def)
    have "keys_sorted m' cmp (inorder T')"
      using m'(5,6) datum_keys(1) [OF fields(3)] by (simp add: keys_sorted_def)
    then have "tree_inv m' t T'"
      using m'(2,3) sm size fields by (auto simp: tree_inv_def small_def)
    then show ?thesis
      using exec root(2) Node m' fields by (intro exI [of _ m'] exI [of _ T']) auto
  qed
qed

lemma tree_insert_present:
  assumes "tree_inv m t T" "tr_cmp (meta m t) = cmp"
    "lookup_by cmp (contents m T) k = Some v" "v \<noteq> TREE_NOTFOUND"
  shows "tree_insert m t k w n = Some m"
  using tree_search_spec [OF assms(1,2), of k] assms(3,4)
  by (simp add: tree_insert_def)

lemma tree_delete_found:
  assumes inv: "tree_inv m t T" and cmp: "tr_cmp (meta m t) = cmp"
    and x: "x \<in> set_tree T" "cmp k (nkey m x) = 0" "nval m x \<noteq> TREE_NOTFOUND"
  shows "tree_delete m t k = do {
      let m = setn m x (tn_delete_update (\<lambda>_. True));
      rc \<leftarrow> rd m x tn_refcount;
      if rc = 0 then remove_node m t x else Some m }"
proof -
  obtain p where at: "at m t Top T p NULL" and srt: "keys_sorted m cmp (inorder T)"
    and len: "tr_len (meta m t) = of_nat (size T)" and sm: "small T"
    using inv cmp by (auto simp: tree_inv_def)
  then have v: "valid (trees m) t" "t \<noteq> NULL" and root: "tr_root (meta m t) = p"
    and rep: "trep (lf m) (rt m) (pa m) NULL p T" "set_tree T \<subseteq> tlive m"
    by (auto simp: at_def)
  obtain l r where d: "snd (descend (\<lambda>n. cmp k (nkey m n)) Top T) = Node l x r"
    using descend_found [OF sorted_ordered_by [OF srt] x(1,2)] by blast
  have "lookup_by cmp (contents m T) k = Some (nval m x)"
    using lookup_nodes [OF srt _ x(2)] x(1) by (simp add: contents_def)
  then have "tree_search m t k = Some (nval m x)"
    using tree_search_spec [OF inv cmp] by simp
  moreover have "tr_len (meta m t) \<noteq> 0"
    using len sm x(1) of_nat_less_small(3) [of "size T" "size T"] by (auto simp: small_def)
  moreover have "x \<noteq> NULL" "x \<in> tlive m"
    using rep trep_nonnull x(1) by blast+
  moreover have "search_loop m cmp k p = Some x"
    using search_loop_rep [OF rep, of cmp k Top] d by simp
  ultimately show ?thesis
    using v x(3) by (simp add: tree_delete_def load_def cmp root tree_simps)
qed

end

section \<open>Deletion\<close>

definition nref :: "tmem \<Rightarrow> ptr \<Rightarrow> u32" where
  "nref m n = tn_refcount (nd m n)"

definition ndel :: "tmem \<Rightarrow> ptr \<Rightarrow> bool" where
  "ndel m n = tn_delete (nd m n)"

lemma datum_eq: "datum m n = (nkey m n, nval m n, nref m n, ndel m n)"
  by (simp add: datum_def nkey_def nval_def nref_def ndel_def)

lemma setn_delete [simp]:
  "lf (setn m n (tn_delete_update (\<lambda>_. b))) = lf m" "rt (setn m n (tn_delete_update (\<lambda>_. b))) = rt m"
  "pa (setn m n (tn_delete_update (\<lambda>_. b))) = pa m" "ht (setn m n (tn_delete_update (\<lambda>_. b))) = ht m"
  "nkey (setn m n (tn_delete_update (\<lambda>_. b))) = nkey m" "nval (setn m n (tn_delete_update (\<lambda>_. b))) = nval m"
  "nref (setn m n (tn_delete_update (\<lambda>_. b))) = nref m"
  "ndel (setn m n (tn_delete_update (\<lambda>_. b))) = (ndel m)(n := b)"
  by (auto simp: fun_eq_iff lf_def rt_def pa_def ht_def nkey_def nval_def nref_def ndel_def nd_setn
      simp del: nd_sel)

lemma setn_refcount [simp]:
  "lf (setn m n (\<lambda>x. x\<lparr>tn_refcount := f x\<rparr>)) = lf m" "rt (setn m n (\<lambda>x. x\<lparr>tn_refcount := f x\<rparr>)) = rt m"
  "pa (setn m n (\<lambda>x. x\<lparr>tn_refcount := f x\<rparr>)) = pa m" "ht (setn m n (\<lambda>x. x\<lparr>tn_refcount := f x\<rparr>)) = ht m"
  "nkey (setn m n (\<lambda>x. x\<lparr>tn_refcount := f x\<rparr>)) = nkey m"
  "nval (setn m n (\<lambda>x. x\<lparr>tn_refcount := f x\<rparr>)) = nval m"
  "nref (setn m n (\<lambda>x. x\<lparr>tn_refcount := f x\<rparr>)) = (nref m)(n := f (nd m n))"
  "ndel (setn m n (\<lambda>x. x\<lparr>tn_refcount := f x\<rparr>)) = ndel m"
  by (auto simp: fun_eq_iff lf_def rt_def pa_def ht_def nkey_def nval_def nref_def ndel_def nd_setn
      simp del: nd_sel)

lemma nd_data [simp]: "tn_refcount (nd m n) = nref m n" "tn_delete (nd m n) = ndel m n"
  by (simp_all add: nref_def ndel_def)

text \<open>The invariant does not depend on reference counts, delete flags and iterators.\<close>

lemma tree_inv_same:
  assumes "tree_inv m t T" "lf m' = lf m" "rt m' = rt m" "pa m' = pa m" "ht m' = ht m" "nkey m' = nkey m"
    "trees m' = trees m" "tlive m' = tlive m"
  shows "tree_inv m' t T"
  using assms by (simp add: tree_inv_def at_def keys_sorted_def)

lemma plug_exact: "hsub H (plug c s) \<Longrightarrow> ctx_exact H c \<and> hsub H s"
  by (induction c arbitrary: s) (fastforce intro: hexact_hsub)+

lemma position_exists: "x \<in> set_tree T \<Longrightarrow> \<exists>c l r. T = plug c (Node l x r)"
proof (induction T)
  case (Node l y r)
  then consider "x = y" | c a b where "l = plug c (Node a x b)" | c a b where "r = plug c (Node a x b)"
    by auto
  then show ?case
  proof cases
    case 1
    then have "Node l y r = plug Top (Node l x r)"
      by simp
    then show ?thesis
      by blast
  next
    case (2 c a b)
    have "\<exists>c'. \<forall>s. plug c' s = Node (plug c s) y r"
      by (induction c) (metis plug.simps(1,2), (metis plug.simps(2,3))+)
    with 2 show ?thesis
      by metis
  next
    case (3 c a b)
    have "\<exists>c'. \<forall>s. plug c' s = Node l y (plug c s)"
      by (induction c) (metis plug.simps(1,3), (metis plug.simps(2,3))+)
    with 3 show ?thesis
      by metis
  qed
qed simp

lemma tree_inv_plug:
  assumes "tree_inv m t (plug c (Node l x r))"
  obtains par where "at m t c (Node l x r) x par" "hsub (ht m) (Node l x r)" "ctx_exact (ht m) c"
proof -
  obtain p where at: "at m t Top (plug c (Node l x r)) p NULL" and hs: "hsub (ht m) (plug c (Node l x r))"
    using assms by (auto simp: tree_inv_def)
  obtain p' par where "at m t c (Node l x r) p' par"
    by (rule at_unplug [OF at])
  with at_root_ptr have "at m t c (Node l x r) x par"
    by blast
  with plug_exact [OF hs] that show ?thesis
    by blast
qed

lemma tree_inv_position:
  assumes "tree_inv m t T" "inorder T = xs @ x # ys"
  obtains c l r where "T = plug c (Node l x r)" "xs = ctx_before c @ inorder l" "ys = inorder r @ ctx_after c"
proof -
  have "x \<in> set_tree T"
    using assms(2) set_inorder [of T] by auto
  then obtain c l r where T: "T = plug c (Node l x r)"
    using position_exists by blast
  have "distinct (inorder T)"
    using assms(1) by (auto simp: tree_inv_def at_def)
  then have "x \<notin> set xs" "x \<notin> set ys"
    using assms(2) by auto
  then have "xs = ctx_before c @ inorder l \<and> ys = inorder r @ ctx_after c"
    using append_Cons_eq_iff [of x xs ys "ctx_before c @ inorder l" "inorder r @ ctx_after c"] assms(2) T
    by simp
  then show ?thesis
    using that [of c l r] T by blast
qed

context comparer
begin

text \<open>Removing the node \<open>x\<close> of a tree, whatever its flags are.\<close>

lemma remove_node_shape:
  assumes inv: "tree_inv m t (plug c (Node l x r))" and cmp: "tr_cmp (meta m t) = cmp"
  shows "\<exists>m'. remove_node m t x = Some m' \<and> tree_inv m' t (remove_at (sink c l x r)) \<and>
    tr_cmp (meta m' t) = cmp \<and> datum m' = datum m \<and> tlive m' = tlive m - {x} \<and> titers m' = titers m"
proof -
  let ?T = "plug c (Node l x r)" and ?T' = "remove_at (sink c l x r)"
  obtain par where c: "at m t c (Node l x r) x par" "hsub (ht m) (Node l x r)" "ctx_exact (ht m) c"
    by (rule tree_inv_plug [OF inv])
  have sm: "small ?T" and srt: "keys_sorted m cmp (inorder ?T)" and len: "tr_len (meta m t) = of_nat (size ?T)"
    using inv cmp by (auto simp: tree_inv_def)
  obtain m' p where m': "remove_node m t x = Some m'" "at m' t Top ?T' p NULL"
    "hsub (ht m') ?T'" "tlive m' = tlive m - {x}" "datum m' = datum m"
    "tr_len (meta m' t) = tr_len (meta m t) - 1" "tr_cmp (meta m' t) = tr_cmp (meta m t)"
    "titers m' = titers m" "live (trees m') = live (trees m)"
    by (rule remove_node_at [OF c sm])
  have io: "inorder ?T' = ctx_before c @ inorder l @ inorder r @ ctx_after c"
    by (simp add: inorder_remove_at inorder_sink)
  have size: "size ?T = Suc (size ?T')"
    using length_inorder [of ?T] length_inorder [of ?T'] io by simp
  have "keys_sorted m' cmp (inorder ?T')"
    using srt datum_keys(1) [OF m'(5)] by (simp add: io keys_sorted_def sorted_wrt_append)
  moreover have "tr_len (meta m' t) = of_nat (size ?T')" "small ?T'"
    using m'(6) len size sm by (simp_all add: small_def)
  ultimately have "tree_inv m' t ?T'"
    using m'(2,3,7) cmp by (auto simp: tree_inv_def)
  then show ?thesis
    using m' cmp by auto
qed

lemma remove_node_spec:
  assumes inv: "tree_inv m t T" and cmp: "tr_cmp (meta m t) = cmp" and io: "inorder T = xs @ x # ys"
  shows "\<exists>m' T'. remove_node m t x = Some m' \<and> tree_inv m' t T' \<and> inorder T' = xs @ ys \<and>
    tr_cmp (meta m' t) = cmp \<and> datum m' = datum m \<and> tlive m' = tlive m - {x} \<and> titers m' = titers m"
proof -
  obtain c l r where c: "T = plug c (Node l x r)" "xs = ctx_before c @ inorder l" "ys = inorder r @ ctx_after c"
    by (rule tree_inv_position [OF inv io])
  have "inorder (remove_at (sink c l x r)) = xs @ ys"
    by (simp add: inorder_remove_at inorder_sink c)
  then show ?thesis
    using remove_node_shape [OF inv [unfolded c(1)] cmp] by blast
qed

text \<open>The call of \<open>remove_node\<close> in \<open>tree_delete\<close>, on the node marked for deletion.\<close>

lemma tree_delete_unreferenced:
  assumes inv: "tree_inv m t T" and cmp: "tr_cmp (meta m t) = cmp" and x: "x \<in> set_tree T"
    and k: "cmp k (nkey m x) = 0" "nval m x \<noteq> TREE_NOTFOUND" and rc: "nref m x = 0"
  shows "tree_delete m t k = remove_node (setn m x (tn_delete_update (\<lambda>_. True))) t x"
    "tree_inv (setn m x (tn_delete_update (\<lambda>_. True))) t T"
    "tr_cmp (meta (setn m x (tn_delete_update (\<lambda>_. True))) t) = cmp"
    "\<forall>n. n \<noteq> x \<longrightarrow> datum (setn m x (tn_delete_update (\<lambda>_. True))) n = datum m n"
proof -
  have lv: "x \<noteq> NULL" "x \<in> tlive m"
    using inv x trep_nonnull by (auto simp: tree_inv_def at_def)
  then show "tree_delete m t k = remove_node (setn m x (tn_delete_update (\<lambda>_. True))) t x"
    using tree_delete_found [OF inv cmp x k] rc by (simp add: tree_simps)
  show "tree_inv (setn m x (tn_delete_update (\<lambda>_. True))) t T"
    using inv by (rule tree_inv_same) simp_all
  show "tr_cmp (meta (setn m x (tn_delete_update (\<lambda>_. True))) t) = cmp"
    "\<forall>n. n \<noteq> x \<longrightarrow> datum (setn m x (tn_delete_update (\<lambda>_. True))) n = datum m n"
    using cmp by (simp_all add: datum_eq)
qed

lemma tree_delete_spec:
  assumes inv: "tree_inv m t T" and cmp: "tr_cmp (meta m t) = cmp" and io: "inorder T = xs @ x # ys"
    and k: "cmp k (nkey m x) = 0" "nval m x \<noteq> TREE_NOTFOUND" and rc: "nref m x = 0"
  shows "\<exists>m' T'. tree_delete m t k = Some m' \<and> tree_inv m' t T' \<and> inorder T' = xs @ ys \<and>
    tr_cmp (meta m' t) = cmp \<and> (\<forall>n. n \<noteq> x \<longrightarrow> datum m' n = datum m n) \<and>
    tlive m' = tlive m - {x} \<and> titers m' = titers m"
proof -
  have "x \<in> set_tree T"
    using io set_inorder [of T] by auto
  note d = tree_delete_unreferenced [OF inv cmp this k rc]
  show ?thesis
    using remove_node_spec [OF d(2,3) io] d(1,4) by auto
qed

text \<open>A node an iterator refers to is only marked.\<close>

lemma tree_delete_referenced:
  assumes inv: "tree_inv m t T" and cmp: "tr_cmp (meta m t) = cmp" and x: "x \<in> set_tree T"
    and k: "cmp k (nkey m x) = 0" "nval m x \<noteq> TREE_NOTFOUND" and rc: "nref m x \<noteq> 0"
  shows "tree_delete m t k = Some (setn m x (tn_delete_update (\<lambda>_. True)))"
    "tree_inv (setn m x (tn_delete_update (\<lambda>_. True))) t T"
proof -
  have "x \<noteq> NULL" "x \<in> tlive m"
    using inv x trep_nonnull by (auto simp: tree_inv_def at_def)
  then show "tree_delete m t k = Some (setn m x (tn_delete_update (\<lambda>_. True)))"
    using tree_delete_found [OF inv cmp x k] rc by (simp add: tree_simps)
  show "tree_inv (setn m x (tn_delete_update (\<lambda>_. True))) t T"
    using inv by (rule tree_inv_same) simp_all
qed

lemma tree_delete_absent:
  assumes inv: "tree_inv m t T" and cmp: "tr_cmp (meta m t) = cmp"
    and ab: "lookup_by cmp (contents m T) k = None"
  shows "tree_delete m t k = Some m"
proof -
  have "valid (trees m) t" "t \<noteq> NULL"
    using inv by (auto simp: tree_inv_def at_def)
  then show ?thesis
    using tree_search_spec [OF inv cmp, of k] ab by (simp add: tree_delete_def load_def)
qed

end

end
