(* ===== verification/Forge_Tree_Iter.thy ===== *)
theory Forge_Tree_Iter
  imports Forge_Tree_Map
begin

text \<open>
  Iterators of \<open>src/src/kernel/tree.c\<close>: \<open>tree_next\<close> moves to the inorder successor, so a full walk
  lists the nodes in key order. The properties of the tree as a map and of its iterators are stated
  at the end.
\<close>

section \<open>Steps through the tree\<close>

lemma leftmost_rep:
  assumes "trep (lf m) (rt m) (pa m) par p s" "s \<noteq> Leaf" "set_tree s \<subseteq> tlive m"
  shows "leftmost m p = Some (hd (inorder s))"
  using assms
proof (induction s arbitrary: p par)
  case (Node l x r)
  then have "p = x" "x \<noteq> NULL" "x \<in> tlive m" "trep (lf m) (rt m) (pa m) x (lf m x) l"
    by auto
  with Node show ?case
    by (subst leftmost.simps, cases l) (auto simp: tree_simps hd_append)
qed simp

lemma rightmost_rep:
  assumes "trep (lf m) (rt m) (pa m) par p s" "s \<noteq> Leaf" "set_tree s \<subseteq> tlive m"
  shows "rightmost m p = Some (last (inorder s))"
  using assms
proof (induction s arbitrary: p par)
  case (Node l x r)
  then have "p = x" "x \<noteq> NULL" "x \<in> tlive m" "trep (lf m) (rt m) (pa m) x (rt m x) r"
    by auto
  with Node show ?case
    by (subst rightmost.simps, cases r) (auto simp: tree_simps)
qed simp

definition first_or_null :: "ptr list \<Rightarrow> ptr" where
  "first_or_null ns = (case ns of [] \<Rightarrow> NULL | n # _ \<Rightarrow> n)"

lemma first_or_null_append [simp]: "xs \<noteq> [] \<Longrightarrow> first_or_null (xs @ ys) = hd xs"
  by (cases xs) (simp_all add: first_or_null_def)

lemma inorder_nonempty: "t \<noteq> Leaf \<Longrightarrow> inorder t \<noteq> []"
  by (cases t) auto

lemma climb_right_at:
  assumes "at m t c (Node l x r) x par"
  shows "climb_right m x = Some (first_or_null (ctx_after c))"
  using assms
proof (induction c arbitrary: l x r par)
  case Top
  then have "x \<noteq> NULL" "x \<in> tlive m" "pa m x = NULL"
    by (auto simp: at_def)
  then show ?case
    by (subst climb_right.simps) (simp add: tree_simps first_or_null_def)
next
  case (InL c z s)
  note sub = at_sub [OF InL.prems]
  have up: "pa m x = z" "at m t c (Node (Node l x r) z s) z (pa m z)"
    using at_InL [OF InL.prems] sub(3) by auto
  note subz = at_sub [OF up(2)]
  have "rt m z \<noteq> x"
    using trep_root [OF subz(6)] subz(6,13) sub(1) by (cases s) auto
  then show ?case
    using sub(1,2) subz(1,2) up(1) by (subst climb_right.simps) (simp add: tree_simps first_or_null_def)
next
  case (InR s z c)
  note sub = at_sub [OF InR.prems]
  have up: "pa m x = z" "at m t c (Node s z (Node l x r)) z (pa m z)"
    using at_InR [OF InR.prems] sub(3) by auto
  note subz = at_sub [OF up(2)]
  have "rt m z = x"
    using subz(6) by simp
  then show ?case
    using InR.IH [OF up(2)] sub(1,2) subz(1,2) up(1)
    by (subst climb_right.simps) (simp add: tree_simps)
qed

lemma climb_left_at:
  assumes "at m t c (Node l x r) x par"
  shows "climb_left m x = Some (first_or_null (rev (ctx_before c)))"
  using assms
proof (induction c arbitrary: l x r par)
  case Top
  then have "x \<noteq> NULL" "x \<in> tlive m" "pa m x = NULL"
    by (auto simp: at_def)
  then show ?case
    by (subst climb_left.simps) (simp add: tree_simps first_or_null_def)
next
  case (InR s z c)
  note sub = at_sub [OF InR.prems]
  have up: "pa m x = z" "at m t c (Node s z (Node l x r)) z (pa m z)"
    using at_InR [OF InR.prems] sub(3) by auto
  note subz = at_sub [OF up(2)]
  have "lf m z \<noteq> x"
    using trep_root [OF subz(5)] subz(5,13) sub(1) by (cases s) auto
  then show ?case
    using sub(1,2) subz(1,2) up(1) by (subst climb_left.simps) (simp add: tree_simps first_or_null_def)
next
  case (InL c z s)
  note sub = at_sub [OF InL.prems]
  have up: "pa m x = z" "at m t c (Node (Node l x r) z s) z (pa m z)"
    using at_InL [OF InL.prems] sub(3) by auto
  note subz = at_sub [OF up(2)]
  have "lf m z = x"
    using subz(5) by simp
  then show ?case
    using InL.IH [OF up(2)] sub(1,2) subz(1,2) up(1)
    by (subst climb_left.simps) (simp add: tree_simps)
qed

lemma successor_step:
  assumes inv: "tree_inv m t T" and io: "inorder T = xs @ x # ys"
  shows "x \<noteq> NULL" "x \<in> tlive m"
    "(if rt m x \<noteq> NULL then leftmost m (rt m x) else climb_right m x) = Some (first_or_null ys)"
    "(if lf m x \<noteq> NULL then rightmost m (lf m x) else climb_left m x) = Some (first_or_null (rev xs))"
    "\<forall>y \<in> set (xs @ ys). y \<noteq> NULL \<and> y \<in> tlive m \<and> y \<noteq> x"
proof -
  obtain c l r where c: "T = plug c (Node l x r)"
    "xs = ctx_before c @ inorder l" "ys = inorder r @ ctx_after c"
    by (rule tree_inv_position [OF inv io])
  obtain par where at: "at m t c (Node l x r) x par"
    using tree_inv_plug inv c(1) by blast
  note s = at_sub [OF at]
  show "x \<noteq> NULL" "x \<in> tlive m"
    by (fact s)+
  show "(if rt m x \<noteq> NULL then leftmost m (rt m x) else climb_right m x) = Some (first_or_null ys)"
  proof (cases r)
    case Leaf
    with s(6) climb_right_at [OF at] c(3) show ?thesis by simp
  next
    case (Node a y b)
    then have "r \<noteq> Leaf" "rt m x \<noteq> NULL"
      using s(6) by auto
    then show ?thesis
      using leftmost_rep [OF s(6) _ s(8)] c(3) inorder_nonempty [of r] by simp
  qed
  show "(if lf m x \<noteq> NULL then rightmost m (lf m x) else climb_left m x) = Some (first_or_null (rev xs))"
  proof (cases l)
    case Leaf
    with s(5) climb_left_at [OF at] c(2) show ?thesis by simp
  next
    case (Node a y b)
    then have "l \<noteq> Leaf" "lf m x \<noteq> NULL"
      using s(5) by auto
    then show ?thesis
      using rightmost_rep [OF s(5) _ s(7)] c(2) inorder_nonempty [of l] by (simp add: hd_rev)
  qed
  have "distinct (xs @ x # ys)" "set_tree T \<subseteq> tlive m" "NULL \<notin> set_tree T"
    using inv io trep_nonnull by (auto simp: tree_inv_def at_def)
  then show "\<forall>y \<in> set (xs @ ys). y \<noteq> NULL \<and> y \<in> tlive m \<and> y \<noteq> x"
    using io set_inorder [of T] by auto
qed

section \<open>Iterators\<close>

definition seti :: "tmem \<Rightarrow> ptr \<Rightarrow> (titer \<Rightarrow> titer) \<Rightarrow> tmem" where
  "seti m i f = m\<lparr>titers := (titers m)\<lparr>cells := (cells (titers m))(i := f (cells (titers m) i))\<rparr>\<rparr>"

abbreviation iter :: "tmem \<Rightarrow> ptr \<Rightarrow> titer" where
  "iter m i \<equiv> cells (titers m) i"

lemma wr_iter_valid [tree_simps]: "valid (titers m) i \<Longrightarrow> wr_iter m i f = Some (seti m i f)"
  by (simp add: wr_iter_def upd_def seti_def)

lemma seti_other [simp]:
  "nd (seti m i f) = nd m" "tnodes (seti m i f) = tnodes m" "trees (seti m i f) = trees m"
  "live (titers (seti m i f)) = live (titers m)" "iter (seti m i f) = (iter m)(i := f (iter m i))"
  by (auto simp: seti_def nd_def)

lemma seti_fields [simp]:
  "lf (seti m i f) = lf m" "rt (seti m i f) = rt m" "pa (seti m i f) = pa m" "ht (seti m i f) = ht m"
  "nkey (seti m i f) = nkey m" "nval (seti m i f) = nval m" "nref (seti m i f) = nref m"
  "ndel (seti m i f) = ndel m"
  by (simp_all add: fun_eq_iff lf_def rt_def pa_def ht_def nkey_def nval_def nref_def ndel_def
      del: nd_sel nd_data)

text \<open>Two states that differ in reference counts and iterators only.\<close>

definition same_tree :: "tmem \<Rightarrow> tmem \<Rightarrow> bool" where
  "same_tree m m' \<longleftrightarrow> lf m' = lf m \<and> rt m' = rt m \<and> pa m' = pa m \<and> ht m' = ht m \<and>
     nkey m' = nkey m \<and> nval m' = nval m \<and> ndel m' = ndel m \<and> trees m' = trees m \<and>
     tlive m' = tlive m \<and> live (titers m') = live (titers m)"

lemma same_tree_refl [simp]: "same_tree m m"
  by (simp add: same_tree_def)

lemma same_tree_trans: "same_tree m m' \<Longrightarrow> same_tree m' m'' \<Longrightarrow> same_tree m m''"
  by (simp add: same_tree_def)

lemma same_tree_inv: "same_tree m m' \<Longrightarrow> tree_inv m t T \<Longrightarrow> tree_inv m' t T"
  unfolding same_tree_def by (rule tree_inv_same) auto

lemma tree_next_spec:
  assumes inv: "tree_inv m t T" and io: "inorder T = xs @ x # ys"
    and i: "valid (titers m) i" "ti_n (iter m i) = x" and nd: "\<not> (nref m x = 1 \<and> ndel m x)"
  obtains m' where "tree_next m t i = Some (m', first_or_null ys)" "same_tree m m'"
    "ti_n (iter m' i) = first_or_null ys" "ti_prev (iter m' i) = x"
    "nref m' = (\<lambda>n. nref m n + (if n = x then -1 else if ys \<noteq> [] \<and> n = hd ys then 1 else 0))"
proof -
  note s = successor_step [OF inv io]
  have t: "t \<noteq> NULL" "i \<noteq> NULL"
    using inv i(1) by (auto simp: tree_inv_def at_def)
  let ?n = "first_or_null ys"
  let ?m1 = "setn (seti m i (ti_n_update (\<lambda>_. ?n))) x (\<lambda>x. x\<lparr>tn_refcount := tn_refcount x - 1\<rparr>)"
  let ?m2 = "seti ?m1 i (ti_prev_update (\<lambda>_. x))"
  let ?m3 = "if ?n \<noteq> NULL then setn ?m2 ?n (\<lambda>x. x\<lparr>tn_refcount := tn_refcount x + 1\<rparr>) else ?m2"
  have n: "?n \<noteq> NULL \<Longrightarrow> ?n \<in> tlive m \<and> ?n \<noteq> x" "?n = NULL \<longleftrightarrow> ys = []" "ys \<noteq> [] \<Longrightarrow> ?n = hd ys"
    using s(5) by (cases ys; simp add: first_or_null_def)+
  have "nref m x - 1 = 0 \<longleftrightarrow> nref m x = 1"
    by simp
  then have fr: "free_node_if_needed ?m1 t x = Some (?m1, False)"
    using s(1,2) nd by (auto simp: free_node_if_needed_def load_def valid_def nd_def [symmetric] nd_setn)
  have "tree_next m t i = Some (?m3, ?n)"
    using t i s(1-3) n(1) fr
    by (simp add: tree_next_def load_def tree_simps valid_def ref_node_def)
  moreover have "same_tree m ?m3"
    by (auto simp: same_tree_def)
  ultimately show ?thesis
    using n s(1) by (intro that [of ?m3]) (auto simp: fun_eq_iff)
qed

text \<open>\<open>next_times k\<close> calls \<open>tree_next\<close> \<open>k\<close> times and collects what it returns.\<close>

fun next_times :: "nat \<Rightarrow> tmem \<Rightarrow> ptr \<Rightarrow> ptr \<Rightarrow> (tmem \<times> ptr list) option" where
  "next_times 0 m t i = Some (m, [])"
| "next_times (Suc k) m t i = do {
     (m, n) \<leftarrow> tree_next m t i;
     (m, ns) \<leftarrow> next_times k m t i;
     Some (m, n # ns)
   }"

lemma next_times_walk:
  assumes "tree_inv m t T" "inorder T = xs @ x # ys" "valid (titers m) i" "ti_n (iter m i) = x"
    "\<forall>n \<in> set_tree T. \<not> ndel m n"
  shows "\<exists>m'. next_times (Suc (length ys)) m t i = Some (m', ys @ [NULL]) \<and> same_tree m m' \<and>
    ti_n (iter m' i) = NULL"
  using assms
proof (induction ys arbitrary: m xs x)
  case Nil
  have "\<not> (nref m x = 1 \<and> ndel m x)"
    using Nil.prems set_inorder [of T] by auto
  from tree_next_spec [OF Nil.prems(1-4) this]
  obtain m1 where "tree_next m t i = Some (m1, first_or_null [])" "same_tree m m1"
    "ti_n (iter m1 i) = first_or_null []"
    by metis
  then show ?case
    by (simp add: first_or_null_def)
next
  case (Cons y ys)
  have "\<not> (nref m x = 1 \<and> ndel m x)"
    using Cons.prems set_inorder [of T] by auto
  from tree_next_spec [OF Cons.prems(1-4) this]
  obtain m1 where "tree_next m t i = Some (m1, first_or_null (y # ys))" "same_tree m m1"
    "ti_n (iter m1 i) = first_or_null (y # ys)"
    by metis
  then have m1: "tree_next m t i = Some (m1, y)" "same_tree m m1" "ti_n (iter m1 i) = y"
    by (simp_all add: first_or_null_def)
  have pre: "tree_inv m1 t T" "inorder T = (xs @ [x]) @ y # ys" "valid (titers m1) i"
    "\<forall>n \<in> set_tree T. \<not> ndel m1 n"
    using Cons.prems m1(2) same_tree_inv by (auto simp: same_tree_def valid_def)
  obtain m2 where "next_times (Suc (length ys)) m1 t i = Some (m2, ys @ [NULL])" "same_tree m1 m2"
      "ti_n (iter m2 i) = NULL"
    using Cons.IH [OF pre(1-3) m1(3) pre(4)] by blast
  with m1 show ?case
    using same_tree_trans by (auto simp del: next_times.simps simp: next_times.simps(2) [of "Suc (length ys)"])
qed

lemma tree_iterator_spec:
  assumes inv: "tree_inv m t T" and ne: "T \<noteq> Leaf" and fr: "fresh (titers m) i"
  obtains m' where "tree_iterator m t i = Some (m', i)" "tree_inv m' t T" "valid (titers m') i"
    "ti_n (iter m' i) = hd (inorder T)" "ndel m' = ndel m" "nkey m' = nkey m" "nval m' = nval m"
    "nref m' = (nref m)(hd (inorder T) := nref m (hd (inorder T)) + 1)"
proof -
  let ?h = "hd (inorder T)"
  let ?m0 = "m\<lparr>titers := malloc (titers m) i\<rparr>"
  let ?m1 = "seti ?m0 i (\<lambda>x. \<lparr>ti_n = NULL, ti_prev = NULL\<rparr>)"
  let ?m2 = "seti ?m1 i (ti_n_update (\<lambda>_. ?h))"
  let ?m3 = "setn ?m2 ?h (\<lambda>x. x\<lparr>tn_refcount := tn_refcount x + 1\<rparr>)"
  obtain p where at: "at m t Top T p NULL"
    using inv by (auto simp: tree_inv_def)
  then have v: "valid (trees m) t" "t \<noteq> NULL" "tr_root (meta m t) = p"
    and rep: "trep (lf m) (rt m) (pa m) NULL p T" "set_tree T \<subseteq> tlive m"
    by (auto simp: at_def)
  have i: "i \<noteq> NULL" "valid (titers ?m0) i"
    using fr by (auto simp: fresh_def malloc_def)
  have eq: "nd ?m1 = nd m" "tlive ?m1 = tlive m" "trees ?m1 = trees m"
    by (simp_all add: fun_eq_iff nd_def seti_def)
  have f1: "lf ?m1 = lf m" "rt ?m1 = rt m" "pa ?m1 = pa m" "ht ?m1 = ht m" "nkey ?m1 = nkey m"
    "nval ?m1 = nval m" "nref ?m1 = nref m" "ndel ?m1 = ndel m"
    by (simp_all add: fun_eq_iff lf_def rt_def pa_def ht_def nkey_def nval_def nref_def ndel_def eq
        del: nd_sel nd_data seti_other seti_fields)
  have h: "?h \<noteq> NULL" "?h \<in> tlive m"
    using rep trep_nonnull [OF rep(1)] hd_in_set [OF inorder_nonempty [OF ne]] by auto
  have lm: "leftmost ?m1 p = Some ?h"
    using rep ne f1 eq by (intro leftmost_rep [where par = NULL]) simp_all
  have "tree_iterator m t i = Some (?m3, i)"
    using v i h lm by (simp add: tree_iterator_def tree_simps load_def ref_node_def valid_def seti_def)
  moreover have "tree_inv ?m3 t T"
    using inv by (rule tree_inv_same) (use f1 eq in simp_all)
  ultimately show ?thesis
    using i f1 by (intro that [of ?m3]) (simp_all add: valid_def)
qed

text \<open>
  Leaving a node that was deleted while this iterator was the only one on it: \<open>remove_node\<close> frees it
  and \<open>free_node_if_needed\<close> frees it again.
\<close>

lemma tree_next_deleted:
  assumes inv: "tree_inv m t T" and cmp: "tr_cmp (meta m t) = default_comparer" and io: "inorder T = xs @ x # ys"
    and i: "valid (titers m) i" "ti_n (iter m i) = x" and nd: "nref m x = 1" "ndel m x"
  shows "tree_next m t i = None"
proof -
  note s = successor_step [OF inv io]
  have t: "t \<noteq> NULL" "i \<noteq> NULL"
    using inv i(1) by (auto simp: tree_inv_def at_def)
  let ?m1 = "setn (seti m i (ti_n_update (\<lambda>_. first_or_null ys))) x (\<lambda>x. x\<lparr>tn_refcount := tn_refcount x - 1\<rparr>)"
  have inv1: "tree_inv ?m1 t T" "tr_cmp (meta ?m1 t) = default_comparer"
    using inv cmp by (auto intro: tree_inv_same)
  obtain m' where m': "remove_node ?m1 t x = Some m'" "tlive m' = tlive ?m1 - {x}"
    using default_cmp.remove_node_spec [OF inv1 io] by blast
  then have "tnode_free m' x = None"
    using s(1) by (simp add: tnode_free_def free_def)
  then have "free_node_if_needed ?m1 t x = None"
    using s(1,2) nd m'(1)
    by (simp add: free_node_if_needed_def load_def valid_def nd_def [symmetric] nd_setn)
  then show ?thesis
    using t i s(1-3) by (simp add: tree_next_def load_def tree_simps valid_def)
qed

end
