(* ===== verification/Forge_Tree_Dict.thy ===== *)
theory Forge_Tree_Dict
  imports Forge_Tree_Iter
begin

text \<open>
  The contract of a dictionary, \<open>dictionary\<close>, its interpretation on the tree of
  \<open>src/src/kernel/tree.c\<close>, and the properties of the tree.
\<close>

section \<open>Contents after an insertion and a deletion\<close>

context comparer
begin

lemma cmp_eq_same: "cmp j k = 0 \<Longrightarrow> cmp j b = 0 \<Longrightarrow> cmp k b = 0"
  using cmp_eq_trans [of k j b] cmp_eq_swap [of j k] by simp

lemma lookup_by_insert:
  assumes "lookup_by cmp (xs @ ys) k = None"
  shows "lookup_by cmp (xs @ (k, v) # ys) j = (if cmp j k = 0 then Some v else lookup_by cmp (xs @ ys) j)"
proof (cases "cmp j k = 0")
  case True
  have "lookup_by cmp xs k = None"
    using assms by (simp add: lookup_by_append split: option.splits)
  then have "\<forall>(b, w) \<in> set xs. cmp j b \<noteq> 0"
    using cmp_eq_same [OF True] unfolding lookup_by_None by blast
  then have "lookup_by cmp xs j = None"
    by (simp only: lookup_by_None)
  with True show ?thesis
    by (simp add: lookup_by_append)
next
  case False
  then show ?thesis
    by (cases "lookup_by cmp xs j") (simp_all add: lookup_by_append)
qed

lemma lookup_by_delete:
  assumes "cmp k a = 0" "\<forall>(b, w) \<in> set (xs @ ys). cmp a b \<noteq> 0"
  shows "lookup_by cmp (xs @ ys) j = (if cmp j k = 0 then None else lookup_by cmp (xs @ (a, v) # ys) j)"
proof (cases "cmp j k = 0")
  case True
  have "cmp j a = 0"
    using cmp_eq_trans [OF True assms(1)] .
  then have "\<forall>(b, w) \<in> set (xs @ ys). cmp j b \<noteq> 0"
    using assms(2) cmp_eq_same by blast
  then have "lookup_by cmp (xs @ ys) j = None"
    by (simp only: lookup_by_None)
  with True show ?thesis
    by simp
next
  case False
  have "cmp j a \<noteq> 0"
  proof
    assume "cmp j a = 0"
    then show False
      using False cmp_eq_trans [of j a k] assms(1) cmp_eq_swap [of k a] by simp
  qed
  with False show ?thesis
    by (cases "lookup_by cmp xs j") (simp_all add: lookup_by_append)
qed

lemma lookup_by_Some:
  assumes "lookup_by cmp (map (\<lambda>n. (nkey m n, nval m n)) ns) k = Some v"
  shows "\<exists>xs x ys. ns = xs @ x # ys \<and> cmp k (nkey m x) = 0 \<and> nval m x = v"
  using assms
proof (induction ns)
  case (Cons a ns)
  show ?case
  proof (cases "cmp k (nkey m a) = 0")
    case True
    with Cons.prems have "a # ns = [] @ a # ns \<and> cmp k (nkey m a) = 0 \<and> nval m a = v"
      by simp
    then show ?thesis
      by blast
  next
    case False
    with Cons obtain xs x ys where "ns = xs @ x # ys" "cmp k (nkey m x) = 0" "nval m x = v"
      by auto
    then have "a # ns = (a # xs) @ x # ys \<and> cmp k (nkey m x) = 0 \<and> nval m x = v"
      by simp
    then show ?thesis
      by blast
  qed
qed simp

lemma sorted_distinct_keys:
  assumes "keys_sorted m cmp (xs @ x # ys)" "n \<in> set (xs @ ys)"
  shows "cmp (nkey m x) (nkey m n) \<noteq> 0"
proof -
  have "cmp (nkey m x) (nkey m n) < 0 \<or> cmp (nkey m n) (nkey m x) < 0"
    using assms unfolding keys_sorted_def sorted_wrt_append by auto
  then show ?thesis
    using cmp_swap [of "nkey m n" "nkey m x"] by auto
qed

end

section \<open>Contract of a dictionary\<close>

datatype dict_op = DInsert ptr ptr ptr | DDelete ptr | DSearch ptr

text \<open>\<open>DInsert k v n\<close> inserts with the allocator answering \<open>n\<close>. Searches produce the output of a run.\<close>

fun dict_run :: "('m \<Rightarrow> ptr \<Rightarrow> ptr \<Rightarrow> ptr \<Rightarrow> 'm option) \<Rightarrow> ('m \<Rightarrow> ptr \<Rightarrow> 'm option) \<Rightarrow> ('m \<Rightarrow> ptr \<Rightarrow> ptr option)
    \<Rightarrow> 'm \<Rightarrow> dict_op list \<Rightarrow> ('m \<times> ptr list) option" where
  "dict_run ins del srch m [] = Some (m, [])"
| "dict_run ins del srch m (DInsert k v n # ops) = do {
     m \<leftarrow> ins m k v n;
     dict_run ins del srch m ops
   }"
| "dict_run ins del srch m (DDelete k # ops) = do {
     m \<leftarrow> del m k;
     dict_run ins del srch m ops
   }"
| "dict_run ins del srch m (DSearch k # ops) = do {
     x \<leftarrow> srch m k;
     (m, out) \<leftarrow> dict_run ins del srch m ops;
     Some (m, x # out)
   }"

fun dict_ok :: "('m \<Rightarrow> ptr \<Rightarrow> bool) \<Rightarrow> ptr \<Rightarrow> ('m \<Rightarrow> ptr \<Rightarrow> ptr \<Rightarrow> ptr \<Rightarrow> 'm option)
    \<Rightarrow> ('m \<Rightarrow> ptr \<Rightarrow> 'm option) \<Rightarrow> 'm \<Rightarrow> dict_op list \<Rightarrow> bool" where
  "dict_ok ok none ins del m [] = True"
| "dict_ok ok none ins del m (DInsert k v n # ops) =
     (ok m n \<and> v \<noteq> none \<and> (case ins m k v n of None \<Rightarrow> True | Some m' \<Rightarrow> dict_ok ok none ins del m' ops))"
| "dict_ok ok none ins del m (DDelete k # ops) =
     (case del m k of None \<Rightarrow> True | Some m' \<Rightarrow> dict_ok ok none ins del m' ops)"
| "dict_ok ok none ins del m (DSearch k # ops) = dict_ok ok none ins del m ops"

fun map_run :: "ptr \<Rightarrow> (ptr \<rightharpoonup> ptr) \<Rightarrow> dict_op list \<Rightarrow> (ptr \<rightharpoonup> ptr) \<times> ptr list" where
  "map_run none M [] = (M, [])"
| "map_run none M (DInsert k v n # ops) = map_run none (if M k = None then M(k \<mapsto> v) else M) ops"
| "map_run none M (DDelete k # ops) = map_run none (M(k := None)) ops"
| "map_run none M (DSearch k # ops) =
     apsnd (Cons (case M k of None \<Rightarrow> none | Some v \<Rightarrow> v)) (map_run none M ops)"

locale dictionary =
  fixes rep :: "'m \<Rightarrow> (ptr \<rightharpoonup> ptr) \<Rightarrow> bool"
    and ok :: "'m \<Rightarrow> ptr \<Rightarrow> bool"
    and ins :: "'m \<Rightarrow> ptr \<Rightarrow> ptr \<Rightarrow> ptr \<Rightarrow> 'm option"
    and del :: "'m \<Rightarrow> ptr \<Rightarrow> 'm option"
    and srch :: "'m \<Rightarrow> ptr \<Rightarrow> ptr option"
    and none :: ptr
  assumes srch_rep: "rep m M \<Longrightarrow> srch m k = Some (case M k of None \<Rightarrow> none | Some v \<Rightarrow> v)"
    and ins_new: "rep m M \<Longrightarrow> M k = None \<Longrightarrow> v \<noteq> none \<Longrightarrow> ok m n \<Longrightarrow>
      \<exists>m'. ins m k v n = Some m' \<and> rep m' (M(k \<mapsto> v))"
    and ins_old: "rep m M \<Longrightarrow> M k \<noteq> None \<Longrightarrow> ins m k v n = Some m"
    and del_rep: "rep m M \<Longrightarrow> \<exists>m'. del m k = Some m' \<and> rep m' (M(k := None))"
begin

lemma ins_rep:
  assumes "rep m M" "v \<noteq> none" "ok m n"
  shows "\<exists>m'. ins m k v n = Some m' \<and> rep m' (if M k = None then M(k \<mapsto> v) else M)"
  using assms ins_new [of m M k v n] ins_old [of m M k v n] by (cases "M k = None") auto

lemma dict_run_refines:
  "rep m M \<Longrightarrow> dict_ok ok none ins del m ops \<Longrightarrow>
   \<exists>m'. dict_run ins del srch m ops = Some (m', snd (map_run none M ops)) \<and> rep m' (fst (map_run none M ops))"
proof (induction ops arbitrary: m M)
  case (Cons op ops)
  show ?case
  proof (cases op)
    case (DInsert k v n)
    then obtain m1 where "ins m k v n = Some m1" "rep m1 (if M k = None then M(k \<mapsto> v) else M)"
      using ins_rep [of m M v n k] Cons.prems by auto
    with DInsert Cons show ?thesis
      by (simp del: fun_upd_apply)
  next
    case (DDelete k)
    obtain m1 where "del m k = Some m1" "rep m1 (M(k := None))"
      using del_rep Cons.prems(1) by blast
    with DDelete Cons show ?thesis
      by (simp del: fun_upd_apply)
  next
    case (DSearch k)
    then obtain m' where "dict_run ins del srch m ops = Some (m', snd (map_run none M ops))"
        "rep m' (fst (map_run none M ops))"
      using Cons by auto
    with DSearch Cons.prems(1) show ?thesis
      by (simp add: srch_rep)
  qed
qed simp

end

section \<open>The tree as a dictionary\<close>

definition tree_is :: "ptr \<Rightarrow> tmem \<Rightarrow> (ptr \<rightharpoonup> ptr) \<Rightarrow> bool" where
  "tree_is t m M \<longleftrightarrow>
     (\<exists>T. tree_inv m t T \<and> tr_cmp (meta m t) = default_comparer \<and> (\<forall>n \<in> set_tree T. nref m n = 0) \<and>
        M = lookup_by default_comparer (contents m T) \<and> TREE_NOTFOUND \<notin> ran M)"

definition tree_ok :: "ptr \<Rightarrow> tmem \<Rightarrow> ptr \<Rightarrow> bool" where
  "tree_ok t m n \<longleftrightarrow> fresh (tnodes m) n \<and> unat (tr_len (meta m t)) + 1 < 2 ^ 30"

lemma default_comparer_0 [simp]: "default_comparer a b = 0 \<longleftrightarrow> a = b"
  by (auto simp: default_comparer_def)

lemma tree_is_insert:
  assumes "tree_is t m M" "M k = None" "v \<noteq> TREE_NOTFOUND" "tree_ok t m n"
  shows "\<exists>m'. tree_insert m t k v n = Some m' \<and> tree_is t m' (M(k \<mapsto> v))"
proof -
  obtain T where T: "tree_inv m t T" "tr_cmp (meta m t) = default_comparer" "\<forall>n \<in> set_tree T. nref m n = 0"
    "M = lookup_by default_comparer (contents m T)" "TREE_NOTFOUND \<notin> ran M"
    using assms(1) by (auto simp: tree_is_def)
  have "tr_len (meta m t) = of_nat (size T)" "size T < 2 ^ 30"
    using T(1) by (auto simp: tree_inv_def small_def)
  then have sm: "size T + 1 < 2 ^ 30" and fr: "fresh (tnodes m) n"
    using assms(4) by (simp_all add: tree_ok_def unat_of_nat)
  obtain m' T' xs ys where m': "tree_insert m t k v n = Some m'" "tree_inv m' t T'" "inorder T = xs @ ys"
    "inorder T' = xs @ n # ys" "tr_cmp (meta m' t) = default_comparer"
    "datum m' = (datum m)(n := (k, v, 0, False))"
    using default_cmp.tree_insert_spec [OF T(1,2) _ fr sm, of k v] assms(2) T(4) by auto
  have "n \<notin> set_tree T"
    using fr T(1) by (auto simp: tree_inv_def at_def fresh_def)
  then have n: "n \<notin> set xs" "n \<notin> set ys"
    using m'(3) set_inorder [of T] by auto
  have data: "datum m' x = (if x = n then (k, v, 0, False) else datum m x)" for x
    using m'(6) by simp
  have kv: "nkey m' x = (if x = n then k else nkey m x)" "nval m' x = (if x = n then v else nval m x)"
    "nref m' x = (if x = n then 0 else nref m x)" for x
    using data [of x] by (simp_all add: datum_eq split: if_splits)
  let ?f = "map (\<lambda>n. (nkey m n, nval m n))"
  have c: "contents m T = ?f xs @ ?f ys" "contents m' T' = ?f xs @ (k, v) # ?f ys"
    using m'(3,4) n kv by (auto simp: contents_def)
  have "lookup_by default_comparer (contents m' T') = M(k \<mapsto> v)"
    using default_cmp.lookup_by_insert [of "?f xs" "?f ys" k v] assms(2) unfolding T(4) c
    by (auto simp: fun_eq_iff)
  moreover have "TREE_NOTFOUND \<notin> ran (M(k \<mapsto> v))"
    using T(5) assms(2,3) by (auto simp: ran_def)
  moreover have "\<forall>x \<in> set_tree T'. nref m' x = 0"
    using T(3) kv(3) m'(3,4) set_inorder [of T] set_inorder [of T'] by auto
  ultimately show ?thesis
    using m' by (auto simp: tree_is_def)
qed

lemma tree_is_delete:
  assumes "tree_is t m M"
  shows "\<exists>m'. tree_delete m t k = Some m' \<and> tree_is t m' (M(k := None))"
proof -
  obtain T where T: "tree_inv m t T" "tr_cmp (meta m t) = default_comparer" "\<forall>n \<in> set_tree T. nref m n = 0"
    "M = lookup_by default_comparer (contents m T)" "TREE_NOTFOUND \<notin> ran M"
    using assms by (auto simp: tree_is_def)
  show ?thesis
  proof (cases "M k")
    case None
    then have "M(k := None) = M"
      by auto
    then show ?thesis
      using default_cmp.tree_delete_absent [OF T(1,2), of k] None T(4) assms by auto
  next
    case (Some v)
    let ?f = "map (\<lambda>n. (nkey m n, nval m n))"
    have v: "v \<noteq> TREE_NOTFOUND"
      using Some T(5) by (auto simp: ran_def)
    obtain xs x ys where x: "inorder T = xs @ x # ys" "default_comparer k (nkey m x) = 0" "nval m x = v"
      using default_cmp.lookup_by_Some [of m "inorder T" k v] Some T(4) unfolding contents_def by blast
    have "nref m x = 0"
      using T(3) x(1) set_inorder [of T] by auto
    then obtain m' T' where m': "tree_delete m t k = Some m'" "tree_inv m' t T'" "inorder T' = xs @ ys"
      "tr_cmp (meta m' t) = default_comparer" "\<forall>n. n \<noteq> x \<longrightarrow> datum m' n = datum m n"
      using default_cmp.tree_delete_spec [OF T(1,2) x(1,2)] x(3) v by blast
    have dist: "distinct (xs @ x # ys)" and srt: "keys_sorted m default_comparer (xs @ x # ys)"
      using T(1,2) x(1) by (auto simp: tree_inv_def at_def)
    then have same: "\<forall>n \<in> set xs \<union> set ys. nkey m' n = nkey m n \<and> nval m' n = nval m n \<and> nref m' n = nref m n"
      using m'(5) by (auto simp: datum_eq)
    have c: "contents m T = ?f xs @ (nkey m x, v) # ?f ys" "contents m' T' = ?f xs @ ?f ys"
      using x(1,3) m'(3) same by (auto simp: contents_def)
    have "\<forall>(b, w) \<in> set (?f xs @ ?f ys). default_comparer (nkey m x) b \<noteq> 0"
      using default_cmp.sorted_distinct_keys [OF srt] by fastforce
    then have "lookup_by default_comparer (contents m' T') = M(k := None)"
      using default_cmp.lookup_by_delete [OF x(2), of "?f xs" "?f ys" _ v] unfolding T(4) c
      by (auto simp: fun_eq_iff)
    moreover have "TREE_NOTFOUND \<notin> ran (M(k := None))"
      using T(5) by (auto simp: ran_def)
    moreover have "\<forall>n \<in> set_tree T'. nref m' n = 0"
      using T(3) same m'(3) x(1) set_inorder [of T] set_inorder [of T'] by auto
    ultimately show ?thesis
      using m' by (auto simp: tree_is_def)
  qed
qed

interpretation dict: dictionary "tree_is t" "tree_ok t" "\<lambda>m. tree_insert m t" "\<lambda>m. tree_delete m t"
  "\<lambda>m. tree_search m t" TREE_NOTFOUND
proof unfold_locales
  fix m M k
  assume "tree_is t m M"
  then show "tree_search m t k = Some (case M k of None \<Rightarrow> TREE_NOTFOUND | Some v \<Rightarrow> v)"
    using default_cmp.tree_search_spec by (auto simp: tree_is_def)
next
  fix m M k v n
  assume "tree_is t m M" "M k \<noteq> None"
  then show "tree_insert m t k v n = Some m"
    using default_cmp.tree_insert_present by (fastforce simp: tree_is_def ran_def)
qed (use tree_is_insert tree_is_delete in blast)+

section \<open>Properties\<close>

text \<open>
  C5. Every sequence of \<open>tree_insert\<close>, \<open>tree_delete\<close> and \<open>tree_search\<close> calls on a tree with the default
  comparison and no iterators returns and answers like a finite map in which an insertion of a
  present key is ignored; the tree then represents that map. The values inserted must differ from
  \<open>TREE_NOTFOUND\<close>, and there must be fewer than \<open>2 ^ 30\<close> nodes.
\<close>

theorem tree_run_map:
  assumes "tree_is t m M"
    and "dict_ok (tree_ok t) TREE_NOTFOUND (\<lambda>m. tree_insert m t) (\<lambda>m. tree_delete m t) m ops"
  shows "\<exists>m'. dict_run (\<lambda>m. tree_insert m t) (\<lambda>m. tree_delete m t) (\<lambda>m. tree_search m t) m ops
             = Some (m', snd (map_run TREE_NOTFOUND M ops)) \<and>
           tree_is t m' (fst (map_run TREE_NOTFOUND M ops))"
  using assms by (rule dict.dict_run_refines)

definition empty_tree :: "u32 \<Rightarrow> tmem" where
  "empty_tree len =
     \<lparr>trees = \<lparr>cells = \<lambda>_. \<lparr>tr_root = NULL, tr_cmp = default_comparer, tr_len = len\<rparr>, live = {0x10}\<rparr>,
      tnodes = empty_heap (\<lambda>_. blank_node), titers = empty_heap (\<lambda>_. \<lparr>ti_n = 0, ti_prev = 0\<rparr>)\<rparr>"

lemma empty_tree_inv: "tree_inv (empty_tree 0) 0x10 Leaf"
  by (auto simp: tree_inv_def at_def empty_tree_def valid_def small_def keys_sorted_def empty_heap_def)

lemma empty_tree_is: "tree_is 0x10 (empty_tree 0) Map.empty"
  unfolding tree_is_def
  by (intro exI [of _ Leaf] conjI empty_tree_inv) (simp_all add: empty_tree_def contents_def fun_eq_iff)

lemma tree_run_map_witness:
  "\<exists>m'. dict_run (\<lambda>m. tree_insert m 0x10) (\<lambda>m. tree_delete m 0x10) (\<lambda>m. tree_search m 0x10) (empty_tree 0)
      [DInsert 5 50 0x100, DSearch 5, DSearch 6, DDelete 5, DSearch 5]
        = Some (m', [50, TREE_NOTFOUND, TREE_NOTFOUND]) \<and> tree_is 0x10 m' Map.empty"
  using tree_run_map [OF empty_tree_is, of "[DInsert 5 50 0x100, DSearch 5, DSearch 6, DDelete 5, DSearch 5]"]
  by (simp add: tree_ok_def empty_tree_def empty_heap_def fresh_def TREE_NOTFOUND_def split: option.splits)

text \<open>
  C6. Inserting an absent key into a balanced tree returns and leaves a balanced tree with the new
  node; a search path of the new tree is at most logarithmic in its size.
\<close>

theorem tree_insert_balanced:
  assumes "tree_inv m t T" "tr_cmp (meta m t) = default_comparer" "avl T"
    and "lookup_by default_comparer (contents m T) k = None" "fresh (tnodes m) n" "size T + 1 < 2 ^ 30"
  shows "\<exists>m' T'. tree_insert m t k v n = Some m' \<and> tree_inv m' t T' \<and> avl T' \<and>
    set_tree T' = insert n (set_tree T) \<and> 2 ^ (height T' div 2) \<le> size T + 2"
proof -
  obtain m' T' xs ys where m': "tree_insert m t k v n = Some m'" "tree_inv m' t T'"
    "inorder T = xs @ ys" "inorder T' = xs @ n # ys" "avl T'"
    using default_cmp.tree_insert_spec [OF assms(1,2,4-6), of v] assms(3) by auto
  have "set_tree T' = insert n (set_tree T)" "size1 T' = size T + 2"
    using set_inorder [of T] set_inorder [of T'] length_inorder [of T] length_inorder [of T'] m'(3,4)
    by (auto simp: size1_size)
  with m' avl_size [OF m'(5)] show ?thesis
    by auto
qed

lemma tree_insert_balanced_witness:
  "\<exists>m' T'. tree_insert (empty_tree 0) 0x10 5 50 0x100 = Some m' \<and> tree_inv m' 0x10 T' \<and> avl T' \<and>
     set_tree T' = {0x100} \<and> 2 ^ (height T' div 2) \<le> size (Leaf :: ptr tree) + 2"
  using tree_insert_balanced [OF empty_tree_inv, of 5 "0x100" 50]
  by (simp add: empty_tree_def empty_heap_def fresh_def contents_def)

text \<open>
  C7. A walk with a fresh iterator over a tree in which no node is marked for deletion visits every
  node once, in key order, then reports the end; the tree is unchanged.
\<close>

theorem tree_walk_in_order:
  assumes "tree_inv m t T" "T \<noteq> Leaf" "fresh (titers m) i" "\<forall>n \<in> set_tree T. \<not> ndel m n"
  shows "\<exists>m1 m2. tree_iterator m t i = Some (m1, i) \<and> ti_n (iter m1 i) = hd (inorder T) \<and>
    next_times (size T) m1 t i = Some (m2, tl (inorder T) @ [NULL]) \<and>
    tree_iterator_eof m2 t i = Some True \<and> tree_inv m2 t T \<and> contents m2 T = contents m T"
proof -
  obtain m1 where m1: "tree_iterator m t i = Some (m1, i)" "tree_inv m1 t T" "valid (titers m1) i"
    "ti_n (iter m1 i) = hd (inorder T)" "ndel m1 = ndel m" "nkey m1 = nkey m" "nval m1 = nval m"
    "nref m1 = (nref m)(hd (inorder T) := nref m (hd (inorder T)) + 1)"
    by (rule tree_iterator_spec [OF assms(1-3)])
  have io: "inorder T = [] @ hd (inorder T) # tl (inorder T)"
    using inorder_nonempty [OF assms(2)] by simp
  have len: "size T = Suc (length (tl (inorder T)))"
    using inorder_nonempty [OF assms(2)] length_inorder [of T] by (cases "inorder T") auto
  obtain m2 where m2: "next_times (size T) m1 t i = Some (m2, tl (inorder T) @ [NULL])" "same_tree m1 m2"
    "ti_n (iter m2 i) = NULL"
    using next_times_walk [OF m1(2) io m1(3,4)] assms(4) m1(5) unfolding len by auto
  have "valid (titers m2) i" "t \<noteq> NULL" "i \<noteq> NULL"
    using m2(2) m1(2,3) by (auto simp: same_tree_def valid_def tree_inv_def at_def)
  then have "tree_iterator_eof m2 t i = Some True"
    using m2(3) by (simp add: tree_iterator_eof_def load_def)
  moreover have "contents m2 T = contents m T"
    using m2(2) m1(6,7) by (simp add: contents_def same_tree_def)
  ultimately show ?thesis
    using m1 m2 same_tree_inv by blast
qed

definition example_tree :: "u32 \<Rightarrow> bool \<Rightarrow> tmem" where
  "example_tree refs deleted =
     \<lparr>trees = \<lparr>cells = \<lambda>_. \<lparr>tr_root = 0x102, tr_cmp = default_comparer, tr_len = 3\<rparr>, live = {0x10}\<rparr>,
      tnodes = \<lparr>cells = (\<lambda>n.
         if n = 0x102 then \<lparr>tn_key = 2, tn_val = 20, tn_height = 2, tn_refcount = 0, tn_delete = False,
           tn_parent = NULL, tn_left = 0x101, tn_right = 0x103\<rparr>
         else if n = 0x101 then \<lparr>tn_key = 1, tn_val = 10, tn_height = 1, tn_refcount = refs, tn_delete = deleted,
           tn_parent = 0x102, tn_left = NULL, tn_right = NULL\<rparr>
         else \<lparr>tn_key = 3, tn_val = 30, tn_height = 1, tn_refcount = 0, tn_delete = False,
           tn_parent = 0x102, tn_left = NULL, tn_right = NULL\<rparr>), live = {0x101, 0x102, 0x103}\<rparr>,
      titers = \<lparr>cells = \<lambda>_. \<lparr>ti_n = 0x101, ti_prev = NULL\<rparr>, live = {0x20}\<rparr>\<rparr>"

abbreviation example_shape :: "ptr tree" where
  "example_shape \<equiv> Node (Node Leaf 0x101 Leaf) 0x102 (Node Leaf 0x103 Leaf)"

lemmas field_defs = lf_def rt_def pa_def ht_def nkey_def nval_def nref_def ndel_def nd_def

lemma example_tree_inv: "tree_inv (example_tree r d) 0x10 example_shape"
  by (simp add: tree_inv_def at_def example_tree_def valid_def small_def keys_sorted_def field_defs
      default_comparer_def del: nd_sel nd_data)

lemma tree_walk_in_order_witness:
  "\<exists>m1 m2. tree_iterator (example_tree 0 False) 0x10 0x30 = Some (m1, 0x30) \<and> ti_n (iter m1 0x30) = 0x101 \<and>
     next_times 3 m1 0x10 0x30 = Some (m2, [0x102, 0x103, NULL]) \<and>
     tree_iterator_eof m2 0x10 0x30 = Some True \<and> tree_inv m2 0x10 example_shape \<and>
     contents m2 example_shape = [(1, 10), (2, 20), (3, 30)]"
proof -
  have "fresh (titers (example_tree 0 False)) 0x30" "\<forall>n \<in> set_tree example_shape. \<not> ndel (example_tree 0 False) n"
    by (simp_all add: example_tree_def fresh_def ndel_def nd_def del: nd_sel nd_data)
  moreover have "contents (example_tree 0 False) example_shape = [(1, 10), (2, 20), (3, 30)]"
    by (simp add: contents_def example_tree_def field_defs del: nd_sel nd_data)
  ultimately show ?thesis
    using tree_walk_in_order [OF example_tree_inv [of 0 False], of "0x30"] by (simp add: numeral_3_eq_3)
qed

text \<open>
  C8. Moving an iterator off a node that was deleted while this iterator was the only one referring
  to it faults: \<open>remove_node\<close> frees the node and \<open>free_node_if_needed\<close> frees it a second time.
\<close>

theorem tree_next_double_free:
  assumes "tree_inv m t T" "tr_cmp (meta m t) = default_comparer" "x \<in> set_tree T"
    and "valid (titers m) i" "ti_n (iter m i) = x" "nref m x = 1" "nval m x \<noteq> TREE_NOTFOUND"
  shows "\<exists>m'. tree_delete m t (nkey m x) = Some m' \<and> tree_next m' t i = None"
proof -
  let ?m = "setn m x (tn_delete_update (\<lambda>_. True))"
  have del: "tree_delete m t (nkey m x) = Some ?m" "tree_inv ?m t T"
    using default_cmp.tree_delete_referenced [OF assms(1-3), of "nkey m x"] assms(6,7) by auto
  obtain xs ys where io: "inorder T = xs @ x # ys"
    using assms(3) set_inorder [of T] by (metis split_list)
  have "tree_next ?m t i = None"
    using assms(2,4-6) by (intro tree_next_deleted [OF del(2) _ io]) simp_all
  with del(1) show ?thesis
    by blast
qed

lemma tree_next_double_free_witness:
  "\<exists>m'. tree_delete (example_tree 1 False) 0x10 1 = Some m' \<and> tree_next m' 0x10 0x20 = None"
  using tree_next_double_free [OF example_tree_inv [of 1 False], of "0x101" "0x20"]
  by (simp add: example_tree_def field_defs valid_def TREE_NOTFOUND_def del: nd_sel nd_data)

definition lopsided :: "ptr tree" where
  "lopsided =
     Node (Node (Node (Node Leaf 1 Leaf) 2 (Node Leaf 3 Leaf)) 4 (Node (Node Leaf 5 Leaf) 6 (Node Leaf 7 Leaf))) 8
       (Node (Node Leaf 9 Leaf) 10 Leaf)"

lemma lopsided_removed:
  "\<not> avl (remove_at (sink Top
     (Node (Node (Node Leaf 1 Leaf) 2 (Node Leaf 3 Leaf)) 4 (Node (Node Leaf 5 Leaf) 6 (Node Leaf 7 Leaf))) 8
       (Node (Node Leaf 9 Leaf) 10 Leaf)))"
  by (simp add: remove_at_def fix_up.simps)

text \<open>
  C9. Deletion does not keep the tree balanced: deleting the root of this balanced tree of ten nodes
  leaves a tree that is not balanced, for every placement of its keys and values.
\<close>

theorem tree_delete_unbalances:
  assumes "tree_inv m t lopsided" "tr_cmp (meta m t) = default_comparer" "nref m 8 = 0" "nval m 8 \<noteq> TREE_NOTFOUND"
  shows "avl lopsided \<and> (\<exists>m' T'. tree_delete m t (nkey m 8) = Some m' \<and> tree_inv m' t T' \<and> \<not> avl T')"
proof -
  let ?l = "Node (Node (Node Leaf 1 Leaf) 2 (Node Leaf 3 Leaf)) 4 (Node (Node Leaf 5 Leaf) 6 (Node Leaf 7 Leaf))"
    and ?r = "Node (Node Leaf 9 Leaf) 10 Leaf"
  have T: "lopsided = plug Top (Node ?l 8 ?r)" "8 \<in> set_tree lopsided" "avl lopsided"
    by (simp_all add: lopsided_def)
  note d = default_cmp.tree_delete_unreferenced [OF assms(1,2) T(2) _ assms(4,3), of "nkey m 8"]
  obtain m' where "tree_delete m t (nkey m 8) = Some m'" "tree_inv m' t (remove_at (sink Top ?l 8 ?r))"
    using default_cmp.remove_node_shape [OF d(2) [unfolded T(1)] d(3)] d(1) by auto
  then show ?thesis
    using T(3) lopsided_removed by blast
qed

definition lopsided_mem :: tmem where
  "lopsided_mem =
     (let link = (\<lambda>n h p l r. \<lparr>tn_key = n, tn_val = n, tn_height = h, tn_refcount = 0, tn_delete = False,
           tn_parent = p, tn_left = l, tn_right = r\<rparr>) in
      \<lparr>trees = \<lparr>cells = \<lambda>_. \<lparr>tr_root = 8, tr_cmp = default_comparer, tr_len = 10\<rparr>, live = {0x10}\<rparr>,
       tnodes = \<lparr>cells = (\<lambda>n.
          if n = 8 then link n 4 0 4 10 else if n = 4 then link n 3 8 2 6 else if n = 10 then link n 2 8 9 0
          else if n = 2 then link n 2 4 1 3 else if n = 6 then link n 2 4 5 7
          else link n 1 (if n = 9 then 10 else if n = 1 \<or> n = 3 then 2 else 6) 0 0),
        live = {1, 2, 3, 4, 5, 6, 7, 8, 9, 10}\<rparr>,
       titers = empty_heap (\<lambda>_. \<lparr>ti_n = 0, ti_prev = 0\<rparr>)\<rparr>)"

lemma lopsided_inv: "tree_inv lopsided_mem 0x10 lopsided"
  by (simp add: tree_inv_def at_def lopsided_mem_def lopsided_def valid_def small_def keys_sorted_def field_defs
      default_comparer_def Let_def del: nd_sel nd_data)

lemma tree_delete_unbalances_witness:
  "avl lopsided \<and> (\<exists>m' T'. tree_delete lopsided_mem 0x10 8 = Some m' \<and> tree_inv m' 0x10 T' \<and> \<not> avl T')"
  using tree_delete_unbalances [OF lopsided_inv]
  by (simp add: lopsided_mem_def field_defs TREE_NOTFOUND_def Let_def del: nd_sel nd_data)

text \<open>
  \<open>create_tree\<close> leaves \<open>len\<close> unassigned: when the allocated memory holds \<open>-1\<close> there, a key inserted
  into the new tree is not found by the search for it.
\<close>

theorem create_tree_uninitialised_len:
  assumes "fresh (trees m) t" "tr_len (meta m t) = -1" "fresh (tnodes m) n"
  shows "\<exists>m1 m2. create_tree m t = Some (m1, t) \<and> tree_insert m1 t k v n = Some m2 \<and>
    tree_search m2 t k = Some TREE_NOTFOUND"
proof -
  define m1 where "m1 = setm (m\<lparr>trees := malloc (trees m) t\<rparr>) t (\<lambda>x. x\<lparr>tr_root := NULL, tr_cmp := default_comparer\<rparr>)"
  have t: "t \<noteq> NULL" "valid (trees m1) t"
    using assms(1) by (auto simp: fresh_def m1_def malloc_def valid_def)
  have "create_tree m t = Some (m1, t)"
    using assms(1)
    by (simp add: create_tree_def create_tree_cmp_def fresh_def wr_meta_def upd_def malloc_def m1_def setm_def Let_def)
  moreover have meta: "tr_len (meta m1 t) = -1" "tr_root (meta m1 t) = NULL" and fr: "fresh (tnodes m1) n"
    using assms by (simp_all add: m1_def setm_def malloc_def fresh_def)
  have "tree_search m1 t k = Some TREE_NOTFOUND"
    using t meta by (simp add: tree_search_def load_def search_loop.simps)
  then have "tree_insert m1 t k v n = Some (setm (new_node_in m1 t k v n) t (tr_root_update (\<lambda>_. n)))"
    using t meta
    by (simp add: tree_insert_def Let_def new_node_exec [OF fr]) (simp add: load_def valid_def tree_simps)
  moreover have "tree_search (setm (new_node_in m1 t k v n) t (tr_root_update (\<lambda>_. n))) t k = Some TREE_NOTFOUND"
    using t meta by (simp add: tree_search_def load_def valid_def)
  ultimately show ?thesis
    by blast
qed

lemma create_tree_uninitialised_len_witness:
  "\<exists>m1 m2. create_tree (empty_tree (-1)) 0x18 = Some (m1, 0x18) \<and>
     tree_insert m1 0x18 5 50 0x100 = Some m2 \<and> tree_search m2 0x18 5 = Some TREE_NOTFOUND"
  by (rule create_tree_uninitialised_len) (simp_all add: empty_tree_def empty_heap_def fresh_def)

end
