(* ===== verification/Forge_List.thy ===== *)
theory Forge_List
  imports Forge_Heap
begin

text \<open>
  The doubly linked list of \<open>src/src/kernel/llist.c\<close>. Its functions keep the \<open>next\<close> links and the tail
  of the list right, but not the \<open>prev\<close> links, and not every index means what it says. \<open>list_rep\<close>
  describes the part that is kept; it is enough for lists used at both ends (\<open>deque\<close>). The properties
  say where the other uses go wrong.
\<close>

section \<open>Model of llist.c\<close>

record lnode =
  ln_p :: ptr
  ln_next :: ptr
  ln_prev :: ptr

record llist =
  ll_len :: u32
  ll_head :: ptr
  ll_tail :: ptr

record lmem =
  lists :: "llist heap"
  lnodes :: "lnode heap"

definition create_list :: "lmem \<Rightarrow> ptr \<Rightarrow> (lmem \<times> ptr) option" where
  "create_list m l = do {
     let h = malloc (lists m) l;
     h \<leftarrow> upd h l (\<lambda>x. x\<lparr>ll_tail := NULL, ll_head := NULL\<rparr>);
     h \<leftarrow> upd h l (\<lambda>x. x\<lparr>ll_len := 0\<rparr>);
     Some (m\<lparr>lists := h\<rparr>, l)
   }"

partial_function (option) delete_list_loop :: "lmem \<Rightarrow> ptr \<Rightarrow> lmem option" where
  "delete_list_loop m n =
     (if n = NULL then Some m
      else do {
        nd \<leftarrow> load (lnodes m) n;
        h \<leftarrow> free (lnodes m) n;
        delete_list_loop (m\<lparr>lnodes := h\<rparr>) (ln_next nd)
      })"

definition delete_list :: "lmem \<Rightarrow> ptr \<Rightarrow> lmem option" where
  "delete_list m p =
     (if p = NULL then Some m
      else do {
        l \<leftarrow> load (lists m) p;
        delete_list_loop m (ll_head l)
      })"

text \<open>The loop \<open>while(i != index)\<close> of \<open>list_insert\<close>; \<open>half\<close> tells from which end it comes.\<close>

partial_function (option) insert_walk :: "lmem \<Rightarrow> bool \<Rightarrow> ptr \<Rightarrow> u32 \<Rightarrow> u32 \<Rightarrow> ptr option" where
  "insert_walk m half tmp i index =
     (if i = index then Some tmp
      else if half then do {
        nd \<leftarrow> load (lnodes m) tmp;
        insert_walk m half (ln_prev nd) (i - 1) index
      } else do {
        nd \<leftarrow> load (lnodes m) tmp;
        insert_walk m half (ln_next nd) (i + 1) index
      })"

definition list_insert :: "lmem \<Rightarrow> ptr \<Rightarrow> ptr \<Rightarrow> u32 \<Rightarrow> ptr \<Rightarrow> lmem option" where
  "list_insert m list data index n =
     (if list = NULL then Some m
      else do {
        let m = m\<lparr>lnodes := malloc (lnodes m) n\<rparr>;
        h \<leftarrow> upd (lnodes m) n (\<lambda>x. x\<lparr>ln_p := data\<rparr>);
        let m = m\<lparr>lnodes := h\<rparr>;
        l \<leftarrow> load (lists m) list;
        m \<leftarrow> (if ll_len l = 0 then do {
               h \<leftarrow> upd (lists m) list (\<lambda>x. x\<lparr>ll_tail := n, ll_head := n\<rparr>);
               Some (m\<lparr>lists := h\<rparr>)
             } else if index = 0 then do {
               h \<leftarrow> upd (lnodes m) n (\<lambda>x. x\<lparr>ln_next := ll_head l\<rparr>);
               h \<leftarrow> upd h n (\<lambda>x. x\<lparr>ln_prev := NULL\<rparr>);
               g \<leftarrow> upd (lists m) list (\<lambda>x. x\<lparr>ll_head := n\<rparr>);
               Some (m\<lparr>lnodes := h, lists := g\<rparr>)
             } else if index \<ge> ll_len l - 1 then do {
               h \<leftarrow> upd (lnodes m) (ll_tail l) (\<lambda>x. x\<lparr>ln_next := n\<rparr>);
               h \<leftarrow> upd h n (\<lambda>x. x\<lparr>ln_prev := ll_tail l\<rparr>);
               h \<leftarrow> upd h n (\<lambda>x. x\<lparr>ln_next := NULL\<rparr>);
               g \<leftarrow> upd (lists m) list (\<lambda>x. x\<lparr>ll_tail := n\<rparr>);
               Some (m\<lparr>lnodes := h, lists := g\<rparr>)
             } else do {
               tmp \<leftarrow> (if index > ll_len l div 2 then insert_walk m True (ll_tail l) (ll_len l) index
                       else insert_walk m False (ll_head l) 0 index);
               h \<leftarrow> upd (lnodes m) n (\<lambda>x. x\<lparr>ln_prev := tmp\<rparr>);
               t \<leftarrow> load h tmp;
               h \<leftarrow> upd h n (\<lambda>x. x\<lparr>ln_next := ln_next t\<rparr>);
               h \<leftarrow> upd h tmp (\<lambda>x. x\<lparr>ln_next := n\<rparr>);
               Some (m\<lparr>lnodes := h\<rparr>)
             });
        l \<leftarrow> load (lists m) list;
        g \<leftarrow> (if ll_tail l = NULL then upd (lists m) list (\<lambda>x. x\<lparr>ll_tail := ll_head x\<rparr>) else Some (lists m));
        g \<leftarrow> upd g list (\<lambda>x. x\<lparr>ll_len := ll_len x + 1\<rparr>);
        Some (m\<lparr>lists := g\<rparr>)
      })"

text \<open>The loop \<open>while(i < index)\<close> that \<open>list_at\<close> and \<open>list_remove\<close> share.\<close>

partial_function (option) next_walk :: "lmem \<Rightarrow> ptr \<Rightarrow> u32 \<Rightarrow> u32 \<Rightarrow> ptr option" where
  "next_walk m n i index =
     (if i < index then do {
        nd \<leftarrow> load (lnodes m) n;
        next_walk m (ln_next nd) (i + 1) index
      } else Some n)"

definition list_at :: "lmem \<Rightarrow> ptr \<Rightarrow> u32 \<Rightarrow> ptr option" where
  "list_at m list index =
     (if list = NULL then Some NULL
      else do {
        l \<leftarrow> load (lists m) list;
        if index \<ge> ll_len l then Some NULL
        else do {
          ret \<leftarrow> (if index = 0 then Some (ll_head l)
                 else if index \<ge> ll_len l - 1 then Some (ll_tail l)
                 else next_walk m (ll_head l) 0 index);
          nd \<leftarrow> load (lnodes m) ret;
          Some (ln_p nd)
        }
      })"

definition list_len :: "lmem \<Rightarrow> ptr \<Rightarrow> u32 option" where
  "list_len m list =
     (if list = NULL then Some 0
      else do {
        l \<leftarrow> load (lists m) list;
        Some (ll_len l)
      })"

definition list_remove :: "lmem \<Rightarrow> ptr \<Rightarrow> u32 \<Rightarrow> lmem option" where
  "list_remove m list index =
     (if list = NULL then Some m
      else do {
        l \<leftarrow> load (lists m) list;
        (m, n) \<leftarrow>
          (if index = 0 then
             (if ll_head l = ll_tail l then do {
                g \<leftarrow> upd (lists m) list (\<lambda>x. x\<lparr>ll_tail := NULL, ll_head := NULL\<rparr>);
                Some (m\<lparr>lists := g\<rparr>, ll_head l)
              } else do {
                nd \<leftarrow> load (lnodes m) (ll_head l);
                g \<leftarrow> upd (lists m) list (\<lambda>x. x\<lparr>ll_head := ln_next nd\<rparr>);
                h \<leftarrow> upd (lnodes m) (ln_next nd) (\<lambda>x. x\<lparr>ln_prev := NULL\<rparr>);
                Some (m\<lparr>lists := g, lnodes := h\<rparr>, ll_head l)
              })
           else if index \<ge> ll_len l - 1 then do {
             nd \<leftarrow> load (lnodes m) (ll_tail l);
             g \<leftarrow> upd (lists m) list (\<lambda>x. x\<lparr>ll_tail := ln_prev nd\<rparr>);
             h \<leftarrow> upd (lnodes m) (ln_prev nd) (\<lambda>x. x\<lparr>ln_next := NULL\<rparr>);
             Some (m\<lparr>lists := g, lnodes := h\<rparr>, ll_tail l)
           } else do {
             n \<leftarrow> next_walk m (ll_head l) 0 index;
             nd \<leftarrow> load (lnodes m) n;
             h \<leftarrow> upd (lnodes m) (ln_prev nd) (\<lambda>x. x\<lparr>ln_next := ln_next nd\<rparr>);
             nd \<leftarrow> load h n;
             h \<leftarrow> upd h (ln_next nd) (\<lambda>x. x\<lparr>ln_prev := ln_prev nd\<rparr>);
             Some (m\<lparr>lnodes := h\<rparr>, n)
           });
        h \<leftarrow> free (lnodes m) n;
        g \<leftarrow> upd (lists m) list (\<lambda>x. x\<lparr>ll_len := ll_len x - 1\<rparr>);
        Some (m\<lparr>lnodes := h, lists := g\<rparr>)
      })"

section \<open>What the functions keep\<close>

definition lnext :: "lmem \<Rightarrow> ptr \<Rightarrow> ptr" where
  "lnext m n = ln_next (cells (lnodes m) n)"

definition lval :: "lmem \<Rightarrow> ptr \<Rightarrow> ptr" where
  "lval m n = ln_p (cells (lnodes m) n)"

abbreviation lctl :: "lmem \<Rightarrow> ptr \<Rightarrow> llist" where
  "lctl m l \<equiv> cells (lists m) l"

text \<open>
  The nodes \<open>ns\<close> are linked by \<open>next\<close>; what the last node's \<open>next\<close> holds does not matter, since the
  first node of a list never gets one.
\<close>

definition list_rep :: "lmem \<Rightarrow> ptr \<Rightarrow> ptr list \<Rightarrow> ptr list \<Rightarrow> bool" where
  "list_rep m l ns xs \<longleftrightarrow>
     valid (lists m) l \<and> distinct ns \<and> (\<forall>n \<in> set ns. valid (lnodes m) n) \<and>
     successively (\<lambda>a b. lnext m a = b) ns \<and>
     ll_head (lctl m l) = (if ns = [] then NULL else hd ns) \<and>
     ll_tail (lctl m l) = (if ns = [] then NULL else last ns) \<and>
     xs = map (lval m) ns \<and> ll_len (lctl m l) = of_nat (length ns) \<and> length ns < 2 ^ 32"

text \<open>Only the links of the nodes before the last one count.\<close>

lemma linked_cong:
  "\<forall>a \<in> set (butlast ns). f a = g a \<Longrightarrow>
   successively (\<lambda>a b. f a = b) ns \<Longrightarrow> successively (\<lambda>a b. g a = b) ns"
  by (induction ns rule: induct_list012) auto

lemma distinct_butlast_neq_last: "distinct ns \<Longrightarrow> a \<in> set (butlast ns) \<Longrightarrow> a \<noteq> last ns"
  by (cases ns rule: rev_cases) auto

lemma unat_len: "list_rep m l ns xs \<Longrightarrow> unat (ll_len (lctl m l)) = length xs"
  by (simp add: list_rep_def unat_of_nat)

lemma next_walk_rep:
  assumes rep: "list_rep m l ns xs" and k: "unat index < length ns" "unat i \<le> unat index"
  shows "next_walk m (ns ! unat i) i index = Some (ns ! unat index)"
  using k(2)
proof (induction "unat index - unat i" arbitrary: i)
  case 0
  then have "i = index"
    by (simp add: word_unat_eq_iff)
  then show ?case
    by (subst next_walk.simps) simp
next
  case (Suc d)
  then have lt: "unat i < unat index" "i < index"
    by (simp_all add: word_less_nat_alt)
  then have i1: "unat (i + 1) = Suc (unat i)"
    using rep k(1) by (intro unat_Suc_no_overflow) (simp add: list_rep_def)
  have "lnext m (ns ! unat i) = ns ! Suc (unat i)" "valid (lnodes m) (ns ! unat i)"
    using rep lt k(1) by (auto simp: list_rep_def successively_conv_nth)
  then have "next_walk m (ns ! unat i) i index = next_walk m (ns ! unat (i + 1)) (i + 1) index"
    using lt by (subst next_walk.simps) (simp add: heap_simps lnext_def i1)
  also have "\<dots> = Some (ns ! unat index)"
    using Suc.hyps(1) [of "i + 1"] Suc.hyps(2) lt i1 by simp
  finally show ?case .
qed

lemma list_at_rep:
  assumes rep: "list_rep m l ns xs"
  shows "list_at m l index = Some (if unat index < length xs then xs ! unat index else NULL)"
proof -
  have v: "valid (lists m) l" "l \<noteq> NULL" and len: "unat (ll_len (lctl m l)) = length ns" "length xs = length ns"
    using rep unat_len [OF rep] by (auto simp: list_rep_def)
  show ?thesis
  proof (cases "unat index < length ns")
    case False
    then have "ll_len (lctl m l) \<le> index"
      using len by (simp add: word_le_nat_alt)
    with False len v show ?thesis
      by (simp add: list_at_def heap_simps)
  next
    case lt: True
    then have ne: "ns \<noteq> []" "\<not> ll_len (lctl m l) \<le> index"
      using len by (auto simp: word_le_nat_alt)
    have node: "valid (lnodes m) (ns ! unat index)" "ln_p (cells (lnodes m) (ns ! unat index)) = xs ! unat index"
      using rep lt by (auto simp: list_rep_def lval_def)
    have "unat (ll_len (lctl m l) - 1) = length ns - 1"
      using len ne by (subst unat_pred_pos) auto
    then have last: "ll_len (lctl m l) - 1 \<le> index \<longleftrightarrow> unat index = length ns - 1"
      using lt by (auto simp: word_le_nat_alt)
    have hd: "ll_head (lctl m l) = ns ! 0" "ll_tail (lctl m l) = ns ! (length ns - 1)"
      using rep ne by (simp_all add: list_rep_def hd_conv_nth last_conv_nth)
    have "(if index = 0 then Some (ll_head (lctl m l))
       else if index \<ge> ll_len (lctl m l) - 1 then Some (ll_tail (lctl m l))
       else next_walk m (ll_head (lctl m l)) 0 index) = Some (ns ! unat index)"
      using next_walk_rep [OF rep lt, of 0] hd last by auto
    with v ne node lt len show ?thesis
      by (simp add: list_at_def heap_simps)
  qed
qed

lemma list_at_nth:
  assumes "list_rep m l ns xs" "k \<le> length xs"
  shows "list_at m l (of_nat k) = Some (if k < length xs then xs ! k else NULL)"
proof -
  have "k < 2 ^ 32"
    using assms by (auto simp: list_rep_def)
  then have "unat (of_nat k :: u32) = k"
    by (simp add: unat_of_nat take_bit_nat_eq_self)
  with list_at_rep [OF assms(1)] show ?thesis
    by simp
qed

lemma list_at_behind:
  assumes "list_rep m l ns (pre @ rest)"
  shows "list_at m l (of_nat (length pre)) = Some (case rest of [] \<Rightarrow> NULL | c # _ \<Rightarrow> c)"
  using list_at_nth [OF assms, of "length pre"] by (simp split: list.split)

section \<open>Insertion\<close>

lemma list_rep_valid: "list_rep m l ns xs \<Longrightarrow> valid (lists m) l \<and> l \<noteq> NULL"
  by (auto simp: list_rep_def)

text \<open>
  The common shape of the three insertions: the new node \<open>n\<close> holds \<open>x\<close>, the node \<open>t\<close> in front of its
  place, if there is one, now points to it, and the control block has the new ends and length.
\<close>

lemma list_rep_split:
  assumes rep: "list_rep m l (as @ bs) xs" and n: "fresh (lnodes m) n" and len: "length (as @ bs) + 1 < 2 ^ 32"
    and live: "valid (lists m') l" "live (lnodes m') = insert n (live (lnodes m))"
    and next_n: "bs \<noteq> [] \<longrightarrow> lnext m' n = hd bs" and next_t: "as \<noteq> [] \<longrightarrow> lnext m' (last as) = n"
    and other: "\<forall>k. k \<noteq> n \<longrightarrow> lval m' k = lval m k" "lval m' n = x"
      "\<forall>k. k \<noteq> n \<and> (as \<noteq> [] \<longrightarrow> k \<noteq> last as) \<longrightarrow> lnext m' k = lnext m k"
    and ctl: "ll_head (lctl m' l) = hd (as @ [n])" "ll_tail (lctl m' l) = last (n # bs)"
      "ll_len (lctl m' l) = ll_len (lctl m l) + 1"
  shows "list_rep m' l (as @ n # bs) (take (length as) xs @ x # drop (length as) xs)"
proof -
  have dist: "distinct (as @ bs)" "n \<notin> set (as @ bs)" "n \<noteq> NULL"
    and v: "\<forall>k \<in> set (as @ bs). valid (lnodes m) k" and xs: "xs = map (lval m) (as @ bs)"
    and suc: "successively (\<lambda>a b. lnext m a = b) (as @ bs)" and l: "ll_len (lctl m l) = of_nat (length (as @ bs))"
    using rep n by (auto simp: list_rep_def fresh_def valid_def)
  have "successively (\<lambda>a b. lnext m' a = b) as"
  proof (rule linked_cong)
    show "successively (\<lambda>a b. lnext m a = b) as"
      using suc by (simp add: successively_append_iff)
    show "\<forall>a \<in> set (butlast as). lnext m a = lnext m' a"
      using dist other(3) distinct_butlast_neq_last [of as] in_set_butlastD [of _ as] by (metis UnCI distinct_append set_append)
  qed
  moreover have "successively (\<lambda>a b. lnext m' a = b) bs"
  proof (rule linked_cong)
    show "successively (\<lambda>a b. lnext m a = b) bs"
      using suc by (simp add: successively_append_iff)
    have "a \<noteq> n \<and> (as \<noteq> [] \<longrightarrow> a \<noteq> last as)" if "a \<in> set bs" for a
      using that dist by (metis UnCI disjoint_iff distinct_append last_in_set set_append)
    then show "\<forall>a \<in> set (butlast bs). lnext m a = lnext m' a"
      using other(3) by (metis in_set_butlastD)
  qed
  ultimately have "successively (\<lambda>a b. lnext m' a = b) (as @ n # bs)"
    using next_n next_t by (cases bs) (auto simp: successively_append_iff)
  moreover have "map (lval m') (as @ n # bs) = take (length as) xs @ x # drop (length as) xs"
    using dist other(1,2) xs by auto
  moreover have "distinct (as @ n # bs)" "\<forall>k \<in> set (as @ n # bs). valid (lnodes m') k"
    using dist v live by (auto simp: valid_def)
  ultimately show ?thesis
    using live(1) ctl l len by (cases as) (simp_all add: list_rep_def)
qed

lemma list_insert_empty:
  assumes rep: "list_rep m l [] []" and n: "fresh (lnodes m) n"
  shows "\<exists>m'. list_insert m l x index n = Some m' \<and> list_rep m' l [n] [x] \<and>
    live (lnodes m') = insert n (live (lnodes m)) \<and>
    ln_prev (cells (lnodes m') n) = ln_prev (cells (lnodes m) n)"
proof -
  have v: "valid (lists m) l" "l \<noteq> NULL" "n \<noteq> NULL" "ll_len (lctl m l) = 0"
    using rep n by (auto simp: list_rep_def fresh_def)
  then show ?thesis
    by (auto simp: list_insert_def heap_simps Let_def list_rep_def lval_def)
qed

lemma list_rep_last: "list_rep m l ns xs \<Longrightarrow> ns \<noteq> [] \<Longrightarrow> valid (lnodes m) (last ns)"
  by (simp add: list_rep_def)

lemma list_insert_front:
  assumes rep: "list_rep m l ns xs" and n: "fresh (lnodes m) n" and len: "length xs + 1 < 2 ^ 32"
  shows "\<exists>m'. list_insert m l x 0 n = Some m' \<and> list_rep m' l (n # ns) (x # xs) \<and>
    live (lnodes m') = insert n (live (lnodes m)) \<and>
    (\<forall>k \<in> set ns. cells (lnodes m') k = cells (lnodes m) k)"
proof (cases "ns = []")
  case True
  with rep n show ?thesis
    using list_insert_empty [of m l n x 0] by (auto simp: list_rep_def)
next
  case False
  have v: "valid (lists m) l" "l \<noteq> NULL" "n \<noteq> NULL" "ll_len (lctl m l) \<noteq> 0" "ll_tail (lctl m l) \<noteq> NULL"
    and hd: "ll_head (lctl m l) = hd ns" "ll_tail (lctl m l) = last ns"
    using rep n False unat_len [OF rep] valid_nonnull [OF list_rep_last [OF rep False]]
    by (auto simp: list_rep_def fresh_def)
  define m' where "m' = m\<lparr>
      lnodes := (lnodes m)\<lparr>cells := (cells (lnodes m))
        (n := (cells (lnodes m) n)\<lparr>ln_p := x, ln_next := hd ns, ln_prev := NULL\<rparr>), live := insert n (live (lnodes m))\<rparr>,
      lists := (lists m)\<lparr>cells := (cells (lists m))(l := (lctl m l)\<lparr>ll_head := n, ll_len := ll_len (lctl m l) + 1\<rparr>)\<rparr>\<rparr>"
  have "list_insert m l x 0 n = Some m'"
    using v hd by (simp add: list_insert_def heap_simps Let_def m'_def)
  moreover have "list_rep m' l ([] @ n # ns) (take (length ([] :: ptr list)) xs @ x # drop (length ([] :: ptr list)) xs)"
    by (rule list_rep_split [of m])
      (use rep n len v hd False in \<open>auto simp: m'_def lnext_def lval_def list_rep_def\<close>)
  moreover have "live (lnodes m') = insert n (live (lnodes m))" "\<forall>k \<in> set ns. cells (lnodes m') k = cells (lnodes m) k"
    using n rep by (auto simp: m'_def list_rep_def fresh_def valid_def)
  ultimately show ?thesis
    by simp
qed

lemma list_insert_back:
  assumes rep: "list_rep m l ns xs" and n: "fresh (lnodes m) n" and len: "length xs + 1 < 2 ^ 32"
    and index: "length xs \<le> Suc (unat index)" "xs \<noteq> [] \<longrightarrow> index \<noteq> 0"
  shows "\<exists>m'. list_insert m l x index n = Some m' \<and> list_rep m' l (ns @ [n]) (xs @ [x])"
proof (cases "ns = []")
  case True
  with rep n show ?thesis
    using list_insert_empty [of m l n x index] by (auto simp: list_rep_def)
next
  case False
  have ne: "ll_len (lctl m l) \<noteq> 0" "xs \<noteq> []" "length xs = length ns"
    using rep False unat_len [OF rep] by (auto simp: list_rep_def)
  have v: "valid (lists m) l" "l \<noteq> NULL" "n \<noteq> NULL" "last ns \<in> live (lnodes m)" "last ns \<noteq> NULL" "last ns \<noteq> n"
    and hd: "ll_head (lctl m l) = hd ns" "ll_tail (lctl m l) = last ns"
    using rep n False last_in_set [OF False] by (auto simp: list_rep_def fresh_def valid_def)
  have ge: "ll_len (lctl m l) - 1 \<le> index"
    using index(1) unat_len [OF rep] ne by (simp add: word_le_nat_alt unat_pred_pos)
  define m' where "m' = m\<lparr>
      lnodes := (lnodes m)\<lparr>cells := (cells (lnodes m))
        (last ns := (cells (lnodes m) (last ns))\<lparr>ln_next := n\<rparr>,
         n := (cells (lnodes m) n)\<lparr>ln_p := x, ln_prev := last ns, ln_next := NULL\<rparr>), live := insert n (live (lnodes m))\<rparr>,
      lists := (lists m)\<lparr>cells := (cells (lists m))(l := (lctl m l)\<lparr>ll_tail := n, ll_len := ll_len (lctl m l) + 1\<rparr>)\<rparr>\<rparr>"
  have "list_insert m l x index n = Some m'"
    using v hd ne index(2) ge by (simp add: list_insert_def heap_simps Let_def m'_def fun_upd_twist)
  moreover have "list_rep m' l (ns @ n # []) (take (length ns) xs @ x # drop (length ns) xs)"
    by (rule list_rep_split [of m])
      (use rep n len v hd False ne in \<open>auto simp: m'_def lnext_def lval_def list_rep_def\<close>)
  ultimately show ?thesis
    using ne by simp
qed

text \<open>Inserting in the first half of the list puts the value behind the given index, not at it.\<close>

lemma insert_walk_front:
  assumes rep: "list_rep m l ns xs" and k: "unat index < length ns" "unat i \<le> unat index"
    and eq: "\<forall>k \<in> set ns. lnext m' k = lnext m k \<and> valid (lnodes m') k"
  shows "insert_walk m' False (ns ! unat i) i index = Some (ns ! unat index)"
  using k(2)
proof (induction "unat index - unat i" arbitrary: i)
  case 0
  then have "i = index"
    by (simp add: word_unat_eq_iff)
  then show ?case
    by (subst insert_walk.simps) simp
next
  case (Suc d)
  then have lt: "unat i < unat index" "i \<noteq> index"
    by auto
  then have i1: "unat (i + 1) = Suc (unat i)"
    using rep k(1) by (intro unat_Suc_no_overflow) (simp add: list_rep_def)
  have "lnext m' (ns ! unat i) = ns ! Suc (unat i)" "valid (lnodes m') (ns ! unat i)"
    using rep lt k(1) eq by (auto simp: list_rep_def successively_conv_nth)
  then have "insert_walk m' False (ns ! unat i) i index = insert_walk m' False (ns ! unat (i + 1)) (i + 1) index"
    using lt by (subst insert_walk.simps) (simp add: heap_simps lnext_def i1)
  also have "\<dots> = Some (ns ! unat index)"
    using Suc.hyps(1) [of "i + 1"] Suc.hyps(2) lt i1 by simp
  finally show ?case .
qed

lemma list_insert_first_half:
  assumes rep: "list_rep m l ns xs" and n: "fresh (lnodes m) n" and len: "length xs + 1 < 2 ^ 32"
    and index: "index \<noteq> 0" "unat index \<le> length xs div 2" "Suc (unat index) < length xs"
  shows "\<exists>m'. list_insert m l x index n = Some m' \<and>
    list_rep m' l (take (Suc (unat index)) ns @ n # drop (Suc (unat index)) ns)
      (take (Suc (unat index)) xs @ x # drop (Suc (unat index)) xs)"
proof -
  let ?j = "Suc (unat index)" and ?t = "ns ! unat index"
  let ?m0 = "m\<lparr>lnodes := (lnodes m)\<lparr>cells := (cells (lnodes m))(n := (cells (lnodes m) n)\<lparr>ln_p := x\<rparr>),
                                   live := insert n (live (lnodes m))\<rparr>\<rparr>"
  have ln: "length xs = length ns" "unat (ll_len (lctl m l)) = length ns" "ns \<noteq> []"
    using rep unat_len [OF rep] index(3) by (auto simp: list_rep_def)
  have v: "valid (lists m) l" "l \<noteq> NULL" "n \<noteq> NULL" "n \<notin> set ns"
    "ll_tail (lctl m l) \<noteq> NULL" "?t \<in> set ns" "?t \<in> live (lnodes m)" "?t \<noteq> NULL" "?t \<noteq> n"
    using rep n ln index(3) valid_nonnull [OF list_rep_last [OF rep ln(3)]]
    by (auto simp: list_rep_def fresh_def valid_def)
  have ne: "ll_len (lctl m l) \<noteq> 0"
    using ln by auto
  have cond: "\<not> ll_len (lctl m l) - 1 \<le> index" "\<not> ll_len (lctl m l) div 2 < index"
    using ln index unat_pred_pos [OF ne] by (auto simp: word_le_nat_alt word_less_nat_alt unat_div)
  have "insert_walk ?m0 False (ns ! unat (0 :: u32)) 0 index = Some ?t"
    using rep index(3) ln v(4)
    by (intro insert_walk_front [OF rep]) (auto simp: list_rep_def lnext_def valid_def)
  then have walk: "insert_walk ?m0 False (ll_head (lctl m l)) 0 index = Some ?t"
    using rep ln(3) by (simp add: list_rep_def hd_conv_nth)
  define m' where "m' = m\<lparr>
      lnodes := (lnodes m)\<lparr>cells := (cells (lnodes m))
        (n := (cells (lnodes m) n)\<lparr>ln_p := x, ln_prev := ?t, ln_next := lnext m ?t\<rparr>,
         ?t := (cells (lnodes m) ?t)\<lparr>ln_next := n\<rparr>), live := insert n (live (lnodes m))\<rparr>,
      lists := (lists m)\<lparr>cells := (cells (lists m))(l := (lctl m l)\<lparr>ll_len := ll_len (lctl m l) + 1\<rparr>)\<rparr>\<rparr>"
  have "list_insert m l x index n = Some m'"
    using v ne cond index(1) walk by (simp add: list_insert_def heap_simps Let_def m'_def lnext_def)
  moreover have as: "last (take ?j ns) = ?t" "take ?j ns \<noteq> []" "drop ?j ns \<noteq> []"
    "hd (drop ?j ns) = ns ! ?j" "last (drop ?j ns) = last ns"
    using ln index(3) by (auto simp: take_Suc_conv_app_nth hd_drop_conv_nth last_drop)
  have hd: "hd (take ?j ns) = hd ns"
    using ln(3) by (cases ns) simp_all
  have nxt: "lnext m ?t = ns ! ?j"
    using rep index(3) ln by (simp add: list_rep_def successively_conv_nth)
  have "list_rep m' l (take ?j ns @ n # drop ?j ns)
      (take (length (take ?j ns)) xs @ x # drop (length (take ?j ns)) xs)"
    by (rule list_rep_split [of m]) (use rep n len ln v as hd nxt index(3) in
        \<open>auto simp: m'_def lnext_def lval_def list_rep_def\<close>)
  ultimately show ?thesis
    using ln index(3) by (simp add: min_absorb2)
qed

section \<open>Removal\<close>

lemma list_remove_front:
  assumes rep: "list_rep m l (n # ns) (x # xs)"
  shows "\<exists>m'. list_remove m l 0 = Some m' \<and> list_rep m' l ns xs \<and>
    live (lnodes m') = live (lnodes m) - {n}"
proof (cases ns)
  case Nil
  then show ?thesis
    using rep by (auto simp: list_remove_def heap_simps list_rep_def)
next
  case (Cons k ks)
  have dist: "distinct (n # ns)" and v: "valid (lists m) l" "l \<noteq> NULL" "valid (lnodes m) n" "valid (lnodes m) k"
    and hd: "ll_head (lctl m l) = n" "ll_tail (lctl m l) = last ns" "last ns \<noteq> n" and nx: "lnext m n = k"
    and len: "ll_len (lctl m l) = of_nat (length ns) + 1"
    using rep Cons distinct_butlast_neq_last [of "n # ns" n] by (auto simp: list_rep_def split: if_splits)
  define m' where "m' = m\<lparr>
      lists := (lists m)\<lparr>cells := (cells (lists m))(l := (lctl m l)\<lparr>ll_head := k, ll_len := ll_len (lctl m l) - 1\<rparr>)\<rparr>,
      lnodes := (lnodes m)\<lparr>cells := (cells (lnodes m))(k := (cells (lnodes m) k)\<lparr>ln_prev := NULL\<rparr>),
                          live := live (lnodes m) - {n}\<rparr>\<rparr>"
  have exec: "list_remove m l 0 = Some m'"
    using v hd nx by (simp add: list_remove_def heap_simps m'_def lnext_def)
  have eq: "lnext m' = lnext m" "lval m' = lval m"
    by (auto simp: fun_eq_iff lnext_def lval_def m'_def)
  have sel: "valid (lists m') l" "live (lnodes m') = live (lnodes m) - {n}" "ll_head (lctl m' l) = k"
    "ll_tail (lctl m' l) = last ns" "ll_len (lctl m' l) = of_nat (length ns)"
    using v hd len by (simp_all add: m'_def)
  have "\<forall>q \<in> set ns. valid (lnodes m') q"
    using rep dist sel(2) by (auto simp: list_rep_def valid_def)
  then have "list_rep m' l ns xs"
    using rep Cons dist unfolding list_rep_def eq sel by (auto simp: sel(1))
  with exec sel(2) show ?thesis
    by blast
qed

text \<open>\<open>list_remove\<close> does not test for an empty list and counts below zero.\<close>

lemma list_remove_empty:
  assumes "list_rep m l [] []"
  shows "\<exists>m'. list_remove m l 0 = Some m' \<and> list_len m' l = Some (-1)"
  using assms by (auto simp: list_remove_def list_len_def heap_simps list_rep_def free_def)

text \<open>Removing at the end goes through the \<open>prev\<close> link of the last node.\<close>

lemma list_remove_back_prev:
  assumes rep: "list_rep m l ns xs" and i: "index \<noteq> 0" "length xs \<le> Suc (unat index)" "ns \<noteq> []"
    and bad: "\<not> valid (lnodes m) (ln_prev (cells (lnodes m) (last ns)))"
  shows "list_remove m l index = None"
proof -
  have v: "valid (lists m) l" "l \<noteq> NULL" "ll_tail (lctl m l) = last ns" "valid (lnodes m) (last ns)"
    and len: "length xs = length ns" "unat (ll_len (lctl m l)) = length ns"
    using rep i(3) unat_len [OF rep] by (auto simp: list_rep_def)
  have ne: "ll_len (lctl m l) \<noteq> 0"
    using len i(3) by auto
  have "ll_len (lctl m l) - 1 \<le> index"
    using len i(2) unat_pred_pos [OF ne] by (simp add: word_le_nat_alt)
  then show ?thesis
    using v i(1) bad by (simp add: list_remove_def heap_simps upd_def)
qed

section \<open>Properties\<close>

text \<open>The operations at the two ends and access by index.\<close>

datatype deque_op = PushFront ptr ptr | PushBack ptr ptr | PopFront | Index u32

fun deque_run :: "ptr \<Rightarrow> lmem \<Rightarrow> deque_op list \<Rightarrow> (lmem \<times> ptr list) option" where
  "deque_run l m [] = Some (m, [])"
| "deque_run l m (PushFront x n # ops) = do { m \<leftarrow> list_insert m l x 0 n; deque_run l m ops }"
| "deque_run l m (PushBack x n # ops) = do {
     k \<leftarrow> list_len m l;
     m \<leftarrow> list_insert m l x k n;
     deque_run l m ops
   }"
| "deque_run l m (PopFront # ops) = do { m \<leftarrow> list_remove m l 0; deque_run l m ops }"
| "deque_run l m (Index i # ops) = do {
     x \<leftarrow> list_at m l i;
     (m, out) \<leftarrow> deque_run l m ops;
     Some (m, x # out)
   }"

fun deque_ok :: "ptr \<Rightarrow> lmem \<Rightarrow> deque_op list \<Rightarrow> bool" where
  "deque_ok l m [] = True"
| "deque_ok l m (PushFront x n # ops) =
     (fresh (lnodes m) n \<and> list_len m l \<noteq> Some (-1) \<and>
      (case list_insert m l x 0 n of None \<Rightarrow> True | Some m' \<Rightarrow> deque_ok l m' ops))"
| "deque_ok l m (PushBack x n # ops) =
     (fresh (lnodes m) n \<and> list_len m l \<noteq> Some (-1) \<and>
      (case list_len m l of None \<Rightarrow> True | Some k \<Rightarrow>
        (case list_insert m l x k n of None \<Rightarrow> True | Some m' \<Rightarrow> deque_ok l m' ops)))"
| "deque_ok l m (PopFront # ops) =
     (list_len m l \<noteq> Some 0 \<and> (case list_remove m l 0 of None \<Rightarrow> True | Some m' \<Rightarrow> deque_ok l m' ops))"
| "deque_ok l m (Index i # ops) = deque_ok l m ops"

fun deque_spec :: "ptr list \<Rightarrow> deque_op list \<Rightarrow> ptr list \<times> ptr list" where
  "deque_spec xs [] = (xs, [])"
| "deque_spec xs (PushFront x n # ops) = deque_spec (x # xs) ops"
| "deque_spec xs (PushBack x n # ops) = deque_spec (xs @ [x]) ops"
| "deque_spec xs (PopFront # ops) = deque_spec (tl xs) ops"
| "deque_spec xs (Index i # ops) =
     apsnd (Cons (if unat i < length xs then xs ! unat i else NULL)) (deque_spec xs ops)"

lemma list_len_rep: "list_rep m l ns xs \<Longrightarrow> list_len m l = Some (of_nat (length xs))"
  by (auto simp: list_len_def list_rep_def heap_simps)

lemma list_len_room:
  assumes "list_rep m l ns xs" "list_len m l \<noteq> Some (-1)"
  shows "length xs + 1 < 2 ^ 32"
proof -
  have "(of_nat (length xs) :: u32) \<noteq> -1" "length xs < 2 ^ 32"
    using assms list_len_rep [OF assms(1)] by (auto simp: list_rep_def)
  then have "unat (of_nat (length xs) :: u32) \<noteq> unat (-1 :: u32)"
    by (simp only: word_unat_eq_iff [symmetric] not_False_eq_True)
  then have "length xs \<noteq> 2 ^ 32 - 1"
    using \<open>length xs < 2 ^ 32\<close> by (simp add: unat_of_nat unsigned_minus_1_eq_mask mask_eq_exp_minus_1)
  with \<open>length xs < 2 ^ 32\<close> show ?thesis
    by simp
qed

lemma deque_run_refines:
  "list_rep m l ns xs \<Longrightarrow> deque_ok l m ops \<Longrightarrow>
   \<exists>m' ns'. deque_run l m ops = Some (m', snd (deque_spec xs ops)) \<and>
     list_rep m' l ns' (fst (deque_spec xs ops))"
proof (induction xs ops arbitrary: m ns rule: deque_spec.induct)
  case (2 xs x n ops)
  then obtain m1 where "list_insert m l x 0 n = Some m1" "list_rep m1 l (n # ns) (x # xs)"
    using list_insert_front [OF 2(2), of n x] list_len_room [OF 2(2)] by auto
  with 2 show ?case
    by simp
next
  case (3 xs x n ops)
  have len: "list_len m l = Some (of_nat (length xs))" "length xs + 1 < 2 ^ 32"
    using 3(3) list_len_rep [OF 3(2)] list_len_room [OF 3(2)] by auto
  then have "unat (of_nat (length xs) :: u32) = length xs"
    by (simp add: unat_of_nat)
  then have "length xs \<le> Suc (unat (of_nat (length xs) :: u32))" "xs \<noteq> [] \<longrightarrow> (of_nat (length xs) :: u32) \<noteq> 0"
    by (auto simp: unat_eq_zero [symmetric])
  then obtain m1 where "list_insert m l x (of_nat (length xs)) n = Some m1" "list_rep m1 l (ns @ [n]) (xs @ [x])"
    using list_insert_back [OF 3(2), of n "of_nat (length xs)" x] 3(3) len by auto
  with 3 len show ?case
    by simp
next
  case (4 xs ops)
  have "xs \<noteq> []"
    using 4(2,3) list_len_rep [OF 4(2)] by auto
  then obtain y ys k ks where c: "xs = y # ys" "ns = k # ks"
    using 4(2) by (cases xs; cases ns) (auto simp: list_rep_def)
  then obtain m1 where "list_remove m l 0 = Some m1" "list_rep m1 l ks ys"
    using list_remove_front [of m l k ks y ys] 4(2) by auto
  with 4 c show ?case
    by simp
next
  case (5 xs i ops)
  have "deque_ok l m ops"
    using 5(3) by simp
  from 5(1) [OF 5(2) this] obtain m' ns' where "deque_run l m ops = Some (m', snd (deque_spec xs ops))"
    "list_rep m' l ns' (fst (deque_spec xs ops))"
    by blast
  then show ?case
    using list_at_rep [OF 5(2), of i] by auto
qed auto

text \<open>
  C10. Used at its ends the list is a list: every sequence of insertions at index 0, insertions at
  index \<open>list_len\<close>, removals at index 0 of a list that is not empty and reads by index returns and
  reads what a list gives, NULL beyond its end.
\<close>

theorem list_run_deque:
  assumes "list_rep m l ns xs" "deque_ok l m ops"
  shows "\<exists>m' ns'. deque_run l m ops = Some (m', snd (deque_spec xs ops)) \<and>
    list_rep m' l ns' (fst (deque_spec xs ops))"
  using assms by (rule deque_run_refines)

definition example_list :: "ptr \<Rightarrow> lmem" where
  "example_list prev =
     \<lparr>lists = \<lparr>cells = \<lambda>_. \<lparr>ll_len = 3, ll_head = 0x21, ll_tail = 0x23\<rparr>, live = {0x10}\<rparr>,
      lnodes = \<lparr>cells = (\<lambda>n. if n = 0x21 then \<lparr>ln_p = 1, ln_next = 0x22, ln_prev = 0\<rparr>
          else if n = 0x22 then \<lparr>ln_p = 2, ln_next = 0x23, ln_prev = 0x21\<rparr>
          else \<lparr>ln_p = 3, ln_next = 0, ln_prev = prev\<rparr>), live = {0x21, 0x22, 0x23}\<rparr>\<rparr>"

lemma example_list_rep: "list_rep (example_list p) 0x10 [0x21, 0x22, 0x23] [1, 2, 3]"
  by (simp add: list_rep_def example_list_def valid_def lnext_def lval_def)

lemma list_run_deque_witness:
  "\<exists>m' ns'. deque_run 0x10 (example_list 0x22) [PushFront 7 0x31, PushBack 8 0x32, PopFront, PopFront, Index 0, Index 2, Index 3]
      = Some (m', [2, 8, NULL]) \<and> list_rep m' 0x10 ns' [2, 3, 8]"
  using list_run_deque [OF example_list_rep [of "0x22"],
      of "[PushFront 7 0x31, PushBack 8 0x32, PopFront, PopFront, Index 0, Index 2, Index 3]"]
  by (simp add: example_list_def fresh_def list_len_def list_insert_def list_remove_def load_def upd_def
      malloc_def free_def valid_def Let_def)

text \<open>
  Inserting at an index in the first half of a list, but not at 0 and not at the last place,
  puts the value one place behind that index.
\<close>

theorem list_insert_off_by_one:
  assumes "list_rep m l ns xs" "fresh (lnodes m) n" "length xs + 1 < 2 ^ 32"
    and "index \<noteq> 0" "unat index \<le> length xs div 2" "Suc (unat index) < length xs"
  shows "\<exists>m' ns'. list_insert m l x index n = Some m' \<and>
    list_rep m' l ns' (take (unat index + 1) xs @ x # drop (unat index + 1) xs)"
  using list_insert_first_half [OF assms, of x] by auto

lemma list_insert_off_by_one_witness:
  "\<exists>m' ns'. list_insert (example_list 0x22) 0x10 9 1 0x31 = Some m' \<and> list_rep m' 0x10 ns' [1, 2, 9, 3]"
  using list_insert_off_by_one [OF example_list_rep [of "0x22"], of "0x31" 1 9]
  by (simp add: fresh_def example_list_def)

text \<open>
  C11. Inserting at index 0 does not set the \<open>prev\<close> link of the old first node: with a list built by
  an insertion into the empty list and an insertion at index 0, removing the last element follows
  that link; when the allocator's memory held no node address there, the removal faults.
\<close>

theorem list_remove_stale_prev:
  assumes "list_rep m l [] []" "fresh (lnodes m) a" "fresh (lnodes m) b" "a \<noteq> b"
    and "ln_prev (cells (lnodes m) a) \<notin> live (lnodes m) \<union> {a, b}"
  shows "\<exists>m1 m2. list_insert m l x 0 a = Some m1 \<and> list_insert m1 l y 0 b = Some m2 \<and>
    list_at m2 l 1 = Some x \<and> list_remove m2 l 1 = None"
proof -
  obtain m1 where m1: "list_insert m l x 0 a = Some m1" "list_rep m1 l [a] [x]"
      "live (lnodes m1) = insert a (live (lnodes m))"
      "ln_prev (cells (lnodes m1) a) = ln_prev (cells (lnodes m) a)"
    using list_insert_empty [OF assms(1,2), of x 0] by blast
  obtain m2 where m2: "list_insert m1 l y 0 b = Some m2" "list_rep m2 l [b, a] [y, x]"
      "live (lnodes m2) = insert b (live (lnodes m1))" "cells (lnodes m2) a = cells (lnodes m1) a"
    using list_insert_front [OF m1(2), of b y] m1(3) assms(3,4) by (auto simp: fresh_def)
  have "\<not> valid (lnodes m2) (ln_prev (cells (lnodes m2) (last [b, a])))"
    using m2(3,4) m1(3,4) assms(5) by (auto simp: valid_def)
  then have "list_remove m2 l 1 = None"
    by (intro list_remove_back_prev [OF m2(2)]) simp_all
  moreover have "list_at m2 l 1 = Some x"
    using list_at_rep [OF m2(2), of 1] by simp
  ultimately show ?thesis
    using m1(1) m2(1) by blast
qed

lemma list_remove_stale_prev_witness:
  "\<exists>m1 m2. list_insert \<lparr>lists = \<lparr>cells = \<lambda>_. \<lparr>ll_len = 0, ll_head = 0, ll_tail = 0\<rparr>, live = {0x10}\<rparr>,
       lnodes = empty_heap (\<lambda>_. \<lparr>ln_p = 0, ln_next = 0, ln_prev = 0xBAD\<rparr>)\<rparr> 0x10 7 0 0x21 = Some m1 \<and>
     list_insert m1 0x10 8 0 0x22 = Some m2 \<and> list_at m2 0x10 1 = Some 7 \<and> list_remove m2 0x10 1 = None"
  by (rule list_remove_stale_prev) (simp_all add: list_rep_def fresh_def empty_heap_def valid_def)

end
