(* ===== verification/Forge_Vmem.thy ===== *)
theory Forge_Vmem
  imports Forge_Pmem
begin

text \<open>
  The x86 address space manager, \<open>src/src/kernel/arch/x86/vmem.c\<close>. The state holds physical memory as
  32-bit words (by page frame and index in the frame), the page directory's frame, the primed page
  and the physical page pool. Reads and writes of the kernel go through the two-level translation of
  the processor (\<open>walk\<close>, with 4 MiB pages), because the code edits page tables through the window
  that the last directory entry opens on them. There is no translation cache in the model: every
  change of an entry in the source is followed by \<open>invlpg\<close>.
\<close>

section \<open>The machine\<close>

record vmm =
  vm_mem :: "u32 \<Rightarrow> u32 \<Rightarrow> u32"
  vm_cr3 :: u32
  g_primedpage :: u64
  vm_pmem :: pmem

definition FLAGS_PRESENT :: u32 where "FLAGS_PRESENT = 0x01"
definition FLAGS_WRITEABLE :: u32 where "FLAGS_WRITEABLE = 0x02"
definition FLAGS_USER :: u32 where "FLAGS_USER = 0x04"
definition FLAGS_GLOBAL :: u32 where "FLAGS_GLOBAL = 0x100"

definition PDIR_VIRT :: u32 where "PDIR_VIRT = 0xFFFFF000"
definition PDIR_BASE :: u32 where "PDIR_BASE = 0xFFC00000"
definition PDIR_OFFSET :: "u32 \<Rightarrow> u32" where "PDIR_OFFSET a = drop_bit 22 a AND 0x3FF"
definition PTAB_OFFSET :: "u32 \<Rightarrow> u32" where "PTAB_OFFSET a = drop_bit 12 a AND 0x3FF"
definition PTAB_FROM_VADDR :: "u32 \<Rightarrow> u32" where "PTAB_FROM_VADDR a = PDIR_BASE + push_bit 12 (PDIR_OFFSET a)"

definition VMEM_READWRITE :: u32 where "VMEM_READWRITE = 0x01"
definition VMEM_SUPERVISOR :: u32 where "VMEM_SUPERVISOR = 0"
definition VMEM_USERMODE :: u32 where "VMEM_USERMODE = 0x02"
definition VMEM_GLOBAL :: u32 where "VMEM_GLOBAL = 0x100"

definition PADDR_MASK :: u64 where "PADDR_MASK = 0xFFFFFFFF"

text \<open>The frame a virtual address is translated to; \<open>None\<close> is a page fault.\<close>

definition walk :: "vmm \<Rightarrow> u32 \<Rightarrow> u32 option" where
  "walk m a =
     (let pde = vm_mem m (vm_cr3 m) (drop_bit 22 a) in
      if pde AND 1 = 0 then None
      else if pde AND 0x80 \<noteq> 0 then Some ((pde AND 0xFFC00000) OR (a AND 0x003FF000))
      else
        (let pte = vm_mem m (pde AND 0xFFFFF000) (drop_bit 12 a AND 0x3FF) in
         if pte AND 1 = 0 then None else Some (pte AND 0xFFFFF000)))"

text \<open>\<open>t[i]\<close> for an array \<open>t\<close> of 32-bit words in one page at the page-aligned virtual address \<open>t\<close>.\<close>

definition vread :: "vmm \<Rightarrow> u32 \<Rightarrow> u32 \<Rightarrow> u32 option" where
  "vread m t i = do { f \<leftarrow> walk m t; Some (vm_mem m f i) }"

definition vwrite :: "vmm \<Rightarrow> u32 \<Rightarrow> u32 \<Rightarrow> u32 \<Rightarrow> vmm option" where
  "vwrite m t i x = do {
     f \<leftarrow> walk m t;
     Some (m\<lparr>vm_mem := (vm_mem m)(f := (vm_mem m f)(i := x))\<rparr>)
   }"

text \<open>\<open>memset(t, 0, PAGE_SIZE - 1)\<close>: the last byte of the page keeps its value.\<close>

definition vclear :: "vmm \<Rightarrow> u32 \<Rightarrow> vmm option" where
  "vclear m t = do {
     f \<leftarrow> walk m t;
     Some (m\<lparr>vm_mem := (vm_mem m)(f := (\<lambda>i. if i = 1023 then vm_mem m f i AND 0xFF000000
                                       else if i < 1023 then 0 else vm_mem m f i))\<rparr>)
   }"

section \<open>Model of vmem.c\<close>

definition flags_to_x86 :: "u32 \<Rightarrow> u32" where
  "flags_to_x86 f =
     (let flags = FLAGS_PRESENT;
          flags = (if f AND VMEM_READWRITE \<noteq> 0 then flags OR FLAGS_WRITEABLE else flags);
          flags = (if f AND VMEM_USERMODE \<noteq> 0 then flags OR FLAGS_USER else flags);
          flags = (if f AND VMEM_GLOBAL \<noteq> 0 then flags OR FLAGS_GLOBAL else flags)
      in flags)"

definition arch_vmem_prime :: "vmm \<Rightarrow> u64 \<Rightarrow> vmm" where
  "arch_vmem_prime m p = m\<lparr>g_primedpage := p\<rparr>"

definition vmem_take_page :: "vmm \<Rightarrow> (vmm \<times> u64) option" where
  "vmem_take_page m =
     (if g_primedpage m = 0 then do {
        (pm, p) \<leftarrow> pmem_alloc (vm_pmem m);
        Some (m\<lparr>vm_pmem := pm\<rparr>, p)
      } else Some (m\<lparr>g_primedpage := 0\<rparr>, g_primedpage m))"

text \<open>
  The page table behind \<open>v\<close>, created when the directory has no entry for it; \<open>False\<close> is the early
  return with -1 when no page is left for the table.
\<close>

definition vmem_need_ptab :: "vmm \<Rightarrow> u32 \<Rightarrow> (vmm \<times> bool) option" where
  "vmem_need_ptab m v = do {
     e \<leftarrow> vread m PDIR_VIRT (PDIR_OFFSET v);
     let entry = e AND NOT 0xFFF;
     let ptab = PTAB_FROM_VADDR v;
     if entry = 0 then do {
       (m, ptab_phys) \<leftarrow> vmem_take_page m;
       if ptab_phys = 0 then Some (m, False)
       else do {
         m \<leftarrow> vwrite m PDIR_VIRT (PDIR_OFFSET v) (ucast ptab_phys OR FLAGS_PRESENT OR FLAGS_WRITEABLE);
         m \<leftarrow> vclear m ptab;
         Some (m, True)
       }
     } else Some (m, True)
   }"

text \<open>
  The frame to map: a page of the kernel's choice for \<open>~0\<close>, where the panic of the source has no
  result, and otherwise the requested one, aligned.
\<close>

definition vmem_frame :: "vmm \<Rightarrow> u64 \<Rightarrow> (vmm \<times> u64) option" where
  "vmem_frame m p =
     (if p = NOT 0 then do {
        (m, p) \<leftarrow> vmem_take_page m;
        if p = 0 then None else Some (m, p)
      } else if p AND 0xFFF \<noteq> 0 then Some (m, p AND NOT 0xFFF)
      else Some (m, p))"

definition arch_vmem_map :: "vmm \<Rightarrow> u32 \<Rightarrow> u64 \<Rightarrow> u32 \<Rightarrow> (vmm \<times> int) option" where
  "arch_vmem_map m v p f = do {
     let flags = flags_to_x86 f;
     (m, p) \<leftarrow> vmem_frame m p;
     (m, ok) \<leftarrow> vmem_need_ptab m v;
     if ok then do {
       m \<leftarrow> vwrite m (PTAB_FROM_VADDR v) (PTAB_OFFSET v) (ucast (p AND PADDR_MASK) OR flags);
       Some (m, 0)
     } else Some (m, -1)
   }"

definition arch_vmem_ismapped :: "vmm \<Rightarrow> u32 \<Rightarrow> bool option" where
  "arch_vmem_ismapped m v = do {
     e \<leftarrow> vread m PDIR_VIRT (drop_bit 22 v);
     if e AND NOT 0xFFF \<noteq> 0 then do {
       x \<leftarrow> vread m (PTAB_FROM_VADDR v) (PTAB_OFFSET v);
       Some (x AND FLAGS_PRESENT \<noteq> 0)
     } else Some False
   }"

definition arch_vmem_unmap :: "vmm \<Rightarrow> u32 \<Rightarrow> vmm option" where
  "arch_vmem_unmap m v = do {
     b \<leftarrow> arch_vmem_ismapped m v;
     if \<not> b then Some m
     else do {
       x \<leftarrow> vread m (PTAB_FROM_VADDR v) (PTAB_OFFSET v);
       vwrite m (PTAB_FROM_VADDR v) (PTAB_OFFSET v) (x AND NOT FLAGS_PRESENT)
     }
   }"

definition arch_vmem_modify :: "vmm \<Rightarrow> u32 \<Rightarrow> u32 \<Rightarrow> (vmm \<times> int) option" where
  "arch_vmem_modify m v nf = do {
     b \<leftarrow> arch_vmem_ismapped m v;
     if \<not> b then Some (m, -1)
     else do {
       x \<leftarrow> vread m (PTAB_FROM_VADDR v) (PTAB_OFFSET v);
       m \<leftarrow> vwrite m (PTAB_FROM_VADDR v) (PTAB_OFFSET v) (x AND NOT 0xFFF);
       x \<leftarrow> vread m (PTAB_FROM_VADDR v) (PTAB_OFFSET v);
       m \<leftarrow> vwrite m (PTAB_FROM_VADDR v) (PTAB_OFFSET v) (x OR flags_to_x86 nf);
       Some (m, 0)
     }
   }"

definition arch_vmem_v2p :: "vmm \<Rightarrow> u32 \<Rightarrow> u64 option" where
  "arch_vmem_v2p m v = do {
     x \<leftarrow> vread m (PTAB_FROM_VADDR v) (PTAB_OFFSET v);
     if x AND FLAGS_PRESENT \<noteq> 0 then Some ((ucast x AND NOT 0xFFF) OR ucast (v AND 0xFFF))
     else Some 0
   }"

definition arch_vmem_create :: u32 where
  "arch_vmem_create = 0"

definition arch_vmem_switch :: "vmm \<Rightarrow> u32 \<Rightarrow> vmm" where
  "arch_vmem_switch m pd = m"

section \<open>Segment descriptors\<close>

record gdt_entry =
  limit_low :: u16
  base_low :: u16
  base_mid :: u8
  access :: u8
  gran :: u8
  base_high :: u8

text \<open>The table has 16 entries; a write behind it has no result.\<close>

definition gdt_set :: "gdt_entry list \<Rightarrow> int \<Rightarrow> u32 \<Rightarrow> u32 \<Rightarrow> u8 \<Rightarrow> u8 \<Rightarrow> gdt_entry list option" where
  "gdt_set gdt n base limit acc gr =
     (if n > 16 then Some gdt
      else if n < 0 \<or> nat n \<ge> length gdt then None
      else Some (gdt[nat n :=
        \<lparr>limit_low = ucast (limit AND 0xFFFF), base_low = ucast (base AND 0xFFFF),
         base_mid = ucast (drop_bit 16 base AND 0xFF), access = acc,
         gran = ucast ((drop_bit 16 limit AND 0x0F) OR ucast (gr AND 0xF0)),
         base_high = ucast (drop_bit 24 base AND 0xFF)\<rparr>]))"


section \<open>Addresses\<close>

definition page :: "u32 \<Rightarrow> u32" where
  "page a = a AND 0xFFFFF000"

lemma and_not_FFF [simp]: "(w :: u32) AND - 4096 = w AND 0xFFFFF000"
  by (rule arg_cong [where f = "(AND) w"]) simp

lemma page_mask: "(0xFFFFF000 :: u32) = NOT (mask 12)" "(0xFFF :: u32) = mask 12" "(0x3FF :: u32) = mask 10"
  by (simp_all add: mask_numeral)

lemma unat_drop_bit: "unat (drop_bit n (w :: u32)) = unat w div 2 ^ n"
  unfolding unat_drop_bit_eq by (rule drop_bit_eq_div)

lemma unat_and_3FF: "unat ((w :: u32) AND 0x3FF) = unat w mod 1024"
  unfolding page_mask(3) take_bit_eq_mask [symmetric] unsigned_take_bit_eq by (simp add: take_bit_eq_mod)

lemma unat_PDIR_OFFSET: "unat (PDIR_OFFSET a) = unat a div 2 ^ 22"
  using unsigned_less [of a, where ?'a = nat] by (simp add: PDIR_OFFSET_def unat_and_3FF unat_drop_bit)

lemma PDIR_OFFSET_drop: "PDIR_OFFSET a = drop_bit 22 a"
  by (rule iffD2 [OF word_unat_eq_iff]) (simp only: unat_PDIR_OFFSET unat_drop_bit)

lemma PDIR_OFFSET_less: "unat (PDIR_OFFSET a) < 1024"
  using unsigned_less [of a, where ?'a = nat] by (simp add: unat_PDIR_OFFSET)

lemma PDIR_OFFSET_le: "PDIR_OFFSET a < 1023 \<longleftrightarrow> PDIR_OFFSET a \<noteq> 1023"
  using PDIR_OFFSET_less [of a] by (auto simp: word_unat_eq_iff word_less_nat_alt)

lemma unat_PTAB_OFFSET: "unat (PTAB_OFFSET a) = unat a div 2 ^ 12 mod 1024"
  unfolding PTAB_OFFSET_def unat_and_3FF unat_drop_bit ..

lemma unat_PTAB_FROM_VADDR: "unat (PTAB_FROM_VADDR a) = 0xFFC00000 + unat (PDIR_OFFSET a) * 2 ^ 12"
  using PDIR_OFFSET_less [of a]
  by (simp add: PTAB_FROM_VADDR_def PDIR_BASE_def push_bit_eq_mult unat_word_ariths)

lemma PTAB_FROM_VADDR_offsets [simp]:
  "drop_bit 22 (PTAB_FROM_VADDR a) = 1023" "drop_bit 12 (PTAB_FROM_VADDR a) AND 0x3FF = PDIR_OFFSET a"
proof -
  have "0xFFC00000 + unat (PDIR_OFFSET a) * 2 ^ 12 = (1023 * 1024 + unat (PDIR_OFFSET a)) * 2 ^ 12"
    by simp
  then have d: "unat (drop_bit 12 (PTAB_FROM_VADDR a)) = 1023 * 1024 + unat (PDIR_OFFSET a)"
    unfolding unat_drop_bit unat_PTAB_FROM_VADDR by simp
  then show "drop_bit 12 (PTAB_FROM_VADDR a) AND 0x3FF = PDIR_OFFSET a"
    using PDIR_OFFSET_less [of a] unfolding word_unat_eq_iff unat_and_3FF by (simp only: mod_mult_self3 mod_less)
  show "drop_bit 22 (PTAB_FROM_VADDR a) = 1023"
    using PDIR_OFFSET_less [of a] unfolding word_unat_eq_iff unat_drop_bit unat_PTAB_FROM_VADDR by simp
qed

lemma unat_page: "unat (page a) = unat a div 2 ^ 12 * 2 ^ 12"
proof -
  have "page a = push_bit 12 (drop_bit 12 a)"
    unfolding page_def page_mask by (rule bit_word_eqI) (auto simp: bit_simps)
  then show ?thesis
    using unsigned_less [of a, where ?'a = nat]
    by (simp add: push_bit_eq_mult drop_bit_eq_div unat_word_ariths unat_div)
qed

lemma PTAB_OFFSET_le: "PTAB_OFFSET a < 1023 \<longleftrightarrow> PTAB_OFFSET a \<noteq> 1023"
proof -
  have "unat (PTAB_OFFSET a) < 1024"
    by (simp add: unat_PTAB_OFFSET)
  then show ?thesis
    by (auto simp: word_unat_eq_iff word_less_nat_alt)
qed

lemma page_eq_iff: "page a = page b \<longleftrightarrow> PDIR_OFFSET a = PDIR_OFFSET b \<and> PTAB_OFFSET a = PTAB_OFFSET b"
proof -
  have d: "unat c div 2 ^ 22 = unat c div 2 ^ 12 div 1024" for c :: u32
    using div_mult2_eq [of "unat c" "2 ^ 12" 1024] by simp
  have e: "x = y \<longleftrightarrow> x div 1024 = y div 1024 \<and> x mod 1024 = y mod 1024" for x y :: nat
    by (metis div_mult_mod_eq)
  have "page a = page b \<longleftrightarrow> unat a div 2 ^ 12 = unat b div 2 ^ 12"
    unfolding word_unat_eq_iff unat_page by simp
  then show ?thesis
    unfolding word_unat_eq_iff [of "PDIR_OFFSET a"] word_unat_eq_iff [of "PTAB_OFFSET a"]
      unat_PDIR_OFFSET unat_PTAB_OFFSET d
    using e by blast
qed

lemma aligned_bits: "(p :: u32) AND 0xFFF = 0 \<Longrightarrow> n < 12 \<Longrightarrow> \<not> bit p n"
  unfolding page_mask by (drule arg_cong [where f = "\<lambda>w. bit w n"]) (simp add: bit_simps)

lemma low_bits: "(f :: u32) AND 0xFFFFF000 = 0 \<Longrightarrow> 12 \<le> n \<Longrightarrow> \<not> bit f n"
  unfolding page_mask
  by (drule arg_cong [where f = "\<lambda>w. bit w n"]) (auto simp: bit_simps dest: bit_imp_le_length)

lemma aligned_or:
  assumes "(p :: u32) AND 0xFFF = 0" "f AND 0xFFFFF000 = 0"
  shows "(p OR f) AND 0xFFFFF000 = p" "(p OR f) AND 1 = f AND 1" "(p OR f) AND 0x80 = f AND 0x80"
proof -
  have p: "bit p n \<Longrightarrow> 12 \<le> n" and f: "bit f n \<Longrightarrow> n < 12" for n
    using aligned_bits [OF assms(1)] low_bits [OF assms(2)] not_less by blast+
  show "(p OR f) AND 0xFFFFF000 = p"
    unfolding page_mask by (rule bit_word_eqI) (auto simp: bit_simps dest: p f)
  have e: "(0x80 :: u32) = 2 ^ 7"
    by simp
  have "\<not> bit p 7"
    using p [of 7] by auto
  then have b: "\<not> (bit p n \<and> bit (0x80 :: u32) n)" for n
    unfolding e bit_exp_iff by blast
  show "(p OR f) AND 0x80 = f AND 0x80"
    by (rule bit_word_eqI, unfold bit_or_iff bit_and_iff) (use b in blast)
  have "\<not> bit p 0"
    using p [of 0] by auto
  then have c: "\<not> (bit p n \<and> bit (1 :: u32) n)" for n
    unfolding bit_1_iff by blast
  show "(p OR f) AND 1 = f AND 1"
    by (rule bit_word_eqI, unfold bit_or_iff bit_and_iff) (use c in blast)
qed

section \<open>The page tables\<close>

definition pde :: "vmm \<Rightarrow> u32 \<Rightarrow> u32" where
  "pde m a = vm_mem m (vm_cr3 m) (PDIR_OFFSET a)"

definition pte :: "vmm \<Rightarrow> u32 \<Rightarrow> u32" where
  "pte m a = vm_mem m (pde m a AND 0xFFFFF000) (PTAB_OFFSET a)"

definition tabs :: "vmm \<Rightarrow> u32 set" where
  "tabs m = {d. d < 1023 \<and> vm_mem m (vm_cr3 m) d \<noteq> 0}"

definition table_frames :: "vmm \<Rightarrow> u32 set" where
  "table_frames m = insert (vm_cr3 m) ((\<lambda>d. vm_mem m (vm_cr3 m) d AND 0xFFFFF000) ` tabs m)"

text \<open>
  The last directory entry points to the directory itself; every other entry is empty or points to a
  page table of its own, which is neither the page at address 0 nor the directory.
\<close>

definition tables_ok :: "vmm \<Rightarrow> bool" where
  "tables_ok m \<longleftrightarrow>
     vm_mem m (vm_cr3 m) 1023 AND 0xFFFFF000 = vm_cr3 m \<and>
     vm_mem m (vm_cr3 m) 1023 AND 1 \<noteq> 0 \<and> vm_mem m (vm_cr3 m) 1023 AND 0x80 = 0 \<and>
     (\<forall>d \<in> tabs m. vm_mem m (vm_cr3 m) d AND 1 \<noteq> 0 \<and> vm_mem m (vm_cr3 m) d AND 0x80 = 0 \<and>
        vm_mem m (vm_cr3 m) d AND 0xFFFFF000 \<notin> {0, vm_cr3 m}) \<and>
     inj_on (\<lambda>d. vm_mem m (vm_cr3 m) d AND 0xFFFFF000) (tabs m)"

text \<open>The page table entry of a mapped address below the window on the page tables.\<close>

definition vtrans :: "vmm \<Rightarrow> u32 \<Rightarrow> u32 option" where
  "vtrans m a = (if PDIR_OFFSET a \<notin> tabs m \<or> pte m a AND 1 = 0 then None else Some (pte m a))"

lemma walk_trans:
  assumes "tables_ok m" "PDIR_OFFSET a \<noteq> 1023"
  shows "walk m a = map_option page (vtrans m a)"
  using assms PDIR_OFFSET_le [of a]
  by (auto simp: walk_def vtrans_def tables_ok_def tabs_def pte_def pde_def page_def Let_def
    PDIR_OFFSET_drop PTAB_OFFSET_def)

lemma walk_pdir: "tables_ok m \<Longrightarrow> walk m PDIR_VIRT = Some (vm_cr3 m)"
  by (simp add: walk_def tables_ok_def Let_def PDIR_VIRT_def)

lemma walk_ptab:
  assumes "tables_ok m" "PDIR_OFFSET v \<in> tabs m"
  shows "walk m (PTAB_FROM_VADDR v) = Some (pde m v AND 0xFFFFF000)"
  using assms by (auto simp: walk_def tables_ok_def Let_def pde_def)

definition poke :: "vmm \<Rightarrow> u32 \<Rightarrow> u32 \<Rightarrow> u32 \<Rightarrow> vmm" where
  "poke m f i x = m\<lparr>vm_mem := (vm_mem m)(f := (vm_mem m f)(i := x))\<rparr>"

lemma access_pdir [simp]:
  assumes "tables_ok m"
  shows "vread m PDIR_VIRT i = Some (vm_mem m (vm_cr3 m) i)"
    "vwrite m PDIR_VIRT i x = Some (poke m (vm_cr3 m) i x)"
  by (simp_all add: vread_def vwrite_def walk_pdir [OF assms] poke_def)

lemma access_ptab [simp]:
  assumes "tables_ok m" "PDIR_OFFSET v \<in> tabs m"
  shows "vread m (PTAB_FROM_VADDR v) (PTAB_OFFSET v) = Some (pte m v)"
    "vwrite m (PTAB_FROM_VADDR v) i x = Some (poke m (pde m v AND 0xFFFFF000) i x)"
  by (simp_all add: vread_def vwrite_def walk_ptab [OF assms] poke_def pte_def)

lemma poke_sel [simp]:
  "vm_cr3 (poke m f i x) = vm_cr3 m" "g_primedpage (poke m f i x) = g_primedpage m"
  "vm_pmem (poke m f i x) = vm_pmem m"
  "vm_mem (poke m f i x) g j = (if g = f \<and> j = i then x else vm_mem m g j)"
  by (simp_all add: poke_def)

lemma tables_ok_entry:
  assumes "tables_ok m" "d \<in> tabs m"
  shows "vm_mem m (vm_cr3 m) d AND 0xFFFFF000 \<noteq> vm_cr3 m" "vm_mem m (vm_cr3 m) d AND 0xFFFFF000 \<noteq> 0"
  using assms by (auto simp: tables_ok_def)

lemma entry_zero:
  assumes "tables_ok m" "PDIR_OFFSET v \<noteq> 1023"
  shows "vm_mem m (vm_cr3 m) (PDIR_OFFSET v) AND 0xFFFFF000 = 0 \<longleftrightarrow> PDIR_OFFSET v \<notin> tabs m"
  using assms tables_ok_entry(2) [of m "PDIR_OFFSET v"] PDIR_OFFSET_le [of v] by (auto simp: tabs_def)

text \<open>Writing the table entry of \<open>v\<close> changes the translation of its page and nothing else.\<close>

lemma poke_pte:
  fixes m :: vmm and v x :: u32
  assumes "tables_ok m" "PDIR_OFFSET v \<in> tabs m"
  defines "m' \<equiv> poke m (pde m v AND 0xFFFFF000) (PTAB_OFFSET v) x"
  shows "tables_ok m'" "tabs m' = tabs m" "table_frames m' = table_frames m"
    "vtrans m' = (\<lambda>a. if page a = page v then (if x AND 1 = 0 then None else Some x) else vtrans m a)"
    "pte m' v = x"
proof -
  have ne: "pde m v AND 0xFFFFF000 \<noteq> vm_cr3 m"
    using tables_ok_entry [OF assms(1,2)] by (simp add: pde_def)
  then have dir: "vm_mem m' (vm_cr3 m) = vm_mem m (vm_cr3 m)"
    by (auto simp: m'_def)
  then show tabs: "tabs m' = tabs m" and "table_frames m' = table_frames m" and "tables_ok m'"
    using assms(1) by (simp_all add: m'_def tabs_def table_frames_def tables_ok_def)
  have pde: "pde m' a = pde m a" for a
    using ne by (simp add: pde_def m'_def)
  then show "pte m' v = x"
    by (simp add: pte_def m'_def)
  have "pte m' a = (if page a = page v then x else pte m a)" if "PDIR_OFFSET a \<in> tabs m" for a
  proof -
    have "pde m a AND 0xFFFFF000 = pde m v AND 0xFFFFF000 \<longleftrightarrow> PDIR_OFFSET a = PDIR_OFFSET v"
      using assms(1,2) that by (auto simp: tables_ok_def pde_def inj_on_def)
    then show ?thesis
      unfolding pte_def pde by (auto simp: m'_def page_eq_iff)
  qed
  then show "vtrans m' = (\<lambda>a. if page a = page v then (if x AND 1 = 0 then None else Some x) else vtrans m a)"
    using assms(2) by (auto simp: vtrans_def tabs page_eq_iff fun_eq_iff)
qed

lemma vclear_ptab:
  assumes "tables_ok m" "PDIR_OFFSET v \<in> tabs m"
  shows "vclear m (PTAB_FROM_VADDR v) =
    Some (m\<lparr>vm_mem := (vm_mem m)(pde m v AND 0xFFFFF000 :=
      (\<lambda>i. if i = 1023 then vm_mem m (pde m v AND 0xFFFFF000) i AND 0xFF000000
           else if i < 1023 then 0 else vm_mem m (pde m v AND 0xFFFFF000) i))\<rparr>)"
  by (simp add: vclear_def walk_ptab [OF assms])

lemma add_pde:
  fixes m :: vmm and q d :: u32
  assumes "tables_ok m" "d \<notin> tabs m" "d < 1023" "q \<noteq> 0" "q AND 0xFFF = 0" "q \<notin> table_frames m"
  defines "m' \<equiv> poke m (vm_cr3 m) d (q OR FLAGS_PRESENT OR FLAGS_WRITEABLE)"
  shows "tables_ok m'" "tabs m' = insert d (tabs m)" "table_frames m' = insert q (table_frames m)"
    "vm_mem m' (vm_cr3 m) d AND 0xFFFFF000 = q"
proof -
  have flags: "q OR FLAGS_PRESENT OR FLAGS_WRITEABLE = q OR 3"
    by (simp add: FLAGS_PRESENT_def FLAGS_WRITEABLE_def)
  have e: "(q OR 3) AND 0xFFFFF000 = q" "(q OR 3) AND 1 = 1" "(q OR 3) AND 0x80 = 0"
    using aligned_or [OF assms(5), of 3] by simp_all
  then have e0: "q OR 3 \<noteq> 0"
    by (metis one_neq_zero zero_and_eq)
  have qc: "q \<noteq> vm_cr3 m" "\<And>d. d \<in> tabs m \<Longrightarrow> vm_mem m (vm_cr3 m) d AND 0xFFFFF000 \<noteq> q"
    using assms(6) by (auto simp: table_frames_def)
  have dir: "vm_mem m' (vm_cr3 m) = (vm_mem m (vm_cr3 m))(d := q OR 3)" "vm_cr3 m' = vm_cr3 m"
    by (auto simp: m'_def flags)
  show tabs: "tabs m' = insert d (tabs m)"
    using assms(3) e0 unfolding tabs_def dir by auto
  show "vm_mem m' (vm_cr3 m) d AND 0xFFFFF000 = q"
    unfolding dir by (simp add: e)
  have off: "\<And>c. c \<in> tabs m \<Longrightarrow> c \<noteq> d" "(1023 :: u32) \<noteq> d"
    using assms(2,3) by auto
  show "table_frames m' = insert q (table_frames m)"
    unfolding table_frames_def tabs dir using off(1) by (auto simp: e)
  show "tables_ok m'"
    using assms(1,4) off e qc unfolding tables_ok_def tabs dir by (auto simp: inj_on_def)
qed

text \<open>A new page table in a frame that is no page table yet maps nothing.\<close>

lemma new_ptab:
  assumes "tables_ok m" "PDIR_OFFSET v \<notin> tabs m" "PDIR_OFFSET v \<noteq> 1023"
    "q \<noteq> 0" "q AND 0xFFF = 0" "q \<notin> table_frames m"
  obtains m' where
    "vclear (poke m (vm_cr3 m) (PDIR_OFFSET v) (q OR FLAGS_PRESENT OR FLAGS_WRITEABLE)) (PTAB_FROM_VADDR v) = Some m'"
    "tables_ok m'" "tabs m' = insert (PDIR_OFFSET v) (tabs m)" "table_frames m' = insert q (table_frames m)"
    "vtrans m' = vtrans m" "g_primedpage m' = g_primedpage m" "vm_pmem m' = vm_pmem m"
proof -
  define m1 where "m1 = poke m (vm_cr3 m) (PDIR_OFFSET v) (q OR FLAGS_PRESENT OR FLAGS_WRITEABLE)"
  define m' where "m' = m1\<lparr>vm_mem := (vm_mem m1)(q := (\<lambda>i. if i = 1023 then vm_mem m1 q i AND 0xFF000000
    else if i < 1023 then 0 else vm_mem m1 q i))\<rparr>"
  have d: "PDIR_OFFSET v < 1023"
    using assms(3) PDIR_OFFSET_le by blast
  note m1 = add_pde [OF assms(1,2) d assms(4-6), folded m1_def]
  have qc: "q \<noteq> vm_cr3 m" "\<And>d. d \<in> tabs m \<Longrightarrow> vm_mem m (vm_cr3 m) d AND 0xFFFFF000 \<noteq> q"
    using assms(6) by (auto simp: table_frames_def)
  have "pde m1 v AND 0xFFFFF000 = q"
    using m1(4) by (simp add: pde_def m1_def)
  then have "vclear m1 (PTAB_FROM_VADDR v) = Some m'"
    unfolding m'_def using vclear_ptab [OF m1(1), of v] m1(2) by auto
  moreover have dir: "vm_mem m' (vm_cr3 m) = vm_mem m1 (vm_cr3 m)" "vm_cr3 m' = vm_cr3 m" "vm_cr3 m1 = vm_cr3 m"
    using qc(1) by (simp_all add: m'_def m1_def)
  then have t: "tabs m' = tabs m1" "table_frames m' = table_frames m1" "tables_ok m'"
    using m1(1) by (simp_all add: tabs_def table_frames_def tables_ok_def)
  moreover have "vtrans m' a = vtrans m a" for a
  proof (cases "PDIR_OFFSET a = PDIR_OFFSET v")
    case True
    then have "pte m' a = (if PTAB_OFFSET a = 1023 then vm_mem m1 q 1023 AND 0xFF000000 else 0)"
      using m1(4) PTAB_OFFSET_le [of a] unfolding pte_def pde_def dir by (auto simp: m'_def)
    then have "pte m' a AND 1 = 0"
      by (simp add: and.assoc)
    with True show ?thesis
      using assms(2) by (simp add: vtrans_def)
  next
    case False
    then have p: "pde m' a = pde m a"
      unfolding pde_def dir by (simp add: m1_def)
    then have "PDIR_OFFSET a \<in> tabs m \<Longrightarrow> pte m' a = pte m a"
      using qc(2) tables_ok_entry(1) [OF assms(1)] unfolding pte_def p by (auto simp: pde_def m'_def m1_def)
    then show ?thesis
      using False unfolding vtrans_def t m1(2) by auto
  qed
  ultimately show thesis
    using that [of m'] m1(2,3) by (simp add: m1_def m'_def fun_eq_iff)
qed

section \<open>The page supply\<close>

text \<open>
  \<open>vmem_inv m qs fw\<close>: the page tables are well formed and \<open>qs\<close> are the frames that the next page
  requests return, the primed page first; none of them is the page at address 0 or a page table.
\<close>

definition vmem_inv :: "vmm \<Rightarrow> u32 list \<Rightarrow> u64 list \<Rightarrow> bool" where
  "vmem_inv m qs fw \<longleftrightarrow>
     tables_ok m \<and>
     (\<exists>ps. pmem_inv (vm_pmem m) (map ucast ps) fw \<and>
        (if g_primedpage m = 0 then qs = ps else \<exists>q. g_primedpage m = ucast q \<and> qs = q # ps)) \<and>
     distinct qs \<and> (\<forall>q \<in> set qs. q \<noteq> 0 \<and> q AND 0xFFF = 0 \<and> q \<notin> table_frames m)"

lemma vmem_invD: "vmem_inv m qs fw \<Longrightarrow> tables_ok m"
  by (simp add: vmem_inv_def)

lemma vmem_inv_tables:
  assumes "vmem_inv m qs fw" "tables_ok m'" "table_frames m' = table_frames m"
    "g_primedpage m' = g_primedpage m" "vm_pmem m' = vm_pmem m"
  shows "vmem_inv m' qs fw"
  using assms(1,2) unfolding vmem_inv_def assms(3-5) by blast

lemma ucast_ucast_32 [simp]: "ucast (ucast (q :: u32) :: u64) = q"
  by (rule bit_word_eqI) (simp add: bit_simps)

lemma ucast_eq_0 [simp]: "(ucast (q :: u32) :: u64) = 0 \<longleftrightarrow> q = 0"
  by (metis unsigned_0 ucast_ucast_32)

lemma tables_cong:
  assumes "vm_mem m' = vm_mem m" "vm_cr3 m' = vm_cr3 m"
  shows "tables_ok m' = tables_ok m" "table_frames m' = table_frames m" "tabs m' = tabs m" "vtrans m' = vtrans m"
  using assms by (auto simp: tables_ok_def table_frames_def tabs_def vtrans_def pte_def pde_def)

lemma vmem_take_page_inv:
  assumes "vmem_inv m (q # qs) fw"
  obtains m' where "vmem_take_page m = Some (m', ucast q)" "vmem_inv m' qs fw"
    "vm_mem m' = vm_mem m" "vm_cr3 m' = vm_cr3 m"
proof (cases "g_primedpage m = 0")
  case True
  then have p: "pmem_inv (vm_pmem m) (ucast q # map ucast qs) fw"
    using assms by (auto simp: vmem_inv_def)
  obtain pm where pm: "pmem_alloc (vm_pmem m) = Some (pm, ucast q)" "pmem_inv pm (map ucast qs) fw"
    using pmem_alloc_inv [OF p] by blast
  have "vmem_inv (m\<lparr>vm_pmem := pm\<rparr>) qs fw"
    using assms pm True tables_cong [of "m\<lparr>vm_pmem := pm\<rparr>" m] by (auto simp: vmem_inv_def)
  with True pm(1) show thesis
    by (intro that [of "m\<lparr>vm_pmem := pm\<rparr>"]) (simp_all add: vmem_take_page_def)
next
  case False
  then have "vmem_inv (m\<lparr>g_primedpage := 0\<rparr>) qs fw" "g_primedpage m = ucast q"
    using assms tables_cong [of "m\<lparr>g_primedpage := 0\<rparr>" m] by (auto simp: vmem_inv_def)
  with False show thesis
    by (intro that [of "m\<lparr>g_primedpage := 0\<rparr>"]) (simp_all add: vmem_take_page_def)
qed

section \<open>The operations on the address space\<close>

text \<open>
  What the callers see: the entry of every mapped page, the directory entries that have a page table,
  and the frames that are left.
\<close>

record aspace =
  as_map :: "u32 \<Rightarrow> u32 option"
  as_tabs :: "u32 set"
  as_free :: "u32 list"

definition space_rep :: "vmm \<Rightarrow> u64 list \<Rightarrow> aspace \<Rightarrow> bool" where
  "space_rep m fw S \<longleftrightarrow> vmem_inv m (as_free S) fw \<and> vtrans m = as_map S \<and> tabs m = as_tabs S"

definition as_put :: "aspace \<Rightarrow> u32 \<Rightarrow> u32 option \<Rightarrow> aspace" where
  "as_put S v x = S\<lparr>as_map := (\<lambda>a. if page a = page v then x else as_map S a)\<rparr>"

definition as_need :: "aspace \<Rightarrow> u32 \<Rightarrow> aspace" where
  "as_need S v = (if PDIR_OFFSET v \<in> as_tabs S then S
     else S\<lparr>as_tabs := insert (PDIR_OFFSET v) (as_tabs S), as_free := tl (as_free S)\<rparr>)"

definition as_enough :: "aspace \<Rightarrow> u32 \<Rightarrow> bool" where
  "as_enough S v \<longleftrightarrow> PDIR_OFFSET v \<noteq> 1023 \<and> (PDIR_OFFSET v \<in> as_tabs S \<or> as_free S \<noteq> [])"

lemma vmem_need_ptab_rep:
  assumes "space_rep m fw S" "as_enough S v"
  obtains m' where "vmem_need_ptab m v = Some (m', True)" "space_rep m' fw (as_need S v)"
    "PDIR_OFFSET v \<in> tabs m'"
proof (cases "PDIR_OFFSET v \<in> tabs m")
  case True
  have ok: "tables_ok m"
    using assms(1) by (simp add: space_rep_def vmem_inv_def)
  have "vmem_need_ptab m v = Some (m, True)"
    using True entry_zero [OF ok, of v] assms(2) by (simp add: vmem_need_ptab_def ok as_enough_def)
  with True assms show thesis
    by (intro that [of m]) (auto simp: as_need_def space_rep_def)
next
  case False
  then obtain q qs where q: "as_free S = q # qs" "vmem_inv m (q # qs) fw" "PDIR_OFFSET v \<noteq> 1023"
    using assms by (cases "as_free S") (auto simp: space_rep_def as_enough_def)
  have fr: "q \<noteq> 0" "q AND 0xFFF = 0" "q \<notin> table_frames m" "q \<notin> set qs"
    using q(2) by (auto simp: vmem_inv_def)
  obtain m1 where m1: "vmem_take_page m = Some (m1, ucast q)" "vmem_inv m1 qs fw"
    "vm_mem m1 = vm_mem m" "vm_cr3 m1 = vm_cr3 m"
    by (rule vmem_take_page_inv [OF q(2)])
  note c = tables_cong [OF m1(3,4)]
  have ok: "tables_ok m" "tables_ok m1"
    using vmem_invD [OF q(2)] vmem_invD [OF m1(2)] by auto
  obtain m' where m': "vclear (poke m1 (vm_cr3 m1) (PDIR_OFFSET v) (q OR FLAGS_PRESENT OR FLAGS_WRITEABLE)) (PTAB_FROM_VADDR v) = Some m'"
    "tables_ok m'" "tabs m' = insert (PDIR_OFFSET v) (tabs m1)" "table_frames m' = insert q (table_frames m1)"
    "vtrans m' = vtrans m1" "g_primedpage m' = g_primedpage m1" "vm_pmem m' = vm_pmem m1"
    using fr False q(3) c by (auto intro: new_ptab [OF ok(2), of v q])
  have "vmem_need_ptab m v = Some (m', True)"
    using False q(3) entry_zero [OF ok(1) q(3)] fr(1) m'(1) m1(1) ok
    by (simp add: vmem_need_ptab_def)
  moreover have "vmem_inv m' qs fw"
    using m1(2) m' fr(4) by (auto simp: vmem_inv_def)
  ultimately show thesis
    using assms(1) False q(1) m' c
    by (intro that [of m']) (auto simp: as_need_def space_rep_def)
qed

lemma poke_pte_rep:
  assumes "space_rep m fw S" "PDIR_OFFSET v \<in> tabs m"
  shows "space_rep (poke m (pde m v AND 0xFFFFF000) (PTAB_OFFSET v) x) fw
    (as_put S v (if x AND 1 = 0 then None else Some x))"
proof -
  have ok: "tables_ok m" "vmem_inv m (as_free S) fw"
    using assms(1) by (auto simp: space_rep_def vmem_inv_def)
  note p = poke_pte [OF ok(1) assms(2), of x]
  show ?thesis
    using assms(1) vmem_inv_tables [OF ok(2) p(1,3)] p(2,4) by (auto simp: space_rep_def as_put_def)
qed

lemma flags_to_x86_bits [simp]: "flags_to_x86 f AND 0xFFFFF000 = 0" "flags_to_x86 f AND 1 = 1"
  by (simp_all add: flags_to_x86_def Let_def FLAGS_PRESENT_def FLAGS_WRITEABLE_def FLAGS_USER_def
    FLAGS_GLOBAL_def)

lemma page_low [simp]: "page a AND 0xFFF = 0"
  by (simp add: page_def and.assoc)

lemma page_page [simp]: "page (page a) = page a"
  by (simp add: page_def and.assoc)

lemma entry_bits [simp]: "(page a OR flags_to_x86 f) AND 1 = 1" "page (page a OR flags_to_x86 f) = page a"
  using aligned_or [OF page_low [of a] flags_to_x86_bits(1) [of f]] by (simp_all add: page_def)

lemma ucast_frame:
  "ucast (((p :: u64) AND NOT 0xFFF) AND PADDR_MASK) = page (ucast p :: u32)"
  "p AND 0xFFF = 0 \<Longrightarrow> ucast ((p :: u64) AND PADDR_MASK) = page (ucast p :: u32)"
  "ucast ((ucast w :: u64) AND PADDR_MASK) = (w :: u32)"
proof -
  have m: "(0xFFF :: u64) = mask 12" "PADDR_MASK = mask 32"
    by (simp_all add: mask_numeral PADDR_MASK_def)
  show *: "ucast (((p :: u64) AND NOT 0xFFF) AND PADDR_MASK) = page (ucast p :: u32)"
    unfolding m page_def page_mask by (rule bit_word_eqI) (auto simp: bit_simps)
  show "ucast ((ucast w :: u64) AND PADDR_MASK) = (w :: u32)"
    unfolding m by (rule bit_word_eqI) (auto simp: bit_simps)
  assume "p AND 0xFFF = 0"
  moreover have "(p AND 0xFFF) OR (p AND NOT 0xFFF) = p"
    unfolding m by (rule bit_word_eqI) (auto simp: bit_simps)
  ultimately have "p AND NOT 0xFFF = p"
    by (metis or.left_neutral)
  with * show "ucast ((p :: u64) AND PADDR_MASK) = page (ucast p :: u32)"
    by metis
qed

text \<open>The frame that \<open>arch_vmem_map\<close> is asked for, and the supply left once it is known.\<close>

definition as_frame :: "aspace \<Rightarrow> u64 \<Rightarrow> aspace \<times> u32" where
  "as_frame S p = (if p = NOT 0 then (S\<lparr>as_free := tl (as_free S)\<rparr>, hd (as_free S)) else (S, page (ucast p)))"

lemma vmem_frame_rep:
  assumes "space_rep m fw S" "p = NOT 0 \<Longrightarrow> as_free S \<noteq> []" "as_frame S p = (S1, w)"
  obtains m1 p1 where "vmem_frame m p = Some (m1, p1)" "space_rep m1 fw S1"
    "ucast (p1 AND PADDR_MASK) = w" "page w = w"
proof (cases "p = NOT 0")
  case True
  then obtain qs where q: "as_free S = w # qs" "S1 = S\<lparr>as_free := qs\<rparr>"
    using assms(2,3) by (cases "as_free S") (auto simp: as_frame_def)
  have inv: "vmem_inv m (w # qs) fw"
    using assms(1) q by (simp add: space_rep_def)
  then have w: "w \<noteq> 0" "page w = w"
    using aligned_or(1) [of w 0] by (auto simp: vmem_inv_def page_def)
  obtain m1 where m1: "vmem_take_page m = Some (m1, ucast w)" "vmem_inv m1 qs fw"
    "vm_mem m1 = vm_mem m" "vm_cr3 m1 = vm_cr3 m"
    by (rule vmem_take_page_inv [OF inv])
  with True q w assms(1) tables_cong [OF m1(3,4)] show thesis
    by (intro that [of m1 "ucast w"]) (auto simp: space_rep_def vmem_frame_def ucast_frame(3))
next
  case False
  then have w: "page w = w" "w = page (ucast p)" "S1 = S"
    using assms(3) by (auto simp: as_frame_def)
  show thesis
    by (rule that [of m "if p AND 0xFFF \<noteq> 0 then p AND NOT 0xFFF else p", OF _ _ _ w(1)])
      (use False assms(1) w(2,3) ucast_frame(1,2) [of p] in \<open>auto simp: vmem_frame_def\<close>)
qed

lemma arch_vmem_map_rep:
  assumes "space_rep m fw S" "p = NOT 0 \<Longrightarrow> as_free S \<noteq> []" "as_enough (fst (as_frame S p)) v"
  obtains m' where "arch_vmem_map m v p f = Some (m', 0)"
    "space_rep m' fw (as_put (as_need (fst (as_frame S p)) v) v (Some (snd (as_frame S p) OR flags_to_x86 f)))"
proof -
  obtain S1 w where S1: "as_frame S p = (S1, w)"
    by fastforce
  obtain m1 p1 where m1: "vmem_frame m p = Some (m1, p1)" "space_rep m1 fw S1"
      "ucast (p1 AND PADDR_MASK) = w" "page w = w"
    by (rule vmem_frame_rep [OF assms(1,2) S1])
  obtain m2 where m2: "vmem_need_ptab m1 v = Some (m2, True)" "space_rep m2 fw (as_need S1 v)"
    "PDIR_OFFSET v \<in> tabs m2"
    using vmem_need_ptab_rep [OF m1(2), of v] assms(3) S1 by auto
  have ok: "tables_ok m2"
    using m2(2) by (simp add: space_rep_def vmem_inv_def)
  have bits: "(w OR flags_to_x86 f) AND 1 = 1"
    using entry_bits(1) [of w f] m1(4) by simp
  show thesis
    using poke_pte_rep [OF m2(2,3), of "w OR flags_to_x86 f"] m1(1,3) m2 ok bits S1
    by (intro that) (simp_all add: arch_vmem_map_def)
qed

lemma arch_vmem_ismapped_rep:
  assumes "space_rep m fw S" "PDIR_OFFSET v \<noteq> 1023"
  shows "arch_vmem_ismapped m v = Some (as_map S v \<noteq> None)"
proof -
  have ok: "tables_ok m" and S: "vtrans m = as_map S"
    using assms(1) by (auto simp: space_rep_def vmem_inv_def)
  show ?thesis
  proof (cases "PDIR_OFFSET v \<in> tabs m")
    case True
    with ok entry_zero [OF ok assms(2)] show ?thesis
      by (auto simp: arch_vmem_ismapped_def PDIR_OFFSET_drop FLAGS_PRESENT_def vtrans_def S [symmetric])
  next
    case False
    with ok entry_zero [OF ok assms(2)] show ?thesis
      by (auto simp: arch_vmem_ismapped_def PDIR_OFFSET_drop vtrans_def S [symmetric])
  qed
qed

lemma as_map_SomeD:
  assumes "space_rep m fw S" "as_map S v = Some x"
  shows "PDIR_OFFSET v \<in> tabs m" "pte m v = x" "x AND 1 \<noteq> 0" "tables_ok m"
  using assms by (auto simp: space_rep_def vmem_inv_def vtrans_def split: if_splits dest!: fun_cong [where x = v])

lemma vtrans_page: "page a = page b \<Longrightarrow> vtrans m a = vtrans m b"
  by (simp add: page_eq_iff vtrans_def pte_def pde_def)

lemma arch_vmem_unmap_rep:
  assumes "space_rep m fw S" "PDIR_OFFSET v \<noteq> 1023"
  obtains m' where "arch_vmem_unmap m v = Some m'" "space_rep m' fw (as_put S v None)"
proof (cases "as_map S v")
  case None
  have "as_map S a = None" if "page a = page v" for a
    using None assms(1) vtrans_page [OF that, of m] by (simp add: space_rep_def)
  then have "as_put S v None = S"
    by (auto simp: as_put_def fun_eq_iff)
  with None assms(1) show thesis
    by (intro that [of m]) (auto simp: arch_vmem_unmap_def arch_vmem_ismapped_rep [OF assms])
next
  case (Some x)
  note x = as_map_SomeD [OF assms(1) Some]
  have "(x AND NOT FLAGS_PRESENT) AND 1 = 0"
    by (simp add: FLAGS_PRESENT_def and.assoc)
  then show thesis
    using x Some poke_pte_rep [OF assms(1) x(1), of "x AND NOT FLAGS_PRESENT"]
    by (intro that) (auto simp: arch_vmem_unmap_def arch_vmem_ismapped_rep [OF assms])
qed

lemma arch_vmem_modify_rep:
  assumes "space_rep m fw S" "PDIR_OFFSET v \<noteq> 1023" "as_map S v = Some x"
  obtains m' where "arch_vmem_modify m v nf = Some (m', 0)"
    "space_rep m' fw (as_put S v (Some (page x OR flags_to_x86 nf)))"
proof -
  note x = as_map_SomeD [OF assms(1,3)]
  define m1 where "m1 = poke m (pde m v AND 0xFFFFF000) (PTAB_OFFSET v) (page x)"
  have z: "page x AND 1 = 0"
    by (simp add: page_def and.assoc)
  have m1: "space_rep m1 fw (as_put S v None)" "PDIR_OFFSET v \<in> tabs m1" "pte m1 v = page x" "tables_ok m1"
    using poke_pte_rep [OF assms(1) x(1), of "page x"] poke_pte [OF x(4,1), of "page x"] x(1) z
    by (simp_all add: m1_def)
  have "as_put (as_put S v None) v y = as_put S v y" for y
    by (rule aspace.equality) (auto simp: as_put_def)
  moreover have "pte m v AND 0xFFFFF000 = page x"
    using x(2) by (simp add: page_def)
  then have "arch_vmem_modify m v nf =
      Some (poke m1 (pde m1 v AND 0xFFFFF000) (PTAB_OFFSET v) (page x OR flags_to_x86 nf), 0)"
    using x m1(2-4) assms(3)
    by (simp add: arch_vmem_modify_def arch_vmem_ismapped_rep [OF assms(1,2)] m1_def [symmetric])
  ultimately show thesis
    using poke_pte_rep [OF m1(1,2), of "page x OR flags_to_x86 nf"] by (intro that) simp_all
qed

lemma arch_vmem_v2p_rep:
  assumes "space_rep m fw S" "PDIR_OFFSET v \<in> as_tabs S"
  shows "arch_vmem_v2p m v =
    Some (case as_map S v of None \<Rightarrow> 0 | Some x \<Rightarrow> ucast (page x OR (v AND 0xFFF)))"
proof -
  have m: "(0xFFF :: u64) = mask 12"
    by (simp add: mask_numeral)
  have "(ucast x AND NOT 0xFFF) OR ucast (v AND 0xFFF) = (ucast (page x OR (v AND 0xFFF)) :: u64)" for x
    unfolding m page_def page_mask
    by (rule bit_word_eqI) (auto simp: bit_simps dest: bit_imp_le_length)
  then show ?thesis
    using assms
    by (auto simp: arch_vmem_v2p_def space_rep_def vmem_inv_def vtrans_def FLAGS_PRESENT_def
      split: option.split dest!: fun_cong [where x = v] split: if_splits)
qed

lemma arch_vmem_v2p_no_table:
  assumes "space_rep m fw S" "PDIR_OFFSET v \<noteq> 1023" "PDIR_OFFSET v \<notin> as_tabs S"
  shows "arch_vmem_v2p m v = None"
proof -
  have "tables_ok m" "vm_mem m (vm_cr3 m) (PDIR_OFFSET v) = 0"
    using assms PDIR_OFFSET_le [of v] by (auto simp: space_rep_def vmem_inv_def tabs_def)
  then show ?thesis
    by (simp add: arch_vmem_v2p_def vread_def walk_def Let_def tables_ok_def)
qed

end
