(* ===== verification/Forge_Vmem_Space.thy ===== *)
theory Forge_Vmem_Space
  imports Forge_Vmem
begin

text \<open>
  Sequences of calls of the address space manager of \<open>Forge_Vmem\<close> and what they do to the address
  space: the page tables refine a map from pages to entries, and pages the kernel picks are never
  shared.
\<close>

section \<open>Sequences of calls\<close>

datatype vm_op = VMap u32 u64 u32 | VUnmap u32 | VModify u32 u32 | VIsmapped u32 | VV2p u32

fun vm_exec :: "vmm \<Rightarrow> vm_op \<Rightarrow> (vmm \<times> int) option" where
  "vm_exec m (VMap v p f) = arch_vmem_map m v p f"
| "vm_exec m (VUnmap v) = do { m \<leftarrow> arch_vmem_unmap m v; Some (m, 0) }"
| "vm_exec m (VModify v nf) = arch_vmem_modify m v nf"
| "vm_exec m (VIsmapped v) = do { b \<leftarrow> arch_vmem_ismapped m v; Some (m, if b then 1 else 0) }"
| "vm_exec m (VV2p v) = do { p \<leftarrow> arch_vmem_v2p m v; Some (m, uint p) }"

fun vm_run :: "vmm \<Rightarrow> vm_op list \<Rightarrow> (vmm \<times> int list) option" where
  "vm_run m [] = Some (m, [])"
| "vm_run m (x # xs) = do { (m, r) \<leftarrow> vm_exec m x; (m, rs) \<leftarrow> vm_run m xs; Some (m, r # rs) }"

fun space_step :: "aspace \<Rightarrow> vm_op \<Rightarrow> aspace \<times> int" where
  "space_step S (VMap v p f) =
     (let (S1, w) = as_frame S p in (as_put (as_need S1 v) v (Some (w OR flags_to_x86 f)), 0))"
| "space_step S (VUnmap v) = (as_put S v None, 0)"
| "space_step S (VModify v nf) =
     (case as_map S v of None \<Rightarrow> (S, -1) | Some x \<Rightarrow> (as_put S v (Some (page x OR flags_to_x86 nf)), 0))"
| "space_step S (VIsmapped v) = (S, if as_map S v = None then 0 else 1)"
| "space_step S (VV2p v) =
     (S, case as_map S v of None \<Rightarrow> 0 | Some x \<Rightarrow> uint (page x OR (v AND 0xFFF)))"

fun space_run :: "aspace \<Rightarrow> vm_op list \<Rightarrow> aspace \<times> int list" where
  "space_run S [] = (S, [])"
| "space_run S (x # xs) =
     (let (S1, r) = space_step S x; (S2, rs) = space_run S1 xs in (S2, r # rs))"

text \<open>
  The calls stay below the window on the page tables, a mapping finds the pages it needs in the
  supply, and \<open>arch_vmem_v2p\<close> is only asked about addresses that have a page table.
\<close>

fun space_ok :: "aspace \<Rightarrow> vm_op \<Rightarrow> bool" where
  "space_ok S (VMap v p f) \<longleftrightarrow> (p = NOT 0 \<longrightarrow> as_free S \<noteq> []) \<and> as_enough (fst (as_frame S p)) v"
| "space_ok S (VUnmap v) \<longleftrightarrow> PDIR_OFFSET v \<noteq> 1023"
| "space_ok S (VModify v nf) \<longleftrightarrow> PDIR_OFFSET v \<noteq> 1023"
| "space_ok S (VIsmapped v) \<longleftrightarrow> PDIR_OFFSET v \<noteq> 1023"
| "space_ok S (VV2p v) \<longleftrightarrow> PDIR_OFFSET v \<in> as_tabs S"

fun space_oks :: "aspace \<Rightarrow> vm_op list \<Rightarrow> bool" where
  "space_oks S [] \<longleftrightarrow> True"
| "space_oks S (x # xs) \<longleftrightarrow> space_ok S x \<and> space_oks (fst (space_step S x)) xs"

lemma uint_ucast_32: "uint (ucast (w :: u32) :: u64) = uint w"
  using unsigned_less [of w, where ?'a = int] by (auto simp: unsigned_ucast_eq intro: take_bit_int_eq_self)

lemma vm_exec_rep:
  assumes "space_rep m fw S" "space_ok S x"
  obtains m' where "vm_exec m x = Some (m', snd (space_step S x))" "space_rep m' fw (fst (space_step S x))"
proof (cases x)
  case (VMap v p f)
  then show thesis
    using assms arch_vmem_map_rep [OF assms(1), of p v f thesis] that by (auto simp: case_prod_unfold Let_def)
next
  case (VUnmap v)
  then show thesis
    using assms arch_vmem_unmap_rep [OF assms(1), of v thesis] that by auto
next
  case (VModify v nf)
  then show thesis
    using assms arch_vmem_modify_rep [OF assms(1), of v _ nf thesis] that
    by (cases "as_map S v") (auto simp: arch_vmem_modify_def arch_vmem_ismapped_rep)
next
  case (VIsmapped v)
  then show thesis
    using assms by (intro that [of m]) (auto simp: arch_vmem_ismapped_rep)
next
  case (VV2p v)
  then show thesis
    using assms arch_vmem_v2p_rep [OF assms(1), of v]
    by (intro that [of m]) (auto simp: uint_ucast_32 split: option.split)
qed

lemma vm_run_rep:
  "space_rep m fw S \<Longrightarrow> space_oks S ops \<Longrightarrow>
   \<exists>m'. vm_run m ops = Some (m', snd (space_run S ops)) \<and> space_rep m' fw (fst (space_run S ops))"
proof (induction ops arbitrary: m S)
  case (Cons x xs)
  obtain m1 where m1: "vm_exec m x = Some (m1, snd (space_step S x))" "space_rep m1 fw (fst (space_step S x))"
    using vm_exec_rep [OF Cons.prems(1), of x] Cons.prems(2) by auto
  with Cons.IH [OF m1(2)] Cons.prems(2) show ?case
    by (auto simp: case_prod_unfold Let_def)
qed simp

section \<open>Frames are not shared\<close>

text \<open>
  Different mapped pages have different frames, and a mapped frame is not in the supply.
\<close>

definition isolated :: "aspace \<Rightarrow> bool" where
  "isolated S \<longleftrightarrow>
     (\<forall>a b x y. as_map S a = Some x \<longrightarrow> as_map S b = Some y \<longrightarrow> page x = page y \<longrightarrow> page a = page b) \<and>
     (\<forall>a x. as_map S a = Some x \<longrightarrow> page x \<notin> set (as_free S)) \<and> distinct (as_free S)"

text \<open>The calls that leave the choice of the frame to the kernel.\<close>

fun kernel_frames :: "vm_op \<Rightarrow> bool" where
  "kernel_frames (VMap v p f) \<longleftrightarrow> p = NOT 0"
| "kernel_frames _ \<longleftrightarrow> True"

lemma in_set_tl: "x \<in> set (tl xs) \<Longrightarrow> x \<in> set xs"
  by (cases xs) auto

lemma isolatedI:
  assumes "\<And>a b x y. as_map S a = Some x \<Longrightarrow> as_map S b = Some y \<Longrightarrow> page x = page y \<Longrightarrow> page a = page b"
    "\<And>a x. as_map S a = Some x \<Longrightarrow> page x \<notin> set (as_free S)" "distinct (as_free S)"
  shows "isolated S"
  using assms unfolding isolated_def by blast

lemma isolatedD:
  assumes "isolated S"
  shows "as_map S a = Some x \<Longrightarrow> as_map S b = Some y \<Longrightarrow> page x = page y \<Longrightarrow> page a = page b"
    "as_map S a = Some x \<Longrightarrow> page x \<notin> set (as_free S)" "distinct (as_free S)"
  using assms unfolding isolated_def by blast+

lemma isolated_sub:
  assumes "isolated S" "\<And>a. as_map S' a \<in> {None, as_map S a}" "set (as_free S') \<subseteq> set (as_free S)"
    "distinct (as_free S')"
  shows "isolated S'"
proof -
  have "as_map S a = Some x" if "as_map S' a = Some x" for a x
    using assms(2) [of a] that by auto
  then show ?thesis
    using isolatedD(1,2) [OF assms(1)] assms(3,4) by (intro isolatedI) blast+
qed

lemma isolated_put_None: "isolated S \<Longrightarrow> isolated (as_put S v None)"
  by (frule isolatedD(3), erule isolated_sub) (auto simp: as_put_def)

lemma isolated_need: "isolated S \<Longrightarrow> isolated (as_need S v)"
  by (frule isolatedD(3), erule isolated_sub) (auto simp: as_need_def distinct_tl dest: in_set_tl)

lemma isolated_put:
  assumes "isolated S" "page w \<notin> set (as_free S)"
    "\<And>a x. as_map S a = Some x \<Longrightarrow> page a \<noteq> page v \<Longrightarrow> page x \<noteq> page w"
  shows "isolated (as_put S v (Some w))"
proof (rule isolatedI)
  fix a b x y
  assume "as_map (as_put S v (Some w)) a = Some x" "as_map (as_put S v (Some w)) b = Some y" "page x = page y"
  then show "page a = page b"
    using assms(3) isolatedD(1) [OF assms(1), of a x b y]
    by (cases "page a = page v"; cases "page b = page v") (simp_all add: as_put_def, metis+)
next
  fix a x
  assume "as_map (as_put S v (Some w)) a = Some x"
  then show "page x \<notin> set (as_free (as_put S v (Some w)))"
    using assms(2) isolatedD(2) [OF assms(1), of a x] by (cases "page a = page v") (simp_all add: as_put_def)
qed (simp add: as_put_def isolatedD(3) [OF assms(1)])

lemma isolated_step:
  assumes "isolated S" "space_ok S x" "kernel_frames x" "\<forall>q \<in> set (as_free S). page q = q"
  shows "isolated (fst (space_step S x))"
proof (cases x)
  case (VMap v p f)
  then obtain w qs where q: "as_free S = w # qs" "p = NOT 0"
    using assms(2,3) by (cases "as_free S") auto
  have w: "page (w OR flags_to_x86 f) = w" "w \<notin> set qs"
    using assms(4) isolatedD(3) [OF assms(1)] entry_bits(2) [of w f] q by auto
  define S1 where "S1 = as_need (S\<lparr>as_free := qs\<rparr>) v"
  have "isolated (S\<lparr>as_free := qs\<rparr>)"
    using isolatedD(3) [OF assms(1)] q by (intro isolated_sub [OF assms(1)]) auto
  then have iso1: "isolated S1"
    unfolding S1_def by (rule isolated_need)
  have S1: "set (as_free S1) \<subseteq> set qs" "as_map S1 = as_map S"
    by (auto simp: S1_def as_need_def dest: in_set_tl)
  have "isolated (as_put S1 v (Some (w OR flags_to_x86 f)))"
  proof (rule isolated_put [OF iso1])
    show "page (w OR flags_to_x86 f) \<notin> set (as_free S1)"
      using w S1(1) by auto
    show "page x \<noteq> page (w OR flags_to_x86 f)" if "as_map S1 a = Some x" for a x
      using isolatedD(2) [OF assms(1), of a x] that w(1) S1(2) q(1) by auto
  qed
  then show ?thesis
    using VMap q by (simp add: as_frame_def S1_def)
next
  case (VModify v nf)
  show ?thesis
  proof (cases "as_map S v")
    case (Some y)
    have "isolated (as_put S v (Some (page y OR flags_to_x86 nf)))"
    proof (rule isolated_put [OF assms(1)])
      show "page (page y OR flags_to_x86 nf) \<notin> set (as_free S)"
        using isolatedD(2) [OF assms(1) Some] by simp
      show "page x \<noteq> page (page y OR flags_to_x86 nf)" if "as_map S a = Some x" "page a \<noteq> page v" for a x
        using isolatedD(1) [OF assms(1) that(1) Some] that(2) by auto
    qed
    with Some show ?thesis
      using VModify by simp
  qed (use VModify assms in simp)
qed (use assms isolated_put_None in auto)

lemma space_step_free: "set (as_free (fst (space_step S x))) \<subseteq> set (as_free S)"
  by (cases x) (auto simp: as_put_def as_need_def as_frame_def dest!: in_set_tl split: option.splits)

lemma isolated_run:
  "isolated S \<Longrightarrow> space_oks S ops \<Longrightarrow> list_all kernel_frames ops \<Longrightarrow> \<forall>q \<in> set (as_free S). page q = q \<Longrightarrow>
   isolated (fst (space_run S ops))"
proof (induction ops arbitrary: S)
  case (Cons x xs)
  then show ?case
    using isolated_step [of S x] space_step_free [of S x]
    by (auto simp: case_prod_unfold Let_def)
qed simp

lemma frame_of_low:
  fixes p :: u64 and v :: u32
  assumes "p < 0x100000000"
  shows "ucast (page (ucast p) OR (v AND 0xFFF)) = (p AND NOT 0xFFF) OR (ucast (v AND 0xFFF) :: u64)"
    "page (ucast p) = ucast (p AND NOT 0xFFF)"
proof -
  have "unat (take_bit 32 p) = unat p"
    using assms by (simp add: unsigned_take_bit_eq take_bit_eq_mod word_less_nat_alt unat_mod)
  then have "p = p AND mask 32"
    by (simp add: take_bit_eq_mask word_unat_eq_iff)
  then have b: "n < 32" if "bit p n" for n
    using that by (metis bit_and_iff bit_mask_iff)
  have m: "(0xFFF :: u64) = mask 12"
    by (simp add: mask_numeral)
  show "ucast (page (ucast p) OR (v AND 0xFFF)) = (p AND NOT 0xFFF) OR (ucast (v AND 0xFFF) :: u64)"
    unfolding m page_def page_mask by (rule bit_word_eqI) (auto simp: bit_simps dest: b)
  show "page (ucast p) = ucast (p AND NOT 0xFFF)"
    unfolding m page_def page_mask by (rule bit_word_eqI) (auto simp: bit_simps)
qed

section \<open>Properties\<close>


definition example_vmm :: vmm where
  "example_vmm = \<lparr>vm_mem = (\<lambda>f i. if f = 0x1000 \<and> i = 1023 then 0x1003 else 0), vm_cr3 = 0x1000,
     g_primedpage = 0, vm_pmem = example_pmem\<rparr>"

definition example_space :: aspace where
  "example_space = \<lparr>as_map = Map.empty, as_tabs = {}, as_free = [0x201000, 0x200000]\<rparr>"

lemma example_vmm_rep: "space_rep example_vmm [] example_space"
proof -
  have t: "tabs example_vmm = {}"
    by (auto simp: tabs_def example_vmm_def)
  have "tables_ok example_vmm" "table_frames example_vmm = {0x1000}" "vtrans example_vmm = Map.empty"
    by (simp_all add: tables_ok_def table_frames_def vtrans_def t fun_eq_iff) (simp_all add: example_vmm_def)
  then show ?thesis
    using example_pmem_inv t
    by (simp add: space_rep_def vmem_inv_def example_space_def) (simp add: example_vmm_def)
qed

lemmas space_eval = as_frame_def as_put_def as_need_def as_enough_def PDIR_OFFSET_def example_space_def
  page_def Let_def


text \<open>
  C13. Pages are isolated: when every mapping call leaves the frame to the kernel (physical address
  \<open>~0\<close>), then after any sequence of calls two different mapped pages are never translated to the
  same frame, and no mapped frame is still in the supply.
\<close>

theorem vmem_run_isolated:
  assumes "space_rep m fw S" "space_oks S ops" "isolated S" "list_all kernel_frames ops"
  shows "\<exists>m' rs S'. vm_run m ops = Some (m', rs) \<and> space_rep m' fw S' \<and>
    (\<forall>a b. PDIR_OFFSET a \<noteq> 1023 \<and> PDIR_OFFSET b \<noteq> 1023 \<and> walk m' a \<noteq> None \<and> walk m' a = walk m' b \<longrightarrow>
       page a = page b) \<and>
    (\<forall>a f. PDIR_OFFSET a \<noteq> 1023 \<and> walk m' a = Some f \<longrightarrow> f \<notin> set (as_free S'))"
proof -
  obtain m' where m': "vm_run m ops = Some (m', snd (space_run S ops))"
    "space_rep m' fw (fst (space_run S ops))"
    using vm_run_rep [OF assms(1,2)] by blast
  have "\<forall>q \<in> set (as_free S). page q = q"
    using assms(1) aligned_or(1) [of _ 0] by (auto simp: space_rep_def vmem_inv_def page_def)
  then have iso: "isolated (fst (space_run S ops))"
    using isolated_run assms(2-4) by blast
  have w: "walk m' a = map_option page (as_map (fst (space_run S ops)) a)" if "PDIR_OFFSET a \<noteq> 1023" for a
    using walk_trans [OF vmem_invD that] m'(2) by (auto simp: space_rep_def)
  have 1: "page a = page b"
    if "PDIR_OFFSET a \<noteq> 1023" "PDIR_OFFSET b \<noteq> 1023" "walk m' a \<noteq> None" "walk m' a = walk m' b" for a b
    using that isolatedD(1) [OF iso, of a _ b] by (auto simp: w)
  have 2: "f \<notin> set (as_free (fst (space_run S ops)))" if "PDIR_OFFSET a \<noteq> 1023" "walk m' a = Some f" for a f
    using that isolatedD(2) [OF iso, of a] by (auto simp: w)
  show ?thesis
    using m' 1 2 by blast
qed

lemma example_space_isolated: "isolated example_space"
  by (simp add: isolated_def example_space_def)

lemma vmem_run_isolated_witness:
  "\<exists>m' rs S'. vm_run example_vmm [VMap 0xD0000000 (NOT 0) 1] = Some (m', rs) \<and> space_rep m' [] S' \<and>
    (\<forall>a b. PDIR_OFFSET a \<noteq> 1023 \<and> PDIR_OFFSET b \<noteq> 1023 \<and> walk m' a \<noteq> None \<and> walk m' a = walk m' b \<longrightarrow>
       page a = page b) \<and>
    (\<forall>a f. PDIR_OFFSET a \<noteq> 1023 \<and> walk m' a = Some f \<longrightarrow> f \<notin> set (as_free S'))"
  by (rule vmem_run_isolated [OF example_vmm_rep _ example_space_isolated]) (simp_all add: space_eval)

text \<open>
  C14. A mapping reads back: after \<open>arch_vmem_map(v, p, f)\<close> for a physical address \<open>p\<close> below 4 GiB the
  processor translates the page of \<open>v\<close> to the frame of \<open>p\<close>, \<open>arch_vmem_v2p\<close> gives the frame of \<open>p\<close>
  with the offset of \<open>v\<close>, and the translation of every other page below the window on the page
  tables is what it was.
\<close>

theorem arch_vmem_map_v2p:
  assumes "space_rep m fw S" "as_enough S v" "p < 0x100000000"
  shows "\<exists>m'. arch_vmem_map m v p f = Some (m', 0) \<and>
    arch_vmem_v2p m' v = Some ((p AND NOT 0xFFF) OR ucast (v AND 0xFFF)) \<and>
    walk m' v = Some (ucast (p AND NOT 0xFFF)) \<and>
    (\<forall>a. page a \<noteq> page v \<and> PDIR_OFFSET a \<noteq> 1023 \<longrightarrow> walk m' a = walk m a)"
proof -
  define w where "w = page (ucast p)"
  define S' where "S' = as_put (as_need S v) v (Some (w OR flags_to_x86 f))"
  have "p \<noteq> NOT 0"
    using assms(3) by auto
  then have "as_frame S p = (S, w)"
    by (simp add: as_frame_def w_def)
  then obtain m' where m': "arch_vmem_map m v p f = Some (m', 0)" "space_rep m' fw S'"
    using arch_vmem_map_rep [OF assms(1), of p v f] assms(2) \<open>p \<noteq> NOT 0\<close> by (auto simp: S'_def)
  have ok: "tables_ok m" "tables_ok m'" "vtrans m = as_map S" "vtrans m' = as_map S'"
    using assms(1) m'(2) by (auto simp: space_rep_def vmem_inv_def)
  have S': "as_map S' v = Some (w OR flags_to_x86 f)" "page (w OR flags_to_x86 f) = w"
    "PDIR_OFFSET v \<in> as_tabs S'" "\<And>a. page a \<noteq> page v \<Longrightarrow> as_map S' a = as_map S a"
    by (simp_all add: S'_def as_put_def as_need_def w_def)
  have "arch_vmem_v2p m' v = Some (ucast (w OR (v AND 0xFFF)))"
    using arch_vmem_v2p_rep [OF m'(2) S'(3)] S'(1,2) by simp
  moreover have "walk m' v = Some w" "page a \<noteq> page v \<Longrightarrow> PDIR_OFFSET a \<noteq> 1023 \<Longrightarrow> walk m' a = walk m a" for a
    using walk_trans [OF ok(2), of v] walk_trans [OF ok(2), of a] walk_trans [OF ok(1), of a] assms(2) S' ok(3,4)
    by (auto simp: as_enough_def)
  ultimately show ?thesis
    using m'(1) frame_of_low [OF assms(3)] by (auto simp: w_def)
qed

lemma arch_vmem_map_v2p_witness:
  "\<exists>m'. arch_vmem_map example_vmm 0xD0000123 0xFEE00000 0x101 = Some (m', 0) \<and>
    arch_vmem_v2p m' 0xD0000123 = Some 0xFEE00123 \<and> walk m' 0xD0000123 = Some 0xFEE00000"
proof -
  have "as_enough example_space 0xD0000123"
    by (simp add: space_eval)
  from arch_vmem_map_v2p [OF example_vmm_rep this, of "0xFEE00000" "0x101"] show ?thesis
    by auto
qed

end
