(* ===== verification/Forge_Vmem_Init.thy ===== *)
theory Forge_Vmem_Init
  imports Forge_Vmem_Space
begin

text \<open>
  Start-up, segment descriptors and power transitions of the x86 address space manager
  (\<open>src/src/kernel/arch/x86/vmem.c\<close>): \<open>arch_vmem_init\<close> with the pages it frees, the stack it maps
  and the descriptor table it builds, and the callback that keeps the first 4 MiB mapped while the
  machine sleeps. \<open>arch_vmem_init\<close> also copies the live stack and moves the stack pointer, which are
  not part of the state here.
\<close>

section \<open>Model\<close>

definition KERNEL_BASE :: u32 where "KERNEL_BASE = 0xC0000000"
definition PHYS_ADDR :: u32 where "PHYS_ADDR = 0x400000"
definition STACK_TOP :: u32 where "STACK_TOP = 0xFFC00000"
definition STACK_SIZE :: u32 where "STACK_SIZE = 0x4000"

definition log2phys :: "u32 \<Rightarrow> u32" where
  "log2phys x = (x - KERNEL_BASE) + PHYS_ADDR"

definition POWERMAN_STATE_WORKING :: int where "POWERMAN_STATE_WORKING = 0"
definition POWERMAN_STATE_OFF :: int where "POWERMAN_STATE_OFF = 5"

record gdt_ptr =
  gp_limit :: u16
  gp_base :: u32

text \<open>
  \<open>vs_cpu_gdtr\<close> is the table register of the processor and \<open>vs_acpi_gdt\<close> the copy of the table that
  the wake-up code loads.
\<close>

record vm_sys =
  vs_vm :: vmm
  vs_gdt :: "gdt_entry list"
  vs_gdtr :: gdt_ptr
  vs_cpu_gdtr :: gdt_ptr
  vs_acpi_gdt :: "gdt_entry list"
  vs_persist_pdir :: u32

definition reload_gdt :: "vm_sys \<Rightarrow> vm_sys" where
  "reload_gdt s = s\<lparr>vs_cpu_gdtr := vs_gdtr s\<rparr>"

text \<open>The pages of the \<open>.init\<close> section, one element of the last argument for every page freed.\<close>

fun vmem_clear_init :: "vmm \<Rightarrow> u32 \<Rightarrow> u32 \<Rightarrow> u32 \<Rightarrow> pm_alloc list \<Rightarrow> vmm option" where
  "vmem_clear_init m c init_end phys [] = (if c < init_end then None else Some m)"
| "vmem_clear_init m c init_end phys (al # news) =
     (if c < init_end then do {
        m \<leftarrow> arch_vmem_unmap m c;
        pm \<leftarrow> pmem_dealloc (vm_pmem m) (ucast phys) al;
        vmem_clear_init (m\<lparr>vm_pmem := pm\<rparr>) (c + PAGE_SIZE) init_end (phys + 0x1000) news
      } else Some m)"

partial_function (option) vmem_map_stack :: "vmm \<Rightarrow> u32 \<Rightarrow> u32 \<Rightarrow> u32 \<Rightarrow> vmm option" where
  "vmem_map_stack m c stack_end stack_virt =
     (if c < stack_end then do {
        (m, _) \<leftarrow> arch_vmem_map m stack_virt (ucast c) (VMEM_SUPERVISOR OR VMEM_READWRITE);
        vmem_map_stack m (c + 0x1000) stack_end (stack_virt + 0x1000)
      } else Some m)"

definition vmem_gdt_init :: "vm_sys \<Rightarrow> u32 \<Rightarrow> vm_sys option" where
  "vmem_gdt_init s gdt_addr = do {
     g \<leftarrow> gdt_set (vs_gdt s) 0 0 0 0 0;
     g \<leftarrow> gdt_set g 1 0 0xFFFFFFFF 0x98 0xCF;
     g \<leftarrow> gdt_set g 2 0 0xFFFFFFFF 0x92 0xCF;
     g \<leftarrow> gdt_set g 3 0 0xFFFFFFFF 0xF8 0xCF;
     g \<leftarrow> gdt_set g 4 0 0xFFFFFFFF 0xF2 0xCF;
     Some (reload_gdt (s\<lparr>vs_gdt := g, vs_gdtr := \<lparr>gp_limit = 8 * 5 - 1, gp_base = gdt_addr\<rparr>\<rparr>))
   }"

definition arch_vmem_init :: "vm_sys \<Rightarrow> u32 \<Rightarrow> u32 \<Rightarrow> u32 \<Rightarrow> u32 \<Rightarrow> pm_alloc list \<Rightarrow> vm_sys option" where
  "arch_vmem_init s init init_end tmpstack_base gdt_addr news = do {
     m \<leftarrow> vmem_clear_init (vs_vm s) init init_end (log2phys init) news;
     let stack_phys = log2phys tmpstack_base;
     m \<leftarrow> vmem_map_stack m stack_phys (stack_phys + STACK_SIZE) (STACK_TOP - STACK_SIZE);
     m \<leftarrow> vwrite m PDIR_VIRT 0 0;
     (m, _) \<leftarrow> arch_vmem_map m 0xB8000 0xB8000 (VMEM_SUPERVISOR OR VMEM_GLOBAL OR VMEM_READWRITE);
     vmem_gdt_init (s\<lparr>vs_vm := m\<rparr>) gdt_addr
   }"

definition vmem_multicpu_init :: "vm_sys \<Rightarrow> vm_sys" where
  "vmem_multicpu_init s = reload_gdt s"

definition vmem_powerstate_change :: "vm_sys \<Rightarrow> int \<Rightarrow> (vm_sys \<times> int) option" where
  "vmem_powerstate_change s new_state =
     (if new_state = POWERMAN_STATE_WORKING then do {
        let s = reload_gdt s;
        m \<leftarrow> vwrite (vs_vm s) PDIR_VIRT 0 (vs_persist_pdir s);
        Some (s\<lparr>vs_vm := m\<rparr>, 0)
      } else if new_state < POWERMAN_STATE_OFF then do {
        let s = s\<lparr>vs_acpi_gdt := take 3 (vs_gdt s)\<rparr>;
        e \<leftarrow> vread (vs_vm s) PDIR_VIRT 0;
        m \<leftarrow> vwrite (vs_vm s) PDIR_VIRT 0 0x83;
        Some (s\<lparr>vs_vm := m, vs_persist_pdir := e\<rparr>, 0)
      } else Some (s, 0))"

section \<open>Descriptors\<close>

text \<open>The base and limit the processor reads from a descriptor.\<close>

definition gdt_base :: "gdt_entry \<Rightarrow> u32" where
  "gdt_base e = ucast (base_low e) OR push_bit 16 (ucast (base_mid e)) OR push_bit 24 (ucast (base_high e))"

definition gdt_limit :: "gdt_entry \<Rightarrow> u32" where
  "gdt_limit e = ucast (limit_low e) OR push_bit 16 (ucast (gran e AND 0x0F))"

lemma nibble_masks: "(0xF0 :: u8) = push_bit 4 (mask 4)" "(0x0F :: u8) = mask 4" "(0x0F :: u32) = mask 4"
  "(0xFFFF :: u32) = mask 16" "(0xFF :: u32) = mask 8" "(0xFFFFF :: u32) = mask 20"
  by (simp_all add: mask_numeral)

lemma gdt_base_roundtrip:
  "ucast (ucast (base AND 0xFFFF) :: u16) OR push_bit 16 (ucast (ucast (drop_bit 16 base AND 0xFF) :: u8)) OR
   push_bit 24 (ucast (ucast (drop_bit 24 base AND 0xFF) :: u8)) = (base :: u32)"
  unfolding nibble_masks
proof (rule bit_word_eqI)
  fix n
  assume "n < LENGTH(32)"
  then show "bit (ucast (ucast (base AND mask 16) :: u16) OR
      push_bit 16 (ucast (ucast (drop_bit 16 base AND mask 8) :: u8)) OR
      push_bit 24 (ucast (ucast (drop_bit 24 base AND mask 8) :: u8)) :: u32) n = bit base n"
    by (cases "n < 16"; cases "n < 24") (auto simp: bit_simps)
qed

lemma gdt_limit_roundtrip:
  fixes gr :: u8 and limit :: u32
  shows "ucast (ucast (limit AND 0xFFFF) :: u16) OR
   push_bit 16 (ucast ((ucast ((drop_bit 16 limit AND 0x0F) OR ucast (gr AND 0xF0)) :: u8) AND 0x0F))
   = limit AND 0xFFFFF"
  unfolding nibble_masks by (rule bit_word_eqI) (auto simp: bit_simps)

lemma gdt_gran_roundtrip:
  "(ucast ((drop_bit 16 (limit :: u32) AND 0x0F) OR ucast (gr AND 0xF0)) :: u8) AND 0xF0 = gr AND 0xF0"
  unfolding nibble_masks by (rule bit_word_eqI) (auto simp: bit_simps)

section \<open>Properties\<close>

text \<open>
  C15. For each of the 16 slots of the descriptor table, \<open>gdt_set\<close> stores a descriptor from which the
  processor reads back the full 32-bit base, the low 20 bits of the limit, the access byte and the
  granularity flags, and leaves the other slots alone.
\<close>

theorem gdt_set_decodes:
  assumes "length gdt = 16" "0 \<le> n" "n < 16"
  shows "\<exists>gdt'. gdt_set gdt n base limit acc gr = Some gdt' \<and> length gdt' = 16 \<and>
    gdt_base (gdt' ! nat n) = base \<and> gdt_limit (gdt' ! nat n) = limit AND 0xFFFFF \<and>
    access (gdt' ! nat n) = acc \<and> gran (gdt' ! nat n) AND 0xF0 = gr AND 0xF0 \<and>
    (\<forall>k. k \<noteq> nat n \<longrightarrow> gdt' ! k = gdt ! k)"
  using assms gdt_base_roundtrip [of base] gdt_limit_roundtrip [of limit gr] gdt_gran_roundtrip [of limit gr]
  by (simp add: gdt_set_def gdt_base_def gdt_limit_def)

lemma gdt_set_decodes_witness:
  "\<exists>gdt'. gdt_set (replicate 16 \<lparr>limit_low = 0, base_low = 0, base_mid = 0, access = 0, gran = 0, base_high = 0\<rparr>)
      1 0x12345678 0xFFFFFFFF 0x98 0xCF = Some gdt' \<and>
    gdt_base (gdt' ! 1) = 0x12345678 \<and> gdt_limit (gdt' ! 1) = 0xFFFFF"
  using gdt_set_decodes [of "replicate 16 \<lparr>limit_low = 0, base_low = 0, base_mid = 0, access = 0, gran = 0, base_high = 0\<rparr>"
      1 "0x12345678" "0xFFFFFFFF" "0x98" "0xCF"]
  by auto

text \<open>The guard of \<open>gdt_set\<close> lets the slot behind the table pass.\<close>

lemma gdt_set_slot_16: "length gdt = 16 \<Longrightarrow> gdt_set gdt 16 base limit acc gr = None"
  by (simp add: gdt_set_def)

lemma walk_poke_0:
  assumes "tables_ok m"
  shows "walk (poke m (vm_cr3 m) 0 x) PDIR_VIRT = Some (vm_cr3 m)"
  using assms by (simp add: walk_def tables_ok_def Let_def PDIR_VIRT_def)

lemma low_address: "(a :: u32) < 0x400000 \<Longrightarrow> drop_bit 22 a = 0"
  unfolding word_unat_eq_iff unat_drop_bit by (simp add: word_less_nat_alt)

lemma low_page: "(a :: u32) < 0x400000 \<Longrightarrow> a AND 0x003FF000 = page a"
proof -
  assume "a < 0x400000"
  then have "unat (take_bit 22 a) = unat a"
    by (simp add: unsigned_take_bit_eq take_bit_eq_mod word_less_nat_alt unat_mod)
  then have "a AND 0x3FFFFF = a"
    by (simp add: take_bit_eq_mask word_unat_eq_iff mask_numeral)
  then have "page a = a AND (0x3FFFFF AND 0xFFFFF000)"
    unfolding page_def by (metis and.assoc)
  then show "a AND 0x003FF000 = page a"
    by simp
qed

text \<open>
  C16. Sleeping and waking up restores the address space: for every sleep state the callback maps the
  first 4 MiB one to one for the wake-up code, and the callback for the working state afterwards
  gives back exactly the page tables from before and reloads the descriptor table.
\<close>

theorem vmem_sleep_wake:
  assumes "tables_ok (vs_vm s)" "POWERMAN_STATE_WORKING < st" "st < POWERMAN_STATE_OFF"
  shows "\<exists>s1 s2. vmem_powerstate_change s st = Some (s1, 0) \<and>
    (\<forall>a. a < 0x400000 \<longrightarrow> walk (vs_vm s1) a = Some (page a)) \<and>
    vs_acpi_gdt s1 = take 3 (vs_gdt s) \<and>
    vmem_powerstate_change s1 POWERMAN_STATE_WORKING = Some (s2, 0) \<and>
    vs_vm s2 = vs_vm s \<and> vs_cpu_gdtr s2 = vs_gdtr s"
proof -
  define m where "m = vs_vm s"
  define m1 where "m1 = poke m (vm_cr3 m) 0 0x83"
  define s1 where "s1 = s\<lparr>vs_acpi_gdt := take 3 (vs_gdt s), vs_vm := m1, vs_persist_pdir := vm_mem m (vm_cr3 m) 0\<rparr>"
  have 1: "vmem_powerstate_change s st = Some (s1, 0)"
    using assms by (simp add: vmem_powerstate_change_def s1_def m1_def m_def POWERMAN_STATE_WORKING_def)
  have "walk m1 a = Some (page a)" if "a < 0x400000" for a
    using low_page [OF that] low_address [OF that] by (simp add: walk_def m1_def)
  moreover have "vwrite m1 PDIR_VIRT 0 (vm_mem m (vm_cr3 m) 0) = Some m"
    using walk_poke_0 [of m "0x83"] assms(1) by (simp add: vwrite_def m1_def m_def poke_def fun_eq_iff)
  ultimately show ?thesis
    using 1 by (simp add: vmem_powerstate_change_def s1_def reload_gdt_def m_def POWERMAN_STATE_WORKING_def)
qed

definition example_sys :: vm_sys where
  "example_sys = \<lparr>vs_vm = example_vmm, vs_gdt = [], vs_gdtr = \<lparr>gp_limit = 39, gp_base = 0xC0100000\<rparr>,
     vs_cpu_gdtr = \<lparr>gp_limit = 0, gp_base = 0\<rparr>, vs_acpi_gdt = [], vs_persist_pdir = 0\<rparr>"

lemma example_sys_tables: "tables_ok (vs_vm example_sys)" "vs_persist_pdir example_sys = 0"
  using example_vmm_rep by (simp_all add: example_sys_def space_rep_def vmem_inv_def)

lemma vmem_sleep_wake_witness:
  "\<exists>s1 s2. vmem_powerstate_change example_sys 3 = Some (s1, 0) \<and>
    (\<forall>a. a < 0x400000 \<longrightarrow> walk (vs_vm s1) a = Some (page a)) \<and>
    vs_acpi_gdt s1 = take 3 (vs_gdt example_sys) \<and>
    vmem_powerstate_change s1 POWERMAN_STATE_WORKING = Some (s2, 0) \<and>
    vs_vm s2 = vs_vm example_sys \<and> vs_cpu_gdtr s2 = vs_gdtr example_sys"
  by (rule vmem_sleep_wake [OF example_sys_tables(1)])
    (simp_all add: POWERMAN_STATE_WORKING_def POWERMAN_STATE_OFF_def)

text \<open>
  A power-off that the platform refuses takes the first 4 MiB away: the callback for the off state
  saves nothing, so the callback for the working state that follows the refusal writes back a
  directory entry that was never saved, and every address below 4 MiB faults from then on.
\<close>

theorem vmem_refused_power_off:
  assumes "tables_ok (vs_vm s)" "vs_persist_pdir s = 0"
  shows "\<exists>s'. vmem_powerstate_change s POWERMAN_STATE_OFF = Some (s, 0) \<and>
    vmem_powerstate_change s POWERMAN_STATE_WORKING = Some (s', 0) \<and>
    (\<forall>a. a < 0x400000 \<longrightarrow> walk (vs_vm s') a = None)"
  using assms low_address
  by (auto simp: vmem_powerstate_change_def POWERMAN_STATE_WORKING_def POWERMAN_STATE_OFF_def reload_gdt_def
    walk_def Let_def)

lemma vmem_refused_power_off_witness:
  "\<exists>s'. vmem_powerstate_change example_sys POWERMAN_STATE_OFF = Some (example_sys, 0) \<and>
    vmem_powerstate_change example_sys POWERMAN_STATE_WORKING = Some (s', 0) \<and>
    (\<forall>a. a < 0x400000 \<longrightarrow> walk (vs_vm s') a = None)"
  by (rule vmem_refused_power_off [OF example_sys_tables])

end
