(* ===== verification/Forge_Pool.thy ===== *)
theory Forge_Pool
  imports Forge_Vmem_Space
begin

text \<open>
  Pools of equal-sized buffers, \<open>src/src/kernel/pool.c\<close>, over the address space of \<open>Forge_Vmem\<close>. A
  pool has a bitmap of the buffers in use and a count of the allocations made so far; a bitmap is a
  heap object of its own, and an access behind its end has no result.
\<close>

section \<open>Model\<close>

record spool =
  sp_base :: u32
  sp_bitmap :: ptr
  buffer_size :: u32
  buffer_count :: u32
  alloc_count :: u32

record pools =
  pl_pools :: "spool heap"
  pl_bitmaps :: "u32 list heap"
  pool_base :: u32
  pl_vm :: vmm

definition POOL_BASE :: u32 where
  "POOL_BASE = 0xE0000000"

definition create_pool_at :: "pools \<Rightarrow> u32 \<Rightarrow> u32 \<Rightarrow> u32 \<Rightarrow> ptr \<Rightarrow> ptr \<Rightarrow> (pools \<times> ptr) option" where
  "create_pool_at st buffsz buffcnt addr p bp = do {
     let h = malloc (pl_pools st) p;
     h \<leftarrow> upd h p (\<lambda>s. s\<lparr>sp_base := addr, alloc_count := 0, buffer_count := buffcnt, buffer_size := buffsz\<rparr>);
     let wordcount = buffcnt div 32;
     let wordcount = (if wordcount = 0 then 1 else wordcount);
     let b = malloc (pl_bitmaps st) bp;
     h \<leftarrow> upd h p (\<lambda>s. s\<lparr>sp_bitmap := bp\<rparr>);
     b \<leftarrow> upd b bp (\<lambda>_. replicate (unat wordcount) 0);
     Some (st\<lparr>pl_pools := h, pl_bitmaps := b\<rparr>, p)
   }"

definition create_pool :: "pools \<Rightarrow> u32 \<Rightarrow> u32 \<Rightarrow> ptr \<Rightarrow> ptr \<Rightarrow> (pools \<times> ptr) option" where
  "create_pool st buffsz buffcnt p bp = do {
     (st, ret) \<leftarrow> create_pool_at st buffsz buffcnt (pool_base st) p bp;
     Some (st\<lparr>pool_base := pool_base st + buffsz * buffcnt\<rparr>, ret)
   }"

text \<open>The first clear bit of a bitmap word from bit \<open>i\<close> on, or 32.\<close>

function find_clear :: "u32 \<Rightarrow> nat \<Rightarrow> nat" where
  "find_clear w i = (if i < 32 then if w AND push_bit i 1 = 0 then i else find_clear w (Suc i) else 32)"
  by auto
termination by (relation "measure (\<lambda>(w, i). 32 - i)") auto

declare find_clear.simps [simp del]

definition word_at :: "u32 list \<Rightarrow> u32 \<Rightarrow> u32 option" where
  "word_at bm i = (if unat i < length bm then Some (bm ! unat i) else None)"

text \<open>\<open>n\<close> pages of the buffer at \<open>addr\<close>, from page \<open>i\<close> on; the results of \<open>vmem_map\<close> are ignored.\<close>

fun pool_map :: "vmm \<Rightarrow> u32 \<Rightarrow> u32 \<Rightarrow> nat \<Rightarrow> vmm option" where
  "pool_map m addr i 0 = Some m"
| "pool_map m addr i (Suc n) = do {
     (m, _) \<leftarrow> arch_vmem_map m (addr + i * 0x1000) (NOT 0) (VMEM_READWRITE OR VMEM_SUPERVISOR);
     pool_map m addr (i + 1) n
   }"

text \<open>Memory behind the buffer, when its first page has none.\<close>

definition pool_back :: "vmm \<Rightarrow> u32 \<Rightarrow> u32 \<Rightarrow> vmm option" where
  "pool_back m addr bsize = do {
     mapped \<leftarrow> arch_vmem_ismapped m addr;
     if \<not> mapped then pool_map m addr 0 (unat ((bsize + 0xFFF) div 0x1000)) else Some m
   }"

definition pool_alloc :: "pools \<Rightarrow> ptr \<Rightarrow> (pools \<times> u32) option" where
  "pool_alloc st p =
     (if p = NULL then Some (st, 0)
      else do {
        s \<leftarrow> load (pl_pools st) p;
        if alloc_count s = buffer_count s then Some (st, 0)
        else do {
          let wi = alloc_count s div 32;
          bm \<leftarrow> load (pl_bitmaps st) (sp_bitmap s);
          w \<leftarrow> word_at bm wi;
          let idx = find_clear w 0;
          b \<leftarrow> (if idx < 32 then upd (pl_bitmaps st) (sp_bitmap s) (\<lambda>bm. bm[unat wi := w OR push_bit idx 1])
               else Some (pl_bitmaps st));
          let buffer_idx = of_nat idx + wi * 32;
          let addr = sp_base s + buffer_idx * buffer_size s;
          m \<leftarrow> pool_back (pl_vm st) addr (buffer_size s);
          h \<leftarrow> upd (pl_pools st) p (\<lambda>s. s\<lparr>alloc_count := alloc_count s + 1\<rparr>);
          Some (st\<lparr>pl_pools := h, pl_bitmaps := b, pl_vm := m\<rparr>, addr)
        }
      })"

text \<open>A division by a zero buffer size has no result.\<close>

definition do_pool_dealloc :: "pools \<Rightarrow> ptr \<Rightarrow> u32 \<Rightarrow> (pools \<times> int) option" where
  "do_pool_dealloc st p addr =
     (if p = NULL then Some (st, -1)
      else do {
        s \<leftarrow> load (pl_pools st) p;
        if addr < sp_base s \<or> addr > sp_base s + buffer_size s * buffer_count s then Some (st, -1)
        else if buffer_size s = 0 then None
        else do {
          let buffer_idx = (addr - sp_base s) div buffer_size s;
          let wi = buffer_idx div 32;
          let b = buffer_idx mod 32;
          bm \<leftarrow> load (pl_bitmaps st) (sp_bitmap s);
          w \<leftarrow> word_at bm wi;
          bms \<leftarrow> upd (pl_bitmaps st) (sp_bitmap s) (\<lambda>bm. bm[unat wi := w AND NOT (push_bit (unat b) 1)]);
          Some (st\<lparr>pl_bitmaps := bms\<rparr>, 0)
        }
      })"

definition pool_dealloc :: "pools \<Rightarrow> ptr \<Rightarrow> u32 \<Rightarrow> pools option" where
  "pool_dealloc st p addr = do { (st, _) \<leftarrow> do_pool_dealloc st p addr; Some st }"

text \<open>One element of the last argument for every page given back.\<close>

fun pool_release :: "vmm \<Rightarrow> u32 \<Rightarrow> u32 \<Rightarrow> nat \<Rightarrow> pm_alloc list \<Rightarrow> vmm option" where
  "pool_release m addr i 0 news = Some m"
| "pool_release m addr i (Suc n) [] = None"
| "pool_release m addr i (Suc n) (al # news) = do {
     phys \<leftarrow> arch_vmem_v2p m addr;
     m \<leftarrow> arch_vmem_unmap m addr;
     pm \<leftarrow> pmem_dealloc (vm_pmem m) phys al;
     pool_release (m\<lparr>vm_pmem := pm\<rparr>) (addr + i * 0x1000) (i + 1) n news
   }"

definition pool_dealloc_and_free :: "pools \<Rightarrow> ptr \<Rightarrow> u32 \<Rightarrow> pm_alloc list \<Rightarrow> pools option" where
  "pool_dealloc_and_free st p addr news = do {
     (st, r) \<leftarrow> do_pool_dealloc st p addr;
     if r \<ge> 0 then do {
       s \<leftarrow> load (pl_pools st) p;
       m \<leftarrow> pool_release (pl_vm st) addr 0 (unat ((buffer_size s + 0xFFF) div 0x1000)) news;
       Some (st\<lparr>pl_vm := m\<rparr>)
     } else Some st
   }"

definition pool_count :: "pools \<Rightarrow> ptr \<Rightarrow> u32 option" where
  "pool_count st p =
     (if p = NULL then Some 0 else do { s \<leftarrow> load (pl_pools st) p; Some (alloc_count s) })"

section \<open>Bitmap words\<close>

lemma find_clear_le:
  assumes "\<not> bit w k" "i \<le> k" "k < 32"
  shows "find_clear w i \<le> k \<and> \<not> bit w (find_clear w i)"
  using assms
proof (induction w i rule: find_clear.induct)
  case (1 w i)
  show ?case
  proof (cases "bit w i")
    case True
    with 1 have "Suc i \<le> k"
      using le_neq_implies_less by (metis Suc_leI)
    moreover from this True have "find_clear w i = find_clear w (Suc i)"
      using 1(4) by (subst find_clear.simps) (simp add: and_exp_eq_0_iff_not_bit)
    ultimately show ?thesis
      using 1 True by (simp add: and_exp_eq_0_iff_not_bit)
  qed (use 1 in \<open>simp add: find_clear.simps [of w i] and_exp_eq_0_iff_not_bit\<close>)
qed

section \<open>The buffers of a pool\<close>

text \<open>
  \<open>pool_rep st p B L n\<close>: \<open>p\<close> is a pool of buffers with the geometry \<open>B\<close>, the buffers numbered \<open>L\<close> are
  in use, all of them below \<open>n\<close>, the number of allocations made so far, and the bitmap has the bits of
  exactly these buffers set. \<open>geo_full\<close> says that the bitmap is long enough for every buffer.
\<close>

record pool_geo =
  pg_base :: u32
  pg_size :: u32
  pg_count :: u32
  pg_words :: nat

definition geo_ok :: "pool_geo \<Rightarrow> bool" where
  "geo_ok B \<longleftrightarrow> pg_base B \<noteq> 0 \<and> pg_size B \<noteq> 0 \<and>
     unat (pg_base B) + unat (pg_size B) * unat (pg_count B) + 0x1000 \<le> 0xFFC00000"

definition geo_full :: "pool_geo \<Rightarrow> bool" where
  "geo_full B \<longleftrightarrow> unat (pg_count B) \<le> 32 * pg_words B"

definition buf :: "pool_geo \<Rightarrow> nat \<Rightarrow> u32" where
  "buf B k = pg_base B + of_nat k * pg_size B"

definition pool_rep :: "pools \<Rightarrow> ptr \<Rightarrow> pool_geo \<Rightarrow> nat set \<Rightarrow> nat \<Rightarrow> bool" where
  "pool_rep st p B L n \<longleftrightarrow>
     geo_ok B \<and> valid (pl_pools st) p \<and>
     (let s = cells (pl_pools st) p; bm = cells (pl_bitmaps st) (sp_bitmap s) in
      valid (pl_bitmaps st) (sp_bitmap s) \<and>
      sp_base s = pg_base B \<and> buffer_size s = pg_size B \<and> buffer_count s = pg_count B \<and>
      alloc_count s = of_nat n \<and> n \<le> unat (pg_count B) \<and> n \<le> 32 * length bm \<and>
      length bm = pg_words B \<and> L \<subseteq> {..<n} \<and>
      (\<forall>k < 32 * length bm. bit (bm ! (k div 32)) (k mod 32) \<longleftrightarrow> k \<in> L))"

lemma unat_of_nat_mult:
  fixes s :: u32
  assumes "k < 2 ^ 32" "k * unat s < 2 ^ 32"
  shows "unat (of_nat k * s) = k * unat s"
proof -
  have "unat (of_nat k :: u32) = k"
    using assms(1) by (simp add: unat_of_nat)
  then show ?thesis
    using assms(2) by (simp add: unat_word_ariths)
qed

lemma buf_unat:
  assumes "geo_ok B" "k < unat (pg_count B)"
  shows "unat (buf B k) = unat (pg_base B) + k * unat (pg_size B)"
    "unat (buf B k) + unat (pg_size B) \<le> unat (pg_base B) + unat (pg_size B) * unat (pg_count B)"
proof -
  have le: "Suc k * unat (pg_size B) \<le> unat (pg_size B) * unat (pg_count B)"
    using assms(2) by (subst mult.commute) (intro mult_le_mono, simp_all)
  have b: "unat (pg_base B) + unat (pg_size B) * unat (pg_count B) + 0x1000 \<le> 0xFFC00000"
    using assms(1) by (simp add: geo_ok_def)
  have "k < 2 ^ 32"
    using assms(2) unsigned_less [of "pg_count B", where ?'a = nat] by simp
  moreover have "k * unat (pg_size B) < 2 ^ 32"
    using le b by simp
  ultimately have "unat (of_nat k * pg_size B) = k * unat (pg_size B)"
    by (rule unat_of_nat_mult)
  then show e: "unat (buf B k) = unat (pg_base B) + k * unat (pg_size B)"
    unfolding buf_def using le b by (subst unat_add_no_overflow) simp_all
  show "unat (buf B k) + unat (pg_size B) \<le> unat (pg_base B) + unat (pg_size B) * unat (pg_count B)"
    using e le by simp
qed

lemma buf_inj:
  assumes "geo_ok B" "k < unat (pg_count B)" "j < unat (pg_count B)" "buf B k = buf B j"
  shows "k = j"
proof -
  have "k * unat (pg_size B) = j * unat (pg_size B)"
    using buf_unat(1) [OF assms(1,2)] buf_unat(1) [OF assms(1,3)] assms(4) by (metis add_left_imp_eq)
  moreover have "0 < unat (pg_size B)"
    using assms(1) by (simp add: geo_ok_def unat_gt_0)
  ultimately show ?thesis
    by simp
qed

lemma buf_nonzero: "geo_ok B \<Longrightarrow> k < unat (pg_count B) \<Longrightarrow> buf B k \<noteq> 0"
  using buf_unat(1) [of B k] by (auto simp: geo_ok_def word_unat_eq_iff)

lemma below_window: "unat a < 0xFFC00000 \<Longrightarrow> PDIR_OFFSET a \<noteq> 1023"
  by (auto simp: word_unat_eq_iff unat_PDIR_OFFSET)

lemma pool_map_rep:
  "space_rep m fw S \<Longrightarrow> \<forall>j<n. PDIR_OFFSET (addr + (i + of_nat j) * 0x1000) \<noteq> 1023 \<Longrightarrow>
   2 * n \<le> length (as_free S) \<Longrightarrow>
   \<exists>m' S'. pool_map m addr i n = Some m' \<and> space_rep m' fw S' \<and>
     length (as_free S) \<le> length (as_free S') + 2 * n \<and>
     (\<forall>a. as_map S a \<noteq> None \<longrightarrow> as_map S' a \<noteq> None) \<and>
     (0 < n \<longrightarrow> as_map S' (addr + i * 0x1000) \<noteq> None)"
proof (induction n arbitrary: m S i)
  case (Suc n)
  define v where "v = addr + i * 0x1000"
  define S1 where "S1 = as_put (as_need (S\<lparr>as_free := tl (as_free S)\<rparr>) v) v
    (Some (hd (as_free S) OR flags_to_x86 (VMEM_READWRITE OR VMEM_SUPERVISOR)))"
  obtain q q' qs where q: "as_free S = q # q' # qs"
    using Suc.prems(3) by (cases "as_free S"; cases "tl (as_free S)") auto
  have v: "PDIR_OFFSET v \<noteq> 1023"
    using Suc.prems(2) [rule_format, of 0] by (simp add: v_def)
  obtain m1 where m1: "arch_vmem_map m v (NOT 0) (VMEM_READWRITE OR VMEM_SUPERVISOR) = Some (m1, 0)"
    "space_rep m1 fw S1"
    using arch_vmem_map_rep [OF Suc.prems(1), of "NOT 0" v] q v
    by (auto simp: as_frame_def as_enough_def S1_def)
  have S1: "length (as_free S) \<le> length (as_free S1) + 2" "as_map S a \<noteq> None \<Longrightarrow> as_map S1 a \<noteq> None"
    "as_map S1 v \<noteq> None" for a
    using q by (auto simp: S1_def as_put_def as_need_def)
  have "\<forall>j<n. PDIR_OFFSET (addr + (i + 1 + of_nat j) * 0x1000) \<noteq> 1023"
    using Suc.prems(2) by (auto simp: algebra_simps dest: spec [of _ "Suc j" for j])
  then obtain m' S' where "pool_map m1 addr (i + 1) n = Some m'" "space_rep m' fw S'"
      "length (as_free S1) \<le> length (as_free S') + 2 * n" "\<forall>a. as_map S1 a \<noteq> None \<longrightarrow> as_map S' a \<noteq> None"
    using Suc.IH [OF m1(2), of "i + 1"] Suc.prems(3) S1(1) by auto
  with m1(1) S1 show ?case
    by (intro exI [of _ m'] exI [of _ S']) (auto simp: v_def)
qed auto

section \<open>Operations\<close>

definition npages :: "pool_geo \<Rightarrow> nat" where
  "npages B = unat ((pg_size B + 0xFFF) div 0x1000)"

lemma npages_window:
  assumes "geo_ok B" "k < unat (pg_count B)" "j < npages B"
  shows "PDIR_OFFSET (buf B k + of_nat j * 0x1000) \<noteq> 1023"
proof -
  have b: "unat (buf B k) + unat (pg_size B) + 0x1000 \<le> 0xFFC00000"
    using buf_unat(2) [OF assms(1,2)] assms(1) by (simp add: geo_ok_def)
  then have "unat (pg_size B + 0xFFF) = unat (pg_size B) + 0xFFF"
    by (subst unat_add_no_overflow) simp_all
  then have j: "j * 0x1000 < unat (pg_size B) + 0x1000"
    using assms(3) by (simp add: npages_def unat_div)
  then have "unat (of_nat j * 0x1000 :: u32) = j * 0x1000"
    using b by (subst unat_of_nat_mult) simp_all
  then have "unat (buf B k + of_nat j * 0x1000) = unat (buf B k) + j * 0x1000"
    using b j by (subst unat_add_no_overflow) simp_all
  then show ?thesis
    using b j by (intro below_window) simp
qed

lemma bit_set_word:
  assumes "i < 32"
  shows "bit ((w :: u32) OR push_bit i 1) j \<longleftrightarrow> bit w j \<or> j = i"
    "bit (w AND NOT (push_bit i 1)) j \<longleftrightarrow> bit w j \<and> j \<noteq> i"
proof -
  have "bit (push_bit i (1 :: u32)) j \<longleftrightarrow> j = i"
    using assms by (auto simp: bit_exp_iff possible_bit_word)
  then show "bit (w OR push_bit i 1) j \<longleftrightarrow> bit w j \<or> j = i"
      "bit (w AND NOT (push_bit i 1)) j \<longleftrightarrow> bit w j \<and> j \<noteq> i"
    unfolding bit_or_iff bit_and_iff bit_not_iff using bit_imp_possible_bit [of w j] by blast+
qed

lemma bitmap_update:
  assumes "\<forall>k < 32 * length bm. bit ((bm :: u32 list) ! (k div 32)) (k mod 32) \<longleftrightarrow> k \<in> L" "i < 32 * length bm"
  shows "\<forall>k < 32 * length bm. bit (bm[i div 32 := bm ! (i div 32) OR push_bit (i mod 32) 1] ! (k div 32)) (k mod 32)
      \<longleftrightarrow> k \<in> insert i L"
    "\<forall>k < 32 * length bm. bit (bm[i div 32 := bm ! (i div 32) AND NOT (push_bit (i mod 32) 1)] ! (k div 32)) (k mod 32)
      \<longleftrightarrow> k \<in> L - {i}"
proof -
  have len: "k div 32 < length bm" if "k < 32 * length bm" for k
    using that by (simp add: less_mult_imp_div_less mult.commute)
  have eq: "k = i \<longleftrightarrow> k div 32 = i div 32 \<and> k mod 32 = i mod 32" for k :: nat
    by (metis div_mult_mod_eq)
  have "bit (bm[i div 32 := bm ! (i div 32) OR push_bit (i mod 32) 1] ! (k div 32)) (k mod 32) \<longleftrightarrow> k \<in> insert i L"
    "bit (bm[i div 32 := bm ! (i div 32) AND NOT (push_bit (i mod 32) 1)] ! (k div 32)) (k mod 32) \<longleftrightarrow> k \<in> L - {i}"
    if k: "k < 32 * length bm" for k
  proof -
    have u: "bm[i div 32 := x] ! (k div 32) = (if k div 32 = i div 32 then x else bm ! (k div 32))" for x
      using len [OF k] by (simp add: nth_list_update)
    have s: "bit (bm ! (i div 32) OR push_bit (i mod 32) 1) (k mod 32) \<longleftrightarrow> bit (bm ! (i div 32)) (k mod 32) \<or> k mod 32 = i mod 32"
      "bit (bm ! (i div 32) AND NOT (push_bit (i mod 32) 1)) (k mod 32) \<longleftrightarrow> bit (bm ! (i div 32)) (k mod 32) \<and> k mod 32 \<noteq> i mod 32"
      by (rule bit_set_word, simp)+
    show "bit (bm[i div 32 := bm ! (i div 32) OR push_bit (i mod 32) 1] ! (k div 32)) (k mod 32) \<longleftrightarrow> k \<in> insert i L"
      "bit (bm[i div 32 := bm ! (i div 32) AND NOT (push_bit (i mod 32) 1)] ! (k div 32)) (k mod 32) \<longleftrightarrow> k \<in> L - {i}"
      unfolding u insert_iff Diff_iff empty_iff eq [of k] assms(1) [rule_format, OF k, symmetric]
      by (cases "k div 32 = i div 32"; simp only: s simp_thms if_True if_False; blast)+
  qed
  then show "\<forall>k < 32 * length bm. bit (bm[i div 32 := bm ! (i div 32) OR push_bit (i mod 32) 1] ! (k div 32)) (k mod 32)
      \<longleftrightarrow> k \<in> insert i L"
    "\<forall>k < 32 * length bm. bit (bm[i div 32 := bm ! (i div 32) AND NOT (push_bit (i mod 32) 1)] ! (k div 32)) (k mod 32)
      \<longleftrightarrow> k \<in> L - {i}"
    by blast+
qed

text \<open>The buffer the next allocation takes: the first clear bit in the word of the allocation count.\<close>

lemma next_buffer:
  assumes "\<forall>k < 32 * length bm. bit ((bm :: u32 list) ! (k div 32)) (k mod 32) \<longleftrightarrow> k \<in> L" "L \<subseteq> {..<n}"
    "n < 32 * length bm"
  defines "i \<equiv> find_clear (bm ! (n div 32)) 0 + n div 32 * 32"
  shows "find_clear (bm ! (n div 32)) 0 < 32" "i \<le> n" "i \<notin> L" "i div 32 = n div 32"
    "i mod 32 = find_clear (bm ! (n div 32)) 0"
proof -
  let ?f = "find_clear (bm ! (n div 32)) 0"
  have "\<not> bit (bm ! (n div 32)) (n mod 32)"
    using assms(1) [rule_format, OF assms(3)] assms(2) by auto
  then have f: "?f \<le> n mod 32" "\<not> bit (bm ! (n div 32)) ?f"
    using find_clear_le [of "bm ! (n div 32)" "n mod 32" 0] by auto
  then show less: "?f < 32"
    by (meson le_less_trans mod_less_divisor zero_less_numeral)
  have "n = n mod 32 + n div 32 * 32"
    by (metis add.commute div_mult_mod_eq)
  then show le: "i \<le> n"
    using f(1) unfolding i_def by linarith
  show d: "i div 32 = n div 32" "i mod 32 = ?f"
    using less by (auto simp: i_def)
  show "i \<notin> L"
    using assms(1) [rule_format, of i] f(2) d le assms(3) by auto
qed

lemma pool_repE:
  assumes "pool_rep st p B L n"
  obtains s bm where "s = cells (pl_pools st) p" "bm = cells (pl_bitmaps st) (sp_bitmap s)"
    "load (pl_pools st) p = Some s" "load (pl_bitmaps st) (sp_bitmap s) = Some bm"
    "valid (pl_pools st) p" "valid (pl_bitmaps st) (sp_bitmap s)" "p \<noteq> NULL"
    "sp_base s = pg_base B" "buffer_size s = pg_size B" "buffer_count s = pg_count B"
    "alloc_count s = of_nat n" "n \<le> unat (pg_count B)" "n \<le> 32 * length bm" "L \<subseteq> {..<n}"
    "\<forall>k < 32 * length bm. bit (bm ! (k div 32)) (k mod 32) \<longleftrightarrow> k \<in> L" "geo_ok B"
    "length bm = pg_words B"
  using assms by (auto simp: pool_rep_def Let_def heap_simps)

lemma pool_rep_bounds: "pool_rep st p B L n \<Longrightarrow> geo_ok B \<and> n \<le> unat (pg_count B) \<and> L \<subseteq> {..<n}"
  by (simp add: pool_rep_def Let_def)

lemma count_less: "geo_ok B \<Longrightarrow> n \<le> unat (pg_count B) \<Longrightarrow> n < 2 ^ 32"
  using unsigned_less [of "pg_count B", where ?'a = nat] by simp

text \<open>An allocation takes a buffer that was not in use and makes sure that its first page is mapped.\<close>

lemma of_nat_div_32: "n < 2 ^ 32 \<Longrightarrow> (of_nat n :: u32) div 32 = of_nat (n div 32)"
  by (simp add: word_unat_eq_iff unat_div unat_of_nat)

lemma pool_back_rep:
  assumes "space_rep m fw S" "geo_ok B" "i < unat (pg_count B)" "2 * npages B \<le> length (as_free S)" "0 < npages B"
  obtains m' S' where "pool_back m (buf B i) (pg_size B) = Some m'" "space_rep m' fw S'"
    "length (as_free S) \<le> length (as_free S') + 2 * npages B"
    "\<forall>a. as_map S a \<noteq> None \<longrightarrow> as_map S' a \<noteq> None" "as_map S' (buf B i) \<noteq> None"
proof (cases "as_map S (buf B i)")
  case None
  have win: "\<forall>j<npages B. PDIR_OFFSET (buf B i + (0 + of_nat j) * 0x1000) \<noteq> 1023" "PDIR_OFFSET (buf B i) \<noteq> 1023"
    using npages_window [OF assms(2,3)] npages_window [OF assms(2,3,5)] by auto
  with None show thesis
    using pool_map_rep [OF assms(1) win(1) assms(4)] assms(5) that arch_vmem_ismapped_rep [OF assms(1) win(2)]
    by (auto simp: pool_back_def npages_def)
next
  case (Some x)
  have "PDIR_OFFSET (buf B i) \<noteq> 1023"
    using npages_window [OF assms(2,3,5)] by simp
  with Some show thesis
    using assms(1) that [of m S] by (simp add: pool_back_def arch_vmem_ismapped_rep)
qed

lemma pool_alloc_rep:
  assumes "pool_rep st p B L n" "space_rep (pl_vm st) fw S" "n < unat (pg_count B)"
    "2 * npages B \<le> length (as_free S)" "0 < npages B" "geo_full B"
  obtains st' i S' where "pool_alloc st p = Some (st', buf B i)" "i \<notin> L" "i \<le> n"
    "pool_rep st' p B (insert i L) (Suc n)" "space_rep (pl_vm st') fw S'"
    "length (as_free S) \<le> length (as_free S') + 2 * npages B"
    "\<forall>a. as_map S a \<noteq> None \<longrightarrow> as_map S' a \<noteq> None" "as_map S' (buf B i) \<noteq> None"
proof -
  obtain s bm where s: "s = cells (pl_pools st) p" "bm = cells (pl_bitmaps st) (sp_bitmap s)"
    "load (pl_pools st) p = Some s" "load (pl_bitmaps st) (sp_bitmap s) = Some bm"
    "valid (pl_pools st) p" "valid (pl_bitmaps st) (sp_bitmap s)" "p \<noteq> NULL"
    "sp_base s = pg_base B" "buffer_size s = pg_size B" "buffer_count s = pg_count B"
    "alloc_count s = of_nat n" "n \<le> unat (pg_count B)" "n \<le> 32 * length bm" "L \<subseteq> {..<n}"
    "\<forall>k < 32 * length bm. bit (bm ! (k div 32)) (k mod 32) \<longleftrightarrow> k \<in> L" "geo_ok B"
    "length bm = pg_words B"
    by (rule pool_repE [OF assms(1)])
  define f where "f = find_clear (bm ! (n div 32)) 0"
  define i where "i = f + n div 32 * 32"
  have n: "n < 32 * length bm" "n < 2 ^ 32"
    using assms(3,6) s(17) count_less [OF s(16,12)] by (auto simp: geo_full_def)
  note i = next_buffer [OF s(15,14) n(1), folded f_def, folded i_def]
  have un: "unat (of_nat n :: u32) = n" "unat (of_nat (n div 32) :: u32) = n div 32"
    using n(2) by (simp_all add: unat_of_nat)
  then have ne: "of_nat n \<noteq> pg_count B"
    using assms(3) by auto
  have w: "word_at bm (of_nat (n div 32)) = Some (bm ! (n div 32))"
    using n un by (simp add: word_at_def)
  have addr: "pg_base B + (of_nat f + of_nat (n div 32) * 32) * pg_size B = buf B i"
    by (simp add: buf_def i_def)
  have ic: "i < unat (pg_count B)"
    using i(2) assms(3) by simp
  obtain m' S' where m': "pool_back (pl_vm st) (buf B i) (pg_size B) = Some m'"
      "space_rep m' fw S'" "length (as_free S) \<le> length (as_free S') + 2 * npages B"
      "\<forall>a. as_map S a \<noteq> None \<longrightarrow> as_map S' a \<noteq> None" "as_map S' (buf B i) \<noteq> None"
    by (rule pool_back_rep [OF assms(2) s(16) ic assms(4,5)])
  define bm' where "bm' = bm[n div 32 := bm ! (n div 32) OR push_bit f 1]"
  define st' where "st' = st\<lparr>pl_pools := (pl_pools st)\<lparr>cells := (cells (pl_pools st))(p := s\<lparr>alloc_count := of_nat n + 1\<rparr>)\<rparr>,
    pl_bitmaps := (pl_bitmaps st)\<lparr>cells := (cells (pl_bitmaps st))(sp_bitmap s := bm')\<rparr>, pl_vm := m'\<rparr>"
  have "pool_alloc st p = Some (st', buf B i)"
    using s(7) i(1) ne unfolding pool_alloc_def st'_def bm'_def
    by (simp add: m'(1) s(3,4,8-11) upd_valid s(5,6) Let_def of_nat_div_32 [OF n(2)] w un f_def [symmetric] addr
      s(1,2) [symmetric] del: push_bit_of_1)
  moreover have "pool_rep st' p B (insert i L) (Suc n)"
    using s i(2) ic assms(3) bitmap_update(1) [OF s(15), of i] i(4,5) n(1)
    by (auto simp: pool_rep_def Let_def st'_def bm'_def simp del: push_bit_of_1)
  ultimately show thesis
    using m'(2-5) i(2,3) by (intro that [of st' i S']) (auto simp: st'_def)
qed

lemma pool_alloc_exhausted:
  assumes "pool_rep st p B L (unat (pg_count B))"
  shows "pool_alloc st p = Some (st, 0)"
  using assms by (elim pool_repE) (simp add: pool_alloc_def)

lemma buf_checks:
  assumes "geo_ok B" "i < unat (pg_count B)"
  shows "\<not> buf B i < pg_base B" "\<not> pg_base B + pg_size B * pg_count B < buf B i"
    "(buf B i - pg_base B) div pg_size B = of_nat i"
proof -
  have b: "unat (pg_base B) + unat (pg_size B) * unat (pg_count B) + 0x1000 \<le> 0xFFC00000" "0 < unat (pg_size B)"
    using assms(1) by (simp_all add: geo_ok_def unat_gt_0)
  note u = buf_unat [OF assms]
  show "\<not> buf B i < pg_base B"
    using u(1) by (simp add: word_less_nat_alt)
  have "unat (pg_size B * pg_count B) = unat (pg_size B) * unat (pg_count B)"
    using b(1) by (simp add: unat_word_ariths)
  then have "unat (pg_base B + pg_size B * pg_count B) = unat (pg_base B) + unat (pg_size B) * unat (pg_count B)"
    using b(1) by (subst unat_add_no_overflow) simp_all
  then show "\<not> pg_base B + pg_size B * pg_count B < buf B i"
    using u(2) by (simp add: word_less_nat_alt)
  have "i < 2 ^ 32"
    using assms(2) unsigned_less [of "pg_count B", where ?'a = nat] by simp
  moreover have "i * unat (pg_size B) < 2 ^ 32"
    using u b(1) by simp
  ultimately have "unat (buf B i - pg_base B) = i * unat (pg_size B)" "unat (of_nat i :: u32) = i"
    using unat_of_nat_mult [of i "pg_size B"] by (simp_all add: buf_def unat_of_nat)
  then show "(buf B i - pg_base B) div pg_size B = of_nat i"
    using b(2) by (simp add: word_unat_eq_iff unat_div)
qed

lemma pool_dealloc_rep:
  assumes "pool_rep st p B L n" "i \<in> L"
  obtains st' where "pool_dealloc st p (buf B i) = Some st'" "pool_rep st' p B (L - {i}) n" "pl_vm st' = pl_vm st"
proof -
  obtain s bm where s: "s = cells (pl_pools st) p" "bm = cells (pl_bitmaps st) (sp_bitmap s)"
    "load (pl_pools st) p = Some s" "load (pl_bitmaps st) (sp_bitmap s) = Some bm"
    "valid (pl_pools st) p" "valid (pl_bitmaps st) (sp_bitmap s)" "p \<noteq> NULL"
    "sp_base s = pg_base B" "buffer_size s = pg_size B" "buffer_count s = pg_count B"
    "alloc_count s = of_nat n" "n \<le> unat (pg_count B)" "n \<le> 32 * length bm" "L \<subseteq> {..<n}"
    "\<forall>k < 32 * length bm. bit (bm ! (k div 32)) (k mod 32) \<longleftrightarrow> k \<in> L" "geo_ok B"
    "length bm = pg_words B"
    by (rule pool_repE [OF assms(1)])
  have i: "i < unat (pg_count B)" "i < 32 * length bm"
    using assms(2) s(12-14) by auto
  have i32: "i < 2 ^ 32"
    using i(1) count_less [OF s(16), of i] by simp
  then have un: "unat (of_nat (i div 32) :: u32) = i div 32" "unat ((of_nat i :: u32) mod 32) = i mod 32"
    by (simp_all add: unat_of_nat unat_mod)
  have w: "word_at bm (of_nat (i div 32)) = Some (bm ! (i div 32))"
    using i(2) un(1) by (simp add: word_at_def)
  define bm' where "bm' = bm[i div 32 := bm ! (i div 32) AND NOT (push_bit (i mod 32) 1)]"
  define st' where "st' = st\<lparr>pl_bitmaps := (pl_bitmaps st)\<lparr>cells := (cells (pl_bitmaps st))(sp_bitmap s := bm')\<rparr>\<rparr>"
  have "pg_size B \<noteq> 0"
    using s(16) by (simp add: geo_ok_def)
  then have "pool_dealloc st p (buf B i) = Some st'"
    using s(7) buf_checks [OF s(16) i(1)]
    unfolding pool_dealloc_def do_pool_dealloc_def st'_def bm'_def
    by (simp add: s(3,4,8-11) upd_valid s(5,6) Let_def of_nat_div_32 [OF i32] w un s(1,2) [symmetric]
      del: push_bit_of_1)
  moreover have "pool_rep st' p B (L - {i}) n"
    using s bitmap_update(2) [OF s(15) i(2)]
    by (auto simp: pool_rep_def Let_def st'_def bm'_def simp del: push_bit_of_1)
  ultimately show thesis
    by (intro that [of st']) (auto simp: st'_def)
qed

section \<open>Sequences of calls\<close>

text \<open>
  A client that allocates buffers and gives back one of those it holds; \<open>Put i\<close> without an \<open>i\<close>-th
  held buffer does nothing.
\<close>

datatype buf_op = Get | Put nat

fun buf_run :: "pools \<Rightarrow> ptr \<Rightarrow> u32 list \<Rightarrow> buf_op list \<Rightarrow> (pools \<times> u32 list) option" where
  "buf_run st p held [] = Some (st, held)"
| "buf_run st p held (Get # ops) = do {
     (st, a) \<leftarrow> pool_alloc st p;
     buf_run st p (if a = 0 then held else a # held) ops
   }"
| "buf_run st p held (Put i # ops) =
     (if i < length held then do {
        st \<leftarrow> pool_dealloc st p (held ! i);
        buf_run st p (remove_nth i held) ops
      } else buf_run st p held ops)"

lemma npages_pos:
  assumes "geo_ok B" "0 < unat (pg_count B)"
  shows "0 < npages B"
proof -
  have "unat (pg_size B) \<le> unat (pg_size B) * unat (pg_count B)" "0 < unat (pg_size B)"
    using assms(1) mult_le_mono2 [of 1 "unat (pg_count B)" "unat (pg_size B)"] assms(2)
    by (simp_all add: geo_ok_def unat_gt_0 Suc_le_eq)
  moreover have "unat (pg_base B) + unat (pg_size B) * unat (pg_count B) + 0x1000 \<le> 0xFFC00000"
    using assms(1) by (simp add: geo_ok_def)
  ultimately have "unat (pg_size B) + 0x1000 \<le> 0xFFC00000" "1 \<le> unat (pg_size B)"
    by linarith+
  then have "unat (pg_size B + 0xFFF) = unat (pg_size B) + 0xFFF" "1 \<le> unat (pg_size B)"
    by (simp_all add: unat_add_no_overflow)
  then show ?thesis
    by (simp add: npages_def unat_div div_greater_zero_iff)
qed

lemma remove_nth_map: "remove_nth i (map f xs) = map f (remove_nth i xs)"
  by (simp add: remove_nth_def take_map drop_map)

lemma distinct_remove_nth:
  assumes "distinct xs" "i < length xs"
  shows "distinct (remove_nth i xs)" "set (remove_nth i xs) = set xs - {xs ! i}"
proof -
  have "xs = take i xs @ xs ! i # drop (Suc i) xs"
    using assms(2) by (rule id_take_nth_drop)
  then have "distinct (take i xs @ xs ! i # drop (Suc i) xs)" "set xs = set (take i xs @ xs ! i # drop (Suc i) xs)"
    using assms(1) by metis+
  then show "distinct (remove_nth i xs)" "set (remove_nth i xs) = set xs - {xs ! i}"
    by (auto simp: remove_nth_def)
qed

lemma buf_run_rep:
  assumes "geo_full B"
  shows "pool_rep st p B (set ks) n \<Longrightarrow> distinct ks \<Longrightarrow> space_rep (pl_vm st) fw S \<Longrightarrow>
   \<forall>k \<in> set ks. as_map S (buf B k) \<noteq> None \<Longrightarrow> 2 * npages B * length ops \<le> length (as_free S) \<Longrightarrow>
   \<exists>st' ks' n' S'. buf_run st p (map (buf B) ks) ops = Some (st', map (buf B) ks') \<and>
     pool_rep st' p B (set ks') n' \<and> distinct ks' \<and> space_rep (pl_vm st') fw S' \<and>
     (\<forall>k \<in> set ks'. as_map S' (buf B k) \<noteq> None)"
proof (induction ops arbitrary: st ks n S)
  case (Cons x ops)
  have r: "geo_ok B" "n \<le> unat (pg_count B)" "set ks \<subseteq> {..<n}"
    using pool_rep_bounds [OF Cons.prems(1)] by auto
  have len: "2 * npages B \<le> length (as_free S)" "2 * npages B * length ops + 2 * npages B \<le> length (as_free S)"
    using Cons.prems(5) by auto
  show ?case
  proof (cases x)
    case Get
    show ?thesis
    proof (cases "n < unat (pg_count B)")
      case True
      then have np: "0 < npages B"
        using npages_pos r(1) by simp
      obtain st' i S' where a: "pool_alloc st p = Some (st', buf B i)" "i \<notin> set ks" "i \<le> n"
        "pool_rep st' p B (insert i (set ks)) (Suc n)" "space_rep (pl_vm st') fw S'"
        "length (as_free S) \<le> length (as_free S') + 2 * npages B"
        "\<forall>a. as_map S a \<noteq> None \<longrightarrow> as_map S' a \<noteq> None" "as_map S' (buf B i) \<noteq> None"
        by (rule pool_alloc_rep [OF Cons.prems(1,3) True len(1) np assms])
      have "buf B i \<noteq> 0"
        using buf_nonzero [OF r(1)] a(3) True by simp
      then show ?thesis
        using Cons.IH [of st' "i # ks" "Suc n" S'] Cons.prems(2,4) a len(2) Get by auto
    next
      case False
      with r(2) have "pool_alloc st p = Some (st, 0)"
        using pool_alloc_exhausted Cons.prems(1) by (metis le_neq_implies_less)
      then show ?thesis
        using Cons.IH [OF Cons.prems(1-4)] len(2) Get by auto
    qed
  next
    case (Put i)
    show ?thesis
    proof (cases "i < length ks")
      case True
      then obtain st' where d: "pool_dealloc st p (buf B (ks ! i)) = Some st'"
        "pool_rep st' p B (set ks - {ks ! i}) n" "pl_vm st' = pl_vm st"
        using pool_dealloc_rep [OF Cons.prems(1)] nth_mem by blast
      then show ?thesis
        using Cons.IH [of st' "remove_nth i ks" n S] Cons.prems(2-4) len(2) Put True
          distinct_remove_nth [OF Cons.prems(2) True] by (auto simp: remove_nth_map)
    qed (use Cons.IH [OF Cons.prems(1-4)] len(2) Put in auto)
  qed
next
  case Nil
  then show ?case
    by (intro exI [of _ st] exI [of _ ks] exI [of _ n] exI [of _ S]) simp
qed

section \<open>Properties\<close>

text \<open>
  C17. The buffers a client holds never overlap: on a new pool whose bitmap covers all its buffers,
  with enough free pages, every sequence of \<open>pool_alloc\<close> and \<open>pool_dealloc\<close> returns; the buffers held
  at the end are pairwise distinct buffers of the pool, and each has memory behind its start.
\<close>

theorem pool_run_safe:
  assumes "pool_rep st p B {} 0" "geo_full B" "space_rep (pl_vm st) fw S"
    "2 * npages B * length ops \<le> length (as_free S)"
  shows "\<exists>st' held. buf_run st p [] ops = Some (st', held) \<and> distinct held \<and>
    (\<forall>a \<in> set held. (\<exists>k < unat (pg_count B). a = buf B k) \<and> arch_vmem_ismapped (pl_vm st') a = Some True)"
proof -
  obtain st' ks' n' S' where r: "buf_run st p [] ops = Some (st', map (buf B) ks')"
      "pool_rep st' p B (set ks') n'" "distinct ks'" "space_rep (pl_vm st') fw S'"
      "\<forall>k \<in> set ks'. as_map S' (buf B k) \<noteq> None"
    using buf_run_rep [OF assms(2), of st p "[]" 0 fw S ops] assms by auto
  have k: "geo_ok B" "\<forall>k \<in> set ks'. k < unat (pg_count B)"
    using pool_rep_bounds [OF r(2)] by auto
  then have "PDIR_OFFSET (buf B k) \<noteq> 1023" if "k \<in> set ks'" for k
    using npages_window [of B k 0] npages_pos [of B] that by fastforce
  then have "\<forall>k \<in> set ks'. arch_vmem_ismapped (pl_vm st') (buf B k) = Some True"
    using arch_vmem_ismapped_rep [OF r(4)] r(5) by auto
  moreover have "distinct (map (buf B) ks')"
    using r(3) k buf_inj [OF k(1)] by (auto simp: distinct_map inj_on_def)
  ultimately show ?thesis
    using r(1) k(2) by auto
qed

definition example_pools :: pools where
  "example_pools = \<lparr>pl_pools = \<lparr>cells = (\<lambda>_. \<lparr>sp_base = 0xE0000000, sp_bitmap = 0x50, buffer_size = 0x1000,
       buffer_count = 4, alloc_count = 0\<rparr>), live = {0x40}\<rparr>,
     pl_bitmaps = \<lparr>cells = (\<lambda>_. [0]), live = {0x50}\<rparr>, pool_base = 0xE0004000, pl_vm = example_vmm\<rparr>"

definition example_geo :: pool_geo where
  "example_geo = \<lparr>pg_base = 0xE0000000, pg_size = 0x1000, pg_count = 4, pg_words = 1\<rparr>"

lemma example_pools_rep: "pool_rep example_pools 0x40 example_geo {} 0" "geo_full example_geo"
  by (simp_all add: geo_full_def pool_rep_def example_pools_def example_geo_def geo_ok_def valid_def)

lemma pool_run_safe_witness:
  "\<exists>st' held. buf_run example_pools 0x40 [] [Get] = Some (st', held) \<and> distinct held \<and>
    (\<forall>a \<in> set held. (\<exists>k < unat (pg_count example_geo). a = buf example_geo k) \<and>
       arch_vmem_ismapped (pl_vm st') a = Some True)"
proof -
  have "space_rep (pl_vm example_pools) [] example_space"
    using example_vmm_rep by (simp add: example_pools_def)
  moreover have "2 * npages example_geo * length [Get] \<le> length (as_free example_space)"
    by (simp add: npages_def example_geo_def example_space_def)
  ultimately show ?thesis
    by (rule pool_run_safe [OF example_pools_rep])
qed

text \<open>
  C18. The bitmap can be too short: \<open>create_pool_at\<close> rounds the number of bitmap words down, so for a
  pool of 33 to 63 buffers the allocation after the 32nd reads and writes behind the bitmap.
\<close>

theorem pool_bitmap_overflow:
  assumes "fresh (pl_pools st) p" "fresh (pl_bitmaps st) bp" "32 < unat buffcnt" "unat buffcnt < 64"
    "geo_ok \<lparr>pg_base = addr, pg_size = buffsz, pg_count = buffcnt, pg_words = 1\<rparr>"
  shows "\<exists>st'. create_pool_at st buffsz buffcnt addr p bp = Some (st', p) \<and>
    pool_rep st' p \<lparr>pg_base = addr, pg_size = buffsz, pg_count = buffcnt, pg_words = 1\<rparr> {} 0 \<and>
    (\<forall>st L. pool_rep st p \<lparr>pg_base = addr, pg_size = buffsz, pg_count = buffcnt, pg_words = 1\<rparr> L 32 \<longrightarrow>
       pool_alloc st p = None)"
proof -
  have w: "unat (buffcnt div 32) = 1"
    using assms(3,4) by (simp add: unat_div)
  have "32 \<noteq> buffcnt"
    using assms(3) by auto
  then have "\<forall>st L. pool_rep st p \<lparr>pg_base = addr, pg_size = buffsz, pg_count = buffcnt, pg_words = 1\<rparr> L 32 \<longrightarrow>
       pool_alloc st p = None"
    by (auto elim!: pool_repE simp: pool_alloc_def word_at_def)
  then show ?thesis
    using w assms by (auto simp: create_pool_at_def heap_simps fresh_def Let_def pool_rep_def word_unat_eq_iff)
qed

lemma pool_bitmap_overflow_witness:
  "\<exists>st'. create_pool_at example_pools 0x1000 33 0xE0004000 0x60 0x70 = Some (st', 0x60) \<and>
    pool_rep st' 0x60 \<lparr>pg_base = 0xE0004000, pg_size = 0x1000, pg_count = 33, pg_words = 1\<rparr> {} 0 \<and>
    (\<forall>st L. pool_rep st 0x60 \<lparr>pg_base = 0xE0004000, pg_size = 0x1000, pg_count = 33, pg_words = 1\<rparr> L 32 \<longrightarrow>
       pool_alloc st 0x60 = None)"
  by (rule pool_bitmap_overflow) (simp_all add: example_pools_def fresh_def geo_ok_def)

lemma arch_vmem_unmap_pmem: "arch_vmem_unmap m v = Some m' \<Longrightarrow> vm_pmem m' = vm_pmem m"
  by (auto simp: arch_vmem_unmap_def vwrite_def split: if_splits)

lemma unmapped_page:
  assumes "tables_ok m" "PDIR_OFFSET v \<in> tabs m" "PDIR_OFFSET v \<noteq> 1023" "vtrans m v = None"
  shows "arch_vmem_v2p m v = Some 0" "arch_vmem_unmap m v = Some m"
proof -
  have "pte m v AND 1 = 0"
    using assms(2,4) by (simp add: vtrans_def split: if_splits)
  then show "arch_vmem_v2p m v = Some 0" "arch_vmem_unmap m v = Some m"
    using assms(1,2) entry_zero [OF assms(1,3)]
    by (simp_all add: arch_vmem_v2p_def arch_vmem_unmap_def arch_vmem_ismapped_def FLAGS_PRESENT_def PDIR_OFFSET_drop)
qed

text \<open>
  Giving back the memory of a two-page buffer goes wrong: \<open>pool_dealloc_and_free\<close> visits the first
  page twice, hands the physical page 0 to the page allocator in the second round, and leaves the
  second page mapped.
\<close>

theorem pool_release_page_zero:
  assumes "space_rep m fw S" "PDIR_OFFSET addr \<noteq> 1023" "as_map S addr = Some x" "g_primedpage m = 0"
    "news_ok (vm_pmem m) [al, al']"
  shows "\<exists>m'. pool_release m addr 0 2 [al, al'] = Some m' \<and>
    pmem_inv (vm_pmem m') (0 # ucast (page x OR (addr AND 0xFFF)) # map ucast (as_free S)) fw \<and>
    (\<forall>a. page a \<noteq> page addr \<longrightarrow> vtrans m' a = vtrans m a)"
proof -
  note x = as_map_SomeD [OF assms(1,3)]
  have S: "PDIR_OFFSET addr \<in> as_tabs S" "vtrans m = as_map S" "pmem_inv (vm_pmem m) (map ucast (as_free S)) fw"
    using assms(1,4) x(1) by (auto simp: space_rep_def vmem_inv_def)
  obtain m1 where m1: "arch_vmem_unmap m addr = Some m1" "space_rep m1 fw (as_put S addr None)"
    by (rule arch_vmem_unmap_rep [OF assms(1,2)])
  let ?p = "ucast (page x OR (addr AND 0xFFF)) :: u64"
  have v: "arch_vmem_v2p m addr = Some ?p"
    using arch_vmem_v2p_rep [OF assms(1) S(1)] assms(3) by simp
  have pm1: "vm_pmem m1 = vm_pmem m"
    using m1(1) by (rule arch_vmem_unmap_pmem)
  obtain pm where pm: "pmem_dealloc (vm_pmem m) ?p al = Some pm" "pmem_inv pm (?p # map ucast (as_free S)) fw" "news_ok pm [al']"
    using pmem_dealloc_inv [OF S(3) assms(5)] by blast
  obtain pm' where pm': "pmem_dealloc pm 0 al' = Some pm'" "pmem_inv pm' (0 # ?p # map ucast (as_free S)) fw"
    using pmem_dealloc_inv [OF pm(2,3)] by blast
  define m2 where "m2 = m1\<lparr>vm_pmem := pm\<rparr>"
  have c: "tables_ok m2" "PDIR_OFFSET addr \<in> tabs m2" "vtrans m2 = as_map (as_put S addr None)"
    using m1(2) S(1) tables_cong [of m2 m1] by (auto simp: m2_def space_rep_def vmem_inv_def as_put_def)
  then have "vtrans m2 addr = None"
    by (simp add: as_put_def)
  then have u: "arch_vmem_v2p m2 addr = Some 0" "arch_vmem_unmap m2 addr = Some m2"
    using unmapped_page [OF c(1,2) assms(2)] by auto
  have e: "pool_release m addr 0 2 [al, al'] = Some (m2\<lparr>vm_pmem := pm'\<rparr>)"
    using v m1(1) pm1 pm(1) pm'(1) u by (simp add: numeral_2_eq_2 m2_def)
  show ?thesis
    using e pm'(2) c(3) S(2) tables_cong(4) [of "m2\<lparr>vm_pmem := pm'\<rparr>" m2]
    by (auto simp: as_put_def)
qed

definition mapped_vmm :: vmm where
  "mapped_vmm = \<lparr>vm_mem = (\<lambda>f i. if f = 0x1000 \<and> i = 1023 then 0x1003 else if f = 0x1000 \<and> i = 896 then 0x2003
       else if f = 0x2000 \<and> i = 0 then 0x300003 else 0), vm_cr3 = 0x1000, g_primedpage = 0, vm_pmem = example_pmem\<rparr>"

lemma mapped_vmm_rep:
  "space_rep mapped_vmm [] \<lparr>as_map = vtrans mapped_vmm, as_tabs = {896}, as_free = [0x201000, 0x200000]\<rparr>"
  "vtrans mapped_vmm 0xE0000000 = Some 0x300003"
proof -
  have t: "tabs mapped_vmm = {896}"
    by (auto simp: tabs_def mapped_vmm_def split: if_splits)
  have "tables_ok mapped_vmm" "table_frames mapped_vmm = {0x1000, 0x2000}"
    by (simp_all add: tables_ok_def table_frames_def t) (simp_all add: mapped_vmm_def)
  then show "space_rep mapped_vmm [] \<lparr>as_map = vtrans mapped_vmm, as_tabs = {896}, as_free = [0x201000, 0x200000]\<rparr>"
    using example_pmem_inv t by (simp add: space_rep_def vmem_inv_def) (simp add: mapped_vmm_def)
  show "vtrans mapped_vmm 0xE0000000 = Some 0x300003"
    by (simp add: vtrans_def t pte_def pde_def PDIR_OFFSET_def PTAB_OFFSET_def) (simp add: mapped_vmm_def)
qed

lemma pool_release_page_zero_witness:
  "\<exists>m'. pool_release mapped_vmm 0xE0000000 0 2
      [\<lparr>al_stack = 0x11, al_page = 0x40, al_node = 0x41\<rparr>, \<lparr>al_stack = 0x12, al_page = 0x42, al_node = 0x43\<rparr>] = Some m' \<and>
    pmem_inv (vm_pmem m') [0, 0x300000, 0x201000, 0x200000] []"
proof -
  let ?al = "[\<lparr>al_stack = 0x11, al_page = 0x40, al_node = 0x41\<rparr>, \<lparr>al_stack = 0x12, al_page = 0x42, al_node = 0x43\<rparr>]"
  have "news_ok (vm_pmem mapped_vmm) ?al"
    by (simp add: mapped_vmm_def news_ok_def al_ok_def fresh_def example_pmem_def)
  moreover have "g_primedpage mapped_vmm = 0"
    by (simp add: mapped_vmm_def)
  ultimately have "\<exists>m'. pool_release mapped_vmm 0xE0000000 0 2 ?al = Some m' \<and>
      pmem_inv (vm_pmem m') (0 # ucast (page 0x300003 OR (0xE0000000 AND 0xFFF)) # map ucast [0x201000, 0x200000 :: u32]) [] \<and>
      (\<forall>a. page a \<noteq> page 0xE0000000 \<longrightarrow> vtrans m' a = vtrans mapped_vmm a)"
    using pool_release_page_zero [OF mapped_vmm_rep(1), of "0xE0000000" "0x300003"] mapped_vmm_rep(2)
    by (simp add: PDIR_OFFSET_def)
  then show ?thesis
    by (auto simp: page_def)
qed

end
