(* ===== verification/Forge_Bytes.thy ===== *)
theory Forge_Bytes
  imports Forge_Prelude
begin

text \<open>
  Byte-addressed memory for the string routines of the kernel and of the boot loader: an address
  that holds no byte faults when it is read or written. \<open>bytes m a xs\<close> says that \<open>xs\<close> lie from
  address \<open>a\<close> on, and \<open>cstr m a xs\<close> that they form a string ended by a zero byte.
\<close>

type_synonym bmem = "u32 \<Rightarrow> u8 option"

definition wrb :: "bmem \<Rightarrow> u32 \<Rightarrow> u8 \<Rightarrow> bmem option" where
  "wrb m a x = (if m a = None then None else Some (m(a \<mapsto> x)))"

lemma wrb_mapped [simp]: "m a \<noteq> None \<Longrightarrow> wrb m a x = Some (m(a \<mapsto> x))"
  by (simp add: wrb_def)

fun bytes :: "bmem \<Rightarrow> u32 \<Rightarrow> u8 list \<Rightarrow> bool" where
  "bytes m a [] \<longleftrightarrow> True"
| "bytes m a (x # xs) \<longleftrightarrow> m a = Some x \<and> bytes m (a + 1) xs"

definition cstr :: "bmem \<Rightarrow> u32 \<Rightarrow> u8 list \<Rightarrow> bool" where
  "cstr m a xs \<longleftrightarrow> bytes m a (xs @ [0]) \<and> 0 \<notin> set xs"

definition mapped :: "bmem \<Rightarrow> u32 \<Rightarrow> nat \<Rightarrow> bool" where
  "mapped m a n \<longleftrightarrow> (\<forall>i<n. m (a + of_nat i) \<noteq> None)"

text \<open>The addresses of \<open>n\<close> bytes from \<open>a\<close> on, and the memory after \<open>xs\<close> is stored there.\<close>

definition area :: "u32 \<Rightarrow> nat \<Rightarrow> u32 set" where
  "area a n = (\<lambda>i. a + of_nat i) ` {..<n}"

fun put :: "bmem \<Rightarrow> u32 \<Rightarrow> u8 list \<Rightarrow> bmem" where
  "put m a [] = m"
| "put m a (x # xs) = put (m(a \<mapsto> x)) (a + 1) xs"

section \<open>Strings\<close>

lemma cstr_Nil [simp]: "cstr m a [] \<longleftrightarrow> m a = Some 0"
  by (simp add: cstr_def)

lemma cstr_Cons [simp]: "cstr m a (x # xs) \<longleftrightarrow> m a = Some x \<and> x \<noteq> 0 \<and> cstr m (a + 1) xs"
  by (auto simp: cstr_def)

lemma bytes_append: "bytes m a (xs @ ys) \<longleftrightarrow> bytes m a xs \<and> bytes m (a + of_nat (length xs)) ys"
  by (induction xs arbitrary: a) (auto simp: add.assoc)

lemma bytes_nth: "bytes m a xs \<longleftrightarrow> (\<forall>i<length xs. m (a + of_nat i) = Some (xs ! i))"
proof (induction xs arbitrary: a)
  case (Cons x xs)
  show ?case
    by (simp add: Cons All_less_Suc2 add.assoc)
qed simp

lemma bytes_mapped: "bytes m a xs \<Longrightarrow> mapped m a (length xs)"
  by (simp add: bytes_nth mapped_def)

lemma cstr_mapped: "cstr m a xs \<Longrightarrow> mapped m a (Suc (length xs))"
  using bytes_mapped [of m a "xs @ [0]"] by (simp add: cstr_def)

lemma mapped_Suc: "mapped m a (Suc n) \<longleftrightarrow> m a \<noteq> None \<and> mapped m (a + 1) n"
  by (simp add: mapped_def All_less_Suc2 add.assoc)

lemma mapped_mono: "mapped m b n \<Longrightarrow> mapped (m(a \<mapsto> x)) b n"
  by (simp add: mapped_def)

section \<open>Ranges\<close>

lemma area_Suc: "area a (Suc n) = insert a (area (a + 1) n)"
  by (auto simp: area_def lessThan_Suc_eq_insert_0 image_image add.assoc)

lemma area_0 [simp]: "area a 0 = {}"
  by (simp add: area_def)

lemma not_in_area_Suc: "n < 2 ^ 32 \<Longrightarrow> a \<notin> area (a + 1) n"
proof
  assume n: "n < 2 ^ 32" and "a \<in> area (a + 1) n"
  then obtain i where "i < n" "(1 + of_nat i :: u32) = 0"
    by (auto simp: area_def add.assoc)
  moreover have "unat (of_nat (Suc i) :: u32) = Suc i"
    using n \<open>i < n\<close> unfolding unat_of_nat by simp
  ultimately show False
    by simp
qed

lemma in_area_iff:
  assumes "unat a + n \<le> 2 ^ 32"
  shows "b \<in> area a n \<longleftrightarrow> unat a \<le> unat b \<and> unat b < unat a + n"
proof
  assume "b \<in> area a n"
  then obtain i where i: "i < n" "b = a + of_nat i"
    by (auto simp: area_def)
  moreover have "unat (of_nat i :: u32) = i"
    using i(1) assms by (simp add: unat_of_nat)
  ultimately have "unat b = unat a + i"
    using assms by (simp add: unat_add_no_overflow)
  with i(1) show "unat a \<le> unat b \<and> unat b < unat a + n"
    by simp
next
  assume b: "unat a \<le> unat b \<and> unat b < unat a + n"
  then have "b = a + of_nat (unat b - unat a)"
    by (simp add: of_nat_diff word_le_nat_alt)
  with b show "b \<in> area a n"
    unfolding area_def by (intro image_eqI [of _ _ "unat b - unat a"]) auto
qed

lemma bytes_cong: "(\<And>b. b \<in> area a (length xs) \<Longrightarrow> m' b = m b) \<Longrightarrow> bytes m' a xs = bytes m a xs"
  by (auto simp: bytes_nth area_def)

lemma bytes_upd: "b \<notin> area a (length xs) \<Longrightarrow> bytes (m(b \<mapsto> x)) a xs = bytes m a xs"
  by (rule bytes_cong) auto

lemma put_other: "b \<notin> area a (length xs) \<Longrightarrow> put m a xs b = m b"
  by (induction xs arbitrary: m a) (auto simp: area_Suc)

lemma bytes_put: "length xs \<le> 2 ^ 32 \<Longrightarrow> bytes (put m a xs) a xs"
proof (induction xs arbitrary: m a)
  case (Cons x xs)
  then have "a \<notin> area (a + 1) (length xs)"
    by (intro not_in_area_Suc) simp
  with Cons show ?case
    by (simp add: put_other)
qed simp

lemma put_append: "put m a (xs @ ys) = put (put m a xs) (a + of_nat (length xs)) ys"
  by (induction xs arbitrary: m a) (auto simp: add.assoc)

lemma mapped_put: "mapped m b n \<Longrightarrow> mapped (put m a xs) b n"
  by (induction xs arbitrary: m a) (auto simp: mapped_def)

lemma bytes_put_other: "area a (length xs) \<inter> area b (length ys) = {} \<Longrightarrow> bytes (put m b ys) a xs = bytes m a xs"
  by (rule bytes_cong) (auto intro: put_other)

end
