(* ===== verification/Forge_Str.thy ===== *)
theory Forge_Str
  imports Forge_Bytes
begin

text \<open>
  The string and memory routines of the kernel, \<open>src/src/kernel/str.c\<close> and the first part of
  \<open>src/src/kernel/util.c\<close>, on byte-addressed memory. \<open>char\<close> is signed, so comparisons read the bytes
  as two's complement numbers. A failed assertion has no result.
\<close>

section \<open>Model of str.c\<close>

partial_function (option) strlen_loop :: "bmem \<Rightarrow> u32 \<Rightarrow> u32 \<Rightarrow> u32 option" where
  "strlen_loop m s ret = do {
     c \<leftarrow> m s;
     if c \<noteq> 0 then strlen_loop m (s + 1) (ret + 1) else Some ret
   }"

definition strlen :: "bmem \<Rightarrow> u32 \<Rightarrow> u32 option" where
  "strlen m s =
     (if s = 0 then Some 0
      else do {
        ret \<leftarrow> strlen_loop m s 0;
        if sint ret \<ge> 0 then Some ret else None
      })"

partial_function (option) strncpy_loop :: "bmem \<Rightarrow> u32 \<Rightarrow> u32 \<Rightarrow> u32 \<Rightarrow> (bmem \<times> u32) option" where
  "strncpy_loop m s1 s2 n = do {
     c \<leftarrow> m s2;
     if c \<noteq> 0 \<and> n \<noteq> 0 then do {
       m \<leftarrow> wrb m s1 c;
       strncpy_loop m (s1 + 1) (s2 + 1) (n - 1)
     } else Some (m, s1)
   }"

definition strncpy :: "bmem \<Rightarrow> u32 \<Rightarrow> u32 \<Rightarrow> u32 \<Rightarrow> (bmem \<times> u32) option" where
  "strncpy m s1 s2 n =
     (if s1 = NULL \<or> s2 = NULL then None
      else do {
        (m, e) \<leftarrow> strncpy_loop m s1 s2 n;
        m \<leftarrow> wrb m e 0;
        Some (m, s1)
      })"

definition strcpy :: "bmem \<Rightarrow> u32 \<Rightarrow> u32 \<Rightarrow> (bmem \<times> u32) option" where
  "strcpy m s1 s2 =
     (if s1 = NULL \<or> s2 = NULL then None
      else do { n \<leftarrow> strlen m s2; strncpy m s1 s2 n })"

partial_function (option) strcmp_loop :: "bmem \<Rightarrow> u32 \<Rightarrow> u32 \<Rightarrow> int option" where
  "strcmp_loop m s1 s2 = do {
     a \<leftarrow> m s1;
     b \<leftarrow> m s2;
     if sint a < sint b then Some (-1)
     else if sint a > sint b then Some 1
     else if a \<noteq> 0 \<and> b \<noteq> 0 then strcmp_loop m (s1 + 1) (s2 + 1)
     else Some 0
   }"

definition strcmp :: "bmem \<Rightarrow> u32 \<Rightarrow> u32 \<Rightarrow> int option" where
  "strcmp m s1 s2 = (if s1 = NULL \<or> s2 = NULL then None else strcmp_loop m s1 s2)"

partial_function (option) strncmp_loop :: "bmem \<Rightarrow> u32 \<Rightarrow> u32 \<Rightarrow> u32 \<Rightarrow> int option" where
  "strncmp_loop m s1 s2 n = do {
     a \<leftarrow> m s1;
     b \<leftarrow> m s2;
     if sint a < sint b then Some (-1)
     else if sint a > sint b then Some 1
     else if a \<noteq> 0 \<and> b \<noteq> 0 \<and> n - 1 \<noteq> 0 then strncmp_loop m (s1 + 1) (s2 + 1) (n - 1)
     else Some 0
   }"

definition strncmp :: "bmem \<Rightarrow> u32 \<Rightarrow> u32 \<Rightarrow> u32 \<Rightarrow> int option" where
  "strncmp m s1 s2 n = (if s1 = NULL \<or> s2 = NULL then None else strncmp_loop m s1 s2 n)"

partial_function (option) strsearch :: "bmem \<Rightarrow> u32 \<Rightarrow> u8 \<Rightarrow> u32 option" where
  "strsearch m s c = do {
     x \<leftarrow> m s;
     if x \<noteq> 0 then if x = c then Some s else strsearch m (s + 1) c
     else Some NULL
   }"

partial_function (option) strcat_end :: "bmem \<Rightarrow> u32 \<Rightarrow> u32 option" where
  "strcat_end m a = do {
     x \<leftarrow> m a;
     if x \<noteq> 0 then strcat_end m (a + 1) else Some a
   }"

partial_function (option) strcat_copy :: "bmem \<Rightarrow> u32 \<Rightarrow> u32 \<Rightarrow> (bmem \<times> u32) option" where
  "strcat_copy m a b = do {
     x \<leftarrow> m b;
     if x \<noteq> 0 then do { m \<leftarrow> wrb m a x; strcat_copy m (a + 1) (b + 1) } else Some (m, a)
   }"

definition strcat :: "bmem \<Rightarrow> u32 \<Rightarrow> u32 \<Rightarrow> (bmem \<times> u32) option" where
  "strcat m a b = do {
     e \<leftarrow> strcat_end m a;
     (m, e) \<leftarrow> strcat_copy m e b;
     m \<leftarrow> wrb m e 0;
     Some (m, a)
   }"

section \<open>Model of the memory routines of util.c\<close>

partial_function (option) memset_loop :: "bmem \<Rightarrow> u32 \<Rightarrow> u8 \<Rightarrow> u32 \<Rightarrow> u32 \<Rightarrow> bmem option" where
  "memset_loop m s c len i =
     (if i < len then do { m \<leftarrow> wrb m (s + i) c; memset_loop m s c len (i + 1) } else Some m)"

definition memset :: "bmem \<Rightarrow> u32 \<Rightarrow> u8 \<Rightarrow> u32 \<Rightarrow> bmem option" where
  "memset m p c len = memset_loop m p c len 0"

partial_function (option) memcpy_loop :: "bmem \<Rightarrow> u32 \<Rightarrow> u32 \<Rightarrow> u32 \<Rightarrow> bmem option" where
  "memcpy_loop m s2 s1 len =
     (if len \<noteq> 0 then do {
        c \<leftarrow> m s1;
        m \<leftarrow> wrb m s2 c;
        memcpy_loop m (s2 + 1) (s1 + 1) (len - 1)
      } else Some m)"

definition memcpy :: "bmem \<Rightarrow> u32 \<Rightarrow> u32 \<Rightarrow> u32 \<Rightarrow> (bmem \<times> u32) option" where
  "memcpy m dest src len = do { m \<leftarrow> memcpy_loop m dest src len; Some (m, dest) }"

partial_function (option) memcmp :: "bmem \<Rightarrow> u32 \<Rightarrow> u32 \<Rightarrow> u32 \<Rightarrow> int option" where
  "memcmp m ac bc len =
     (if len \<noteq> 0 then do {
        a \<leftarrow> m ac;
        b \<leftarrow> m bc;
        if a > b then Some 1 else if a < b then Some (-1) else memcmp m (ac + 1) (bc + 1) (len - 1)
      } else Some 0)"

section \<open>Lengths\<close>

lemma strlen_loop_cstr: "cstr m s xs \<Longrightarrow> strlen_loop m s r = Some (r + of_nat (length xs))"
  by (induction xs arbitrary: s r) (auto simp: strlen_loop.simps [of m] add.assoc)

lemma sint_of_nat_nonneg: "n < 2 ^ 31 \<Longrightarrow> 0 \<le> sint (of_nat n :: u32)"
  using int_word_sint [of "int n", where ?'a = 32] by simp

lemma strlen_cstr:
  assumes "cstr m s xs" "s \<noteq> NULL" "length xs < 2 ^ 31"
  shows "strlen m s = Some (of_nat (length xs))"
  using assms strlen_loop_cstr [OF assms(1), of 0] sint_of_nat_nonneg [OF assms(3)] by (simp add: strlen_def)

section \<open>Copies\<close>

lemma cstr_upd: "b \<notin> area a (Suc (length xs)) \<Longrightarrow> cstr (m(b \<mapsto> x)) a xs = cstr m a xs"
  using bytes_upd [of b a "xs @ [0]" m x] by (simp add: cstr_def)

lemma unat_pred: "(n :: u32) \<noteq> 0 \<Longrightarrow> unat n = Suc (unat (n - 1))"
  using unat_pred_pos [of n] unat_gt_0 [of n] by simp

lemma unat_SucD:
  fixes n :: u32
  assumes "Suc k = unat n"
  shows "n \<noteq> 0" "k = unat (n - 1)"
proof -
  show "n \<noteq> 0"
    using assms by auto
  then show "k = unat (n - 1)"
    using assms unat_pred [of n] by simp
qed

lemma strncpy_loop_cstr:
  "cstr m s2 xs \<Longrightarrow> k = min (unat n) (length xs) \<Longrightarrow> mapped m s1 k \<Longrightarrow>
   area s1 k \<inter> area s2 (Suc (length xs)) = {} \<Longrightarrow>
   strncpy_loop m s1 s2 n = Some (put m s1 (take k xs), s1 + of_nat k)"
proof (induction xs arbitrary: m s1 s2 n k)
  case Nil
  then show ?case
    by (subst strncpy_loop.simps) simp
next
  case (Cons x xs)
  show ?case
  proof (cases "n = 0")
    case True
    with Cons.prems show ?thesis
      by (subst strncpy_loop.simps) simp
  next
    case False
    define j where "j = min (unat (n - 1)) (length xs)"
    have k: "k = Suc j"
      using Cons.prems(2) unat_pred [OF False] by (simp add: j_def)
    have d: "s1 \<notin> area (s2 + 1) (Suc (length xs))" "area (s1 + 1) j \<inter> area (s2 + 1) (Suc (length xs)) = {}"
      "m s1 \<noteq> None" "mapped m (s1 + 1) j"
      using Cons.prems(3,4) unfolding k area_Suc [of s1] area_Suc [of s2 "Suc _"] length_Cons mapped_Suc by auto
    have "strncpy_loop (m(s1 \<mapsto> x)) (s1 + 1) (s2 + 1) (n - 1) =
        Some (put (m(s1 \<mapsto> x)) (s1 + 1) (take j xs), s1 + 1 + of_nat j)"
    proof (rule Cons.IH [OF _ j_def])
      show "cstr (m(s1 \<mapsto> x)) (s2 + 1) xs"
        unfolding cstr_upd [OF d(1)] using Cons.prems(1) by simp
    qed (rule mapped_mono [OF d(4)], rule d(2))
    with Cons.prems(1) False d(3) show ?thesis
      by (subst strncpy_loop.simps) (simp add: k add.assoc)
  qed
qed

text \<open>The whole string of at most \<open>n\<close> bytes is copied, and a zero byte behind it.\<close>

lemma strncpy_cstr:
  assumes "cstr m s2 xs" "s1 \<noteq> NULL" "s2 \<noteq> NULL" "k = min (unat n) (length xs)" "mapped m s1 (Suc k)"
    "area s1 k \<inter> area s2 (Suc (length xs)) = {}"
  shows "strncpy m s1 s2 n = Some (put m s1 (take k xs @ [0]), s1)"
proof -
  have e: "length (take k xs) = k"
    using assms(4) by simp
  have "mapped m s1 k" "m (s1 + of_nat k) \<noteq> None"
    using assms(5) by (simp_all add: mapped_def)
  then show ?thesis
    using assms(2,3) strncpy_loop_cstr [OF assms(1,4) _ assms(6)] mapped_put [of m "s1 + of_nat k" 1 s1 "take k xs"] e
    by (simp add: strncpy_def put_append mapped_def)
qed

lemma strcpy_cstr:
  assumes "cstr m s2 xs" "s1 \<noteq> NULL" "s2 \<noteq> NULL" "length xs < 2 ^ 31" "mapped m s1 (Suc (length xs))"
    "area s1 (length xs) \<inter> area s2 (Suc (length xs)) = {}"
  shows "strcpy m s1 s2 = Some (put m s1 (xs @ [0]), s1)"
proof -
  have "unat (of_nat (length xs) :: u32) = length xs"
    using assms(4) by (simp add: unat_of_nat)
  then show ?thesis
    using assms strncpy_cstr [OF assms(1-3) _ assms(5,6), of "of_nat (length xs)"] strlen_cstr [OF assms(1,3,4)]
    by (simp add: strcpy_def)
qed

lemma strcat_end_cstr: "cstr m a xs \<Longrightarrow> strcat_end m a = Some (a + of_nat (length xs))"
  by (induction xs arbitrary: a) (auto simp: strcat_end.simps [of m] add.assoc)

lemma strcat_copy_cstr:
  "cstr m b xs \<Longrightarrow> mapped m a (length xs) \<Longrightarrow> area a (length xs) \<inter> area b (Suc (length xs)) = {} \<Longrightarrow>
   strcat_copy m a b = Some (put m a xs, a + of_nat (length xs))"
proof (induction xs arbitrary: m a b)
  case Nil
  then show ?case
    by (subst strcat_copy.simps) simp
next
  case (Cons x xs)
  have d: "a \<notin> area (b + 1) (Suc (length xs))" "area (a + 1) (length xs) \<inter> area (b + 1) (Suc (length xs)) = {}"
    "m a \<noteq> None" "mapped m (a + 1) (length xs)"
    using Cons.prems(2,3) unfolding area_Suc [of a] area_Suc [of b "Suc _"] length_Cons mapped_Suc by auto
  have "strcat_copy (m(a \<mapsto> x)) (a + 1) (b + 1) = Some (put (m(a \<mapsto> x)) (a + 1) xs, a + 1 + of_nat (length xs))"
  proof (rule Cons.IH)
    show "cstr (m(a \<mapsto> x)) (b + 1) xs"
      unfolding cstr_upd [OF d(1)] using Cons.prems(1) by simp
  qed (rule mapped_mono [OF d(4)], rule d(2))
  with Cons.prems(1) d(3) show ?case
    by (subst strcat_copy.simps) (simp add: add.assoc)
qed

lemma strcat_cstr:
  assumes "cstr m a xs" "cstr m b ys" "mapped m (a + of_nat (length xs)) (Suc (length ys))"
    "area (a + of_nat (length xs)) (length ys) \<inter> area b (Suc (length ys)) = {}"
  shows "strcat m a b = Some (put m (a + of_nat (length xs)) (ys @ [0]), a)"
proof -
  let ?e = "a + of_nat (length xs)"
  have "mapped m ?e (length ys)" "m (?e + of_nat (length ys)) \<noteq> None"
    using assms(3) by (simp_all add: mapped_def)
  then show ?thesis
    using strcat_end_cstr [OF assms(1)] strcat_copy_cstr [OF assms(2) _ assms(4)]
      mapped_put [of m "?e + of_nat (length ys)" 1 ?e ys]
    by (simp add: strcat_def put_append mapped_def)
qed

lemma strsearch_cstr:
  "cstr m s xs \<Longrightarrow> strsearch m s c =
     Some (if c \<in> set xs then s + of_nat (length (takeWhile (\<lambda>x. x \<noteq> c) xs)) else NULL)"
  by (induction xs arbitrary: s) (auto simp: strsearch.simps [of m] add.assoc)

section \<open>Comparison\<close>

text \<open>The first difference of two strings, the end of a string counting as a zero byte.\<close>

fun cmp_bytes :: "u8 list \<Rightarrow> u8 list \<Rightarrow> int" where
  "cmp_bytes [] [] = 0"
| "cmp_bytes [] (y # ys) = - sint y"
| "cmp_bytes (x # xs) [] = sint x"
| "cmp_bytes (x # xs) (y # ys) = (if x = y then cmp_bytes xs ys else sint x - sint y)"

lemma sint_eq_iff: "sint (a :: u8) = sint b \<longleftrightarrow> a = b"
  by (metis signed_word_eqI)

lemma strcmp_loop_cstr:
  "cstr m s1 xs \<Longrightarrow> cstr m s2 ys \<Longrightarrow> strcmp_loop m s1 s2 = Some (sgn (cmp_bytes xs ys))"
proof (induction xs ys arbitrary: s1 s2 rule: cmp_bytes.induct)
  case (2 y ys)
  then show ?case
    using sint_eq_iff [of y 0] by (subst strcmp_loop.simps) (auto simp: sgn_if)
next
  case (3 x xs)
  then show ?case
    using sint_eq_iff [of x 0] by (subst strcmp_loop.simps) (auto simp: sgn_if)
next
  case (4 x xs y ys)
  then show ?case
    using sint_eq_iff [of x y] by (subst strcmp_loop.simps) (auto simp: sgn_if)
qed (subst strcmp_loop.simps, simp)

lemma strcmp_cstr:
  "cstr m s1 xs \<Longrightarrow> cstr m s2 ys \<Longrightarrow> s1 \<noteq> NULL \<Longrightarrow> s2 \<noteq> NULL \<Longrightarrow> strcmp m s1 s2 = Some (sgn (cmp_bytes xs ys))"
  by (simp add: strcmp_def strcmp_loop_cstr)

lemma cmp_bytes_eq_0: "0 \<notin> set xs \<Longrightarrow> 0 \<notin> set ys \<Longrightarrow> cmp_bytes xs ys = 0 \<longleftrightarrow> xs = ys"
proof (induction xs ys rule: cmp_bytes.induct)
  case (4 x xs y ys)
  then show ?case
    using sint_eq_iff [of x y] by auto
qed (use sint_eq_iff [of _ 0] in auto)

lemma strncmp_loop_cstr:
  "cstr m s1 xs \<Longrightarrow> cstr m s2 ys \<Longrightarrow> n \<noteq> 0 \<Longrightarrow>
   strncmp_loop m s1 s2 n = Some (sgn (cmp_bytes (take (unat n) xs) (take (unat n) ys)))"
proof (induction xs ys arbitrary: s1 s2 n rule: cmp_bytes.induct)
  case (2 y ys)
  then show ?case
    using sint_eq_iff [of y 0] unat_pred [of n] by (subst strncmp_loop.simps) (auto simp: sgn_if)
next
  case (3 x xs)
  then show ?case
    using sint_eq_iff [of x 0] unat_pred [of n] by (subst strncmp_loop.simps) (auto simp: sgn_if)
next
  case (4 x xs y ys)
  show ?case
  proof (cases "n - 1 = 0")
    case True
    then show ?thesis
      using 4(2-4) sint_eq_iff [of x y] unat_pred [of n] by (subst strncmp_loop.simps) (auto simp: sgn_if)
  next
    case False
    then show ?thesis
      using 4 sint_eq_iff [of x y] unat_pred [of n] by (subst strncmp_loop.simps) (auto simp: sgn_if)
  qed
qed (subst strncmp_loop.simps, simp)

section \<open>Memory areas\<close>

text \<open>Memory after \<open>n\<close> bytes at \<open>s\<close> are copied to \<open>d\<close> at once.\<close>

definition copied :: "bmem \<Rightarrow> u32 \<Rightarrow> u32 \<Rightarrow> nat \<Rightarrow> bmem" where
  "copied m d s n = (\<lambda>a. if a \<in> area d n then m (s + (a - d)) else m a)"

lemma area_elem:
  fixes a :: u32
  assumes "unat a + n \<le> 2 ^ 32" "i < n"
  shows "unat (a + of_nat i) = unat a + i"
proof -
  have "unat (of_nat i :: u32) = i"
    using assms by (simp add: unat_of_nat)
  then show ?thesis
    using assms by (subst unat_add_no_overflow) simp_all
qed

lemma area_mono: "n \<le> k \<Longrightarrow> area a n \<subseteq> area a k"
  by (auto simp: area_def)

lemma area_split_disjoint:
  assumes "n + k \<le> 2 ^ 32"
  shows "area a n \<inter> area (a + of_nat n) k = {}"
proof -
  have "i = n + j" if "i < n" "j < k" "(of_nat i :: u32) = of_nat (n + j)" for i j
  proof -
    have "unat (of_nat i :: u32) = i" "unat (of_nat (n + j) :: u32) = n + j"
      using that(1,2) assms unfolding unat_of_nat by simp_all
    with that(3) show ?thesis
      by metis
  qed
  then show ?thesis
    by (fastforce simp: area_def add.assoc of_nat_add [symmetric] simp del: of_nat_add)
qed

lemma copied_Suc:
  assumes "unat d + Suc n \<le> 2 ^ 32" "unat s + Suc n \<le> 2 ^ 32" "unat d \<le> unat s \<or> unat s + Suc n \<le> unat d"
    "m s = Some c"
  shows "copied (m(d \<mapsto> c)) (d + 1) (s + 1) n = copied m d s (Suc n)"
proof
  fix a
  have d: "d \<notin> area (d + 1) n"
    using assms(1) by (intro not_in_area_Suc) simp
  consider "a = d" | "a \<in> area (d + 1) n" | "a \<notin> area d (Suc n)"
    unfolding area_Suc by blast
  then show "copied (m(d \<mapsto> c)) (d + 1) (s + 1) n a = copied m d s (Suc n) a"
  proof cases
    case 2
    then obtain i where i: "i < n" "a = d + of_nat (Suc i)"
      by (auto simp: area_def add.assoc)
    then have "s + (a - d) = s + of_nat (Suc i)" "s + 1 + (a - (d + 1)) = s + of_nat (Suc i)"
      by simp_all
    moreover have "s + of_nat (Suc i) \<noteq> d"
      using area_elem [OF assms(2), of "Suc i"] i(1) assms(3) by auto
    ultimately show ?thesis
      using 2 d unfolding copied_def area_Suc by auto
  qed (use d assms(4) in \<open>auto simp: copied_def area_Suc\<close>)
qed

lemma memcpy_loop_copied:
  "n = unat len \<Longrightarrow> unat d + n \<le> 2 ^ 32 \<Longrightarrow> unat s + n \<le> 2 ^ 32 \<Longrightarrow> unat d \<le> unat s \<or> unat s + n \<le> unat d \<Longrightarrow>
   mapped m s n \<Longrightarrow> mapped m d n \<Longrightarrow> memcpy_loop m d s len = Some (copied m d s n)"
proof (induction n arbitrary: m d s len)
  case 0
  then have "len = 0"
    by (simp add: unat_eq_0)
  then show ?case
    by (subst memcpy_loop.simps) (simp add: copied_def)
next
  case (Suc n)
  note len = unat_SucD [OF Suc.prems(1)]
  obtain c where c: "m s = Some c" "m d \<noteq> None" "mapped m (s + 1) n" "mapped m (d + 1) n"
    using Suc.prems(5,6) by (auto simp: mapped_Suc)
  have "memcpy_loop (m(d \<mapsto> c)) (d + 1) (s + 1) (len - 1) = Some (copied (m(d \<mapsto> c)) (d + 1) (s + 1) n)"
  proof (rule Suc.IH [OF len(2)])
    have "n = 0 \<or> unat (d + 1) = unat d + 1 \<and> unat (s + 1) = unat s + 1"
      using area_elem [OF Suc.prems(2), of 1] area_elem [OF Suc.prems(3), of 1] by auto
    then show "unat (d + 1) + n \<le> 2 ^ 32" "unat (s + 1) + n \<le> 2 ^ 32"
        "unat (d + 1) \<le> unat (s + 1) \<or> unat (s + 1) + n \<le> unat (d + 1)"
      using Suc.prems(2-4) unsigned_less [of "d + 1", where ?'a = nat] unsigned_less [of "s + 1", where ?'a = nat]
      by auto
  qed (rule mapped_mono [OF c(3)], rule mapped_mono [OF c(4)])
  with c len(1) copied_Suc [of d n s m c] Suc.prems(2-4) show ?case
    by (subst memcpy_loop.simps) simp
qed

lemma memcpy_copied:
  assumes "unat d + unat len \<le> 2 ^ 32" "unat s + unat len \<le> 2 ^ 32"
    "unat d \<le> unat s \<or> unat s + unat len \<le> unat d" "mapped m s (unat len)" "mapped m d (unat len)"
  shows "memcpy m d s len = Some (copied m d s (unat len), d)"
  using memcpy_loop_copied [OF refl assms] by (simp add: memcpy_def)

lemma memcmp_bytes:
  "bytes m a xs \<Longrightarrow> bytes m b ys \<Longrightarrow> length xs = unat len \<Longrightarrow> length ys = unat len \<Longrightarrow>
   memcmp m a b len = Some (if xs = ys then 0
     else if fst (hd (filter (\<lambda>(x, y). x \<noteq> y) (zip xs ys))) > snd (hd (filter (\<lambda>(x, y). x \<noteq> y) (zip xs ys))) then 1 else -1)"
proof (induction xs arbitrary: a b ys len)
  case Nil
  then have "len = 0" "ys = []"
    by (simp_all add: unat_eq_0)
  then show ?case
    by (subst memcmp.simps) simp
next
  case (Cons x xs)
  then obtain y ys' where ys: "ys = y # ys'"
    by (metis length_0_conv neq_Nil_conv)
  have "len \<noteq> 0" "length xs = unat (len - 1)" "length ys' = unat (len - 1)"
    using unat_SucD [of "length xs" len] Cons.prems(3,4) ys by auto
  with Cons ys show ?case
    by (subst memcmp.simps) auto
qed

lemma memset_loop_bytes:
  "n = unat len - unat i \<Longrightarrow> mapped m (s + i) n \<Longrightarrow>
   memset_loop m s c len i = Some (put m (s + i) (replicate n c))"
proof (induction n arbitrary: m i)
  case 0
  then show ?case
    by (subst memset_loop.simps) (simp add: word_less_nat_alt)
next
  case (Suc n)
  then have "i < len"
    by (simp add: word_less_nat_alt)
  moreover from this Suc.prems(1) have "n = unat len - unat (i + 1)"
    using unat_Suc_no_overflow [of i] unsigned_less [of len, where ?'a = nat] by (simp add: word_less_nat_alt)
  moreover have "m (s + i) \<noteq> None" "mapped m (s + (i + 1)) n"
    using Suc.prems(2) by (simp_all add: mapped_Suc add.assoc)
  moreover have "memset_loop (m(s + i \<mapsto> c)) s c len (i + 1) = Some (put (m(s + i \<mapsto> c)) (s + (i + 1)) (replicate n c))"
    using calculation by (intro Suc.IH mapped_mono)
  ultimately show ?case
    by (subst memset_loop.simps) (simp add: add.assoc)
qed

lemma memset_bytes: "mapped m p (unat len) \<Longrightarrow> memset m p c len = Some (put m p (replicate (unat len) c))"
  using memset_loop_bytes [of "unat len" len 0 m p c] by (simp add: memset_def)

section \<open>Properties\<close>

text \<open>
  C19. Appending a string works on memory that holds both strings apart and has room: \<open>strcat\<close>
  returns its first argument, which then is the string of both, \<open>strlen\<close> of it is the sum of the
  lengths, the second string is unchanged, and no byte outside the result changes.
\<close>

theorem strcat_concat:
  assumes "cstr m a xs" "cstr m b ys" "a \<noteq> NULL" "length xs + length ys < 2 ^ 31"
    "mapped m a (Suc (length xs + length ys))"
    "area a (Suc (length xs + length ys)) \<inter> area b (Suc (length ys)) = {}"
  shows "\<exists>m'. strcat m a b = Some (m', a) \<and> cstr m' a (xs @ ys) \<and> cstr m' b ys \<and>
    strlen m' a = Some (of_nat (length xs) + of_nat (length ys)) \<and>
    (\<forall>c. c \<notin> area a (Suc (length xs + length ys)) \<longrightarrow> m' c = m c)"
proof -
  let ?e = "a + of_nat (length xs)"
  define m' where "m' = put m ?e (ys @ [0])"
  have sub: "area ?e k \<subseteq> area a (length xs + k)" for k
    by (auto simp: area_def add.assoc of_nat_add [symmetric] simp del: of_nat_add)
  have d: "area ?e (length ys) \<inter> area b (Suc (length ys)) = {}" "area ?e (Suc (length ys)) \<inter> area b (Suc (length ys)) = {}"
    using sub [of "length ys"] sub [of "Suc (length ys)"] area_mono [of "length xs + length ys" "Suc (length xs + length ys)" a]
      assms(6) by auto
  have "mapped m ?e (Suc (length ys))"
    using assms(5) unfolding mapped_def by (auto simp: add.assoc of_nat_add [symmetric] simp del: of_nat_add)
  then have e: "strcat m a b = Some (m', a)"
    unfolding m'_def using strcat_cstr [OF assms(1,2) _ d(1)] by simp
  have "area a (length xs) \<inter> area ?e (Suc (length ys)) = {}"
    using area_split_disjoint [of "length xs" "Suc (length ys)" a] assms(4) by simp
  then have "bytes m' a xs" "bytes m' b (ys @ [0])" "bytes m' ?e (ys @ [0])"
    using assms(1,2,4) d(2) bytes_put_other [of a xs ?e "ys @ [0]" m] bytes_put_other [of b "ys @ [0]" ?e "ys @ [0]" m]
      bytes_put [of "ys @ [0]" m ?e]
    by (auto simp: m'_def cstr_def bytes_append Int_commute)
  then have c: "cstr m' a (xs @ ys)" "cstr m' b ys"
    using assms(1,2) by (auto simp: cstr_def bytes_append add.assoc)
  moreover have "m' c = m c" if "c \<notin> area a (Suc (length xs + length ys))" for c
    using that sub [of "Suc (length ys)"] by (auto simp: m'_def intro!: put_other)
  ultimately show ?thesis
    using e strlen_cstr [OF c(1) assms(3)] assms(4) by auto
qed

lemma area_upt: "area a n = set (map (\<lambda>i. a + of_nat i) [0..<n])"
  by (simp add: area_def lessThan_atLeast0)

definition example_bytes :: bmem where
  "example_bytes a = Some (if a = 0x10 then 97 else if a = 0x11 then 98 else if a = 0x40 then 99 else 0)"

lemma strcat_concat_witness:
  "\<exists>m'. strcat example_bytes 0x10 0x40 = Some (m', 0x10) \<and> cstr m' 0x10 [97, 98, 99] \<and> strlen m' 0x10 = Some 3"
proof -
  have "cstr example_bytes 0x10 [97, 98]" "cstr example_bytes 0x40 [99]"
    by (simp_all add: example_bytes_def)
  moreover have "mapped example_bytes 0x10 (Suc (length [97 :: u8, 98] + length [99 :: u8]))"
    by (simp add: mapped_def example_bytes_def)
  moreover have "area 0x10 (Suc (length [97 :: u8, 98] + length [99 :: u8])) \<inter> area 0x40 (Suc (length [99 :: u8])) = {}"
    by (simp add: area_upt upt_rec)
  ultimately show ?thesis
    using strcat_concat [of example_bytes "0x10" "[97, 98]" "0x40" "[99]"] by auto
qed

text \<open>
  The limit of \<open>strncpy\<close> does not count the terminator: copying a string of at least \<open>n\<close> bytes
  with limit \<open>n\<close> into a buffer of exactly \<open>n\<close> bytes writes the zero byte behind the buffer, and
  faults when there is no memory.
\<close>

theorem strncpy_past_buffer:
  assumes "cstr m s2 xs" "s1 \<noteq> NULL" "s2 \<noteq> NULL" "unat n \<le> length xs" "mapped m s1 (unat n)"
    "area s1 (unat n) \<inter> area s2 (Suc (length xs)) = {}"
  shows "if m (s1 + n) = None then strncpy m s1 s2 n = None
    else \<exists>m'. strncpy m s1 s2 n = Some (m', s1) \<and> m' (s1 + n) = Some 0"
proof -
  have l: "strncpy_loop m s1 s2 n = Some (put m s1 (take (unat n) xs), s1 + n)"
    using strncpy_loop_cstr [OF assms(1), of "unat n" n s1] assms(4-6) by simp
  have "s1 + n \<notin> area s1 (unat n)"
    using area_split_disjoint [of "unat n" 1 s1] unsigned_less [of n, where ?'a = nat]
    by (auto simp: area_def)
  then have "put m s1 (take (unat n) xs) (s1 + n) = m (s1 + n)"
    using assms(4) by (intro put_other) simp
  with l show ?thesis
    using assms(2,3) by (simp add: strncpy_def wrb_def)
qed

lemma strncpy_past_buffer_witness:
  "strncpy (example_bytes(0x21 := None)) 0x20 0x10 1 = None"
  using strncpy_past_buffer [of "example_bytes(0x21 := None)" "0x10" "[97, 98]" "0x20" 1]
  by (simp add: example_bytes_def mapped_def area_upt upt_rec)

end
