(* ===== verification/Forge_Kboot_Str.thy ===== *)
theory Forge_Kboot_Str
  imports Forge_Str
begin

text \<open>
  The string library of the boot loader, \<open>src/src/kboot/source/lib/string.c\<close>, on the same memory as
  the kernel's: copying and comparing, searching, splitting and stripping strings, and the number
  parsers. Its functions are written independently of the kernel's; the lemmas relate the two where
  they promise the same.
\<close>

section \<open>Model of lib/ctype.h\<close>

definition kb_isdigit :: "u8 \<Rightarrow> bool" where
  "kb_isdigit c \<longleftrightarrow> sint c \<ge> 48 \<and> sint c \<le> 57"

definition kb_isupper :: "u8 \<Rightarrow> bool" where
  "kb_isupper c \<longleftrightarrow> sint c \<ge> 65 \<and> sint c \<le> 90"

definition kb_isspace :: "u8 \<Rightarrow> bool" where
  "kb_isspace c \<longleftrightarrow> c = 9 \<or> c = 10 \<or> c = 11 \<or> c = 12 \<or> c = 13 \<or> c = 32"

definition kb_isxdigit :: "u8 \<Rightarrow> bool" where
  "kb_isxdigit c \<longleftrightarrow> (sint c \<ge> 48 \<and> sint c \<le> 57) \<or> (sint c \<ge> 97 \<and> sint c \<le> 102) \<or> (sint c \<ge> 65 \<and> sint c \<le> 70)"

definition kb_islower :: "u8 \<Rightarrow> bool" where
  "kb_islower c \<longleftrightarrow> sint c \<ge> 97 \<and> sint c \<le> 122"

definition kb_isalpha :: "u8 \<Rightarrow> bool" where
  "kb_isalpha c \<longleftrightarrow> kb_islower c \<or> kb_isupper c"

definition kb_tolower :: "u8 \<Rightarrow> u8" where
  "kb_tolower c = (if kb_isalpha c then c OR 0x20 else c)"

section \<open>Model of lib/string.c\<close>

partial_function (option) kb_memcpy_loop :: "bmem \<Rightarrow> u32 \<Rightarrow> u32 \<Rightarrow> u32 \<Rightarrow> bmem option" where
  "kb_memcpy_loop m d s count =
     (if count \<noteq> 0 then do {
        c \<leftarrow> m s;
        m \<leftarrow> wrb m d c;
        kb_memcpy_loop m (d + 1) (s + 1) (count - 1)
      } else Some m)"

definition kb_memcpy :: "bmem \<Rightarrow> u32 \<Rightarrow> u32 \<Rightarrow> u32 \<Rightarrow> (bmem \<times> u32) option" where
  "kb_memcpy m dest src count = do { m \<leftarrow> kb_memcpy_loop m dest src count; Some (m, dest) }"

partial_function (option) kb_memset_loop :: "bmem \<Rightarrow> u32 \<Rightarrow> u8 \<Rightarrow> u32 \<Rightarrow> bmem option" where
  "kb_memset_loop m d v count =
     (if count \<noteq> 0 then do { m \<leftarrow> wrb m d v; kb_memset_loop m (d + 1) v (count - 1) } else Some m)"

definition kb_memset :: "bmem \<Rightarrow> u32 \<Rightarrow> u32 \<Rightarrow> u32 \<Rightarrow> (bmem \<times> u32) option" where
  "kb_memset m dest v count = do { m \<leftarrow> kb_memset_loop m dest (ucast v) count; Some (m, dest) }"

partial_function (option) kb_memmove_loop :: "bmem \<Rightarrow> u32 \<Rightarrow> u32 \<Rightarrow> u32 \<Rightarrow> bmem option" where
  "kb_memmove_loop m d s count =
     (if count \<noteq> 0 then do {
        c \<leftarrow> m s;
        m \<leftarrow> wrb m d c;
        kb_memmove_loop m (d - 1) (s - 1) (count - 1)
      } else Some m)"

definition kb_memmove :: "bmem \<Rightarrow> u32 \<Rightarrow> u32 \<Rightarrow> u32 \<Rightarrow> (bmem \<times> u32) option" where
  "kb_memmove m dest src count =
     (if src \<noteq> dest then
        if src > dest then do { (m, _) \<leftarrow> kb_memcpy m dest src count; Some (m, dest) }
        else do {
          m \<leftarrow> kb_memmove_loop m (dest + (count - 1)) (src + (count - 1)) count;
          Some (m, dest)
        }
      else Some (m, dest))"

partial_function (option) kb_strlen :: "bmem \<Rightarrow> u32 \<Rightarrow> u32 \<Rightarrow> u32 option" where
  "kb_strlen m str ret = do {
     c \<leftarrow> m str;
     if c \<noteq> 0 then kb_strlen m (str + 1) (ret + 1) else Some ret
   }"

partial_function (option) kb_strnlen :: "bmem \<Rightarrow> u32 \<Rightarrow> u32 \<Rightarrow> u32 \<Rightarrow> u32 option" where
  "kb_strnlen m str count ret = do {
     c \<leftarrow> m str;
     if c \<noteq> 0 \<and> ret < count then kb_strnlen m (str + 1) count (ret + 1) else Some ret
   }"

partial_function (option) kb_strcmp :: "bmem \<Rightarrow> u32 \<Rightarrow> u32 \<Rightarrow> int option" where
  "kb_strcmp m s1 s2 = do {
     x \<leftarrow> m s1;
     y \<leftarrow> m s2;
     if x \<noteq> y \<or> x = 0 then Some (sint x - sint y) else kb_strcmp m (s1 + 1) (s2 + 1)
   }"

partial_function (option) kb_strncmp_loop :: "bmem \<Rightarrow> u32 \<Rightarrow> u32 \<Rightarrow> u32 \<Rightarrow> int option" where
  "kb_strncmp_loop m a b fini =
     (if a < fini then do {
        x \<leftarrow> m a;
        y \<leftarrow> m b;
        let res = sint x - sint y;
        if res \<noteq> 0 then Some res
        else if x = 0 then Some 0
        else kb_strncmp_loop m (a + 1) (b + 1) fini
      } else Some 0)"

definition kb_strncmp :: "bmem \<Rightarrow> u32 \<Rightarrow> u32 \<Rightarrow> u32 \<Rightarrow> int option" where
  "kb_strncmp m s1 s2 count = kb_strncmp_loop m s1 s2 (s1 + count)"

text \<open>Whether \<open>c\<close> is one of the delimiters, the terminator of the delimiter string included.\<close>

partial_function (option) kb_strsep_span :: "bmem \<Rightarrow> u8 \<Rightarrow> u32 \<Rightarrow> bool option" where
  "kb_strsep_span m c spanp = do {
     sc \<leftarrow> m spanp;
     if sc = c then Some True
     else if sc \<noteq> 0 then kb_strsep_span m c (spanp + 1)
     else Some False
   }"

text \<open>The result is the memory and the new value of \<open>*stringp\<close>.\<close>

partial_function (option) kb_strsep_loop :: "bmem \<Rightarrow> u32 \<Rightarrow> u32 \<Rightarrow> (bmem \<times> u32) option" where
  "kb_strsep_loop m s delim = do {
     c \<leftarrow> m s;
     hit \<leftarrow> kb_strsep_span m c delim;
     if hit then
       if c = 0 then Some (m, NULL)
       else do { m \<leftarrow> wrb m (s + 1 - 1) 0; Some (m, s + 1) }
     else kb_strsep_loop m (s + 1) delim
   }"

text \<open>\<open>strsep(&string, delim)\<close>: memory, new \<open>string\<close>, token.\<close>

definition kb_strsep :: "bmem \<Rightarrow> u32 \<Rightarrow> u32 \<Rightarrow> (bmem \<times> u32 \<times> u32) option" where
  "kb_strsep m string delim =
     (if string = NULL then Some (m, NULL, NULL)
      else do { (m, s) \<leftarrow> kb_strsep_loop m string delim; Some (m, s, string) })"

partial_function (option) kb_strchr_loop :: "bmem \<Rightarrow> u32 \<Rightarrow> u8 \<Rightarrow> u32 option" where
  "kb_strchr_loop m s ch = do {
     x \<leftarrow> m s;
     if x = ch then Some s
     else if x = 0 then Some NULL
     else kb_strchr_loop m (s + 1) ch
   }"

definition kb_strchr :: "bmem \<Rightarrow> u32 \<Rightarrow> int \<Rightarrow> u32 option" where
  "kb_strchr m s c = kb_strchr_loop m s (word_of_int c)"

partial_function (option) kb_strrchr_loop :: "bmem \<Rightarrow> u32 \<Rightarrow> int \<Rightarrow> u32 \<Rightarrow> u32 option" where
  "kb_strrchr_loop m s c l = do {
     x \<leftarrow> m s;
     let l = (if sint x = c then s else l);
     if x = 0 then Some l else kb_strrchr_loop m (s + 1) c l
   }"

definition kb_strrchr :: "bmem \<Rightarrow> u32 \<Rightarrow> int \<Rightarrow> u32 option" where
  "kb_strrchr m s c = kb_strrchr_loop m s c NULL"

partial_function (option) kb_strstrip_front :: "bmem \<Rightarrow> u32 \<Rightarrow> u32 option" where
  "kb_strstrip_front m str = do {
     c \<leftarrow> m str;
     if kb_isspace c then kb_strstrip_front m (str + 1) else Some str
   }"

text \<open>\<open>while(len--)\<close>: the value of \<open>len\<close> after the loop.\<close>

partial_function (option) kb_strstrip_back :: "bmem \<Rightarrow> u32 \<Rightarrow> u32 \<Rightarrow> u32 option" where
  "kb_strstrip_back m str len =
     (if len \<noteq> 0 then do {
        c \<leftarrow> m (str + (len - 1));
        if kb_isspace c then kb_strstrip_back m str (len - 1) else Some (len - 1)
      } else Some (len - 1))"

definition kb_strstrip :: "bmem \<Rightarrow> u32 \<Rightarrow> (bmem \<times> u32) option" where
  "kb_strstrip m str = do {
     str \<leftarrow> kb_strstrip_front m str;
     len \<leftarrow> kb_strlen m str 0;
     len \<leftarrow> kb_strstrip_back m str len;
     m \<leftarrow> wrb m (str + (len + 1)) 0;
     Some (m, str)
   }"

partial_function (option) kb_strcpy_loop :: "bmem \<Rightarrow> u32 \<Rightarrow> u32 \<Rightarrow> bmem option" where
  "kb_strcpy_loop m d src = do {
     c \<leftarrow> m src;
     m \<leftarrow> wrb m d c;
     if c \<noteq> 0 then kb_strcpy_loop m (d + 1) (src + 1) else Some m
   }"

definition kb_strcpy :: "bmem \<Rightarrow> u32 \<Rightarrow> u32 \<Rightarrow> (bmem \<times> u32) option" where
  "kb_strcpy m dest src = do { m \<leftarrow> kb_strcpy_loop m dest src; Some (m, dest) }"

partial_function (option) kb_strncpy_loop :: "bmem \<Rightarrow> u32 \<Rightarrow> u32 \<Rightarrow> u32 \<Rightarrow> u32 \<Rightarrow> bmem option" where
  "kb_strncpy_loop m dest src count i =
     (if i < count then do {
        c \<leftarrow> m (src + i);
        m \<leftarrow> wrb m (dest + i) c;
        c \<leftarrow> m (src + i);
        if c = 0 then Some m else kb_strncpy_loop m dest src count (i + 1)
      } else Some m)"

definition kb_strncpy :: "bmem \<Rightarrow> u32 \<Rightarrow> u32 \<Rightarrow> u32 \<Rightarrow> (bmem \<times> u32) option" where
  "kb_strncpy m dest src count = do { m \<leftarrow> kb_strncpy_loop m dest src count 0; Some (m, dest) }"

definition kb_strcat :: "bmem \<Rightarrow> u32 \<Rightarrow> u32 \<Rightarrow> (bmem \<times> u32) option" where
  "kb_strcat m dest src = do {
     destlen \<leftarrow> kb_strlen m dest 0;
     m \<leftarrow> kb_strcpy_loop m (dest + destlen) src;
     Some (m, dest)
   }"

text \<open>\<open>dup\<close> is the address that \<open>kmalloc\<close> returns.\<close>

definition kb_kstrdup :: "bmem \<Rightarrow> u32 \<Rightarrow> u32 \<Rightarrow> (bmem \<times> u32) option" where
  "kb_kstrdup m src dup = do {
     len \<leftarrow> kb_strlen m src 0;
     (m, _) \<leftarrow> kb_memcpy m dup src (len + 1);
     Some (m, dup)
   }"

definition kb_kstrndup :: "bmem \<Rightarrow> u32 \<Rightarrow> u32 \<Rightarrow> u32 \<Rightarrow> (bmem \<times> u32) option" where
  "kb_kstrndup m src n dup = do {
     len \<leftarrow> kb_strnlen m src n 0;
     (m, _) \<leftarrow> kb_memcpy m dup src len;
     m \<leftarrow> wrb m (dup + len) 0;
     Some (m, dup)
   }"

text \<open>
  The macro \<open>__strtoux\<close>, for a result type of any width: the base and the start of the digits, and
  the digit loop with its result and the end of the digits.
\<close>

definition kb_strtoux_prefix :: "bmem \<Rightarrow> u32 \<Rightarrow> u32 \<Rightarrow> (u32 \<times> u32) option" where
  "kb_strtoux_prefix m cp base =
     (if base = 0 then do {
        c \<leftarrow> m cp;
        if c = 48 then do {
          let cp = cp + 1;
          c \<leftarrow> m cp;
          if kb_tolower c = 120 then do {
            d \<leftarrow> m (cp + 1);
            if kb_isxdigit d then Some (cp + 1, 16) else Some (cp, 8)
          } else Some (cp, 8)
        } else Some (cp, 10)
      } else if base = 16 then do {
        c \<leftarrow> m cp;
        if c = 48 then do {
          d \<leftarrow> m (cp + 1);
          if kb_tolower d = 120 then Some (cp + 2, base) else Some (cp, base)
        } else Some (cp, base)
      } else Some (cp, base))"

definition kb_digit :: "u8 \<Rightarrow> u32" where
  "kb_digit c = (if kb_isdigit c then scast c - 48 else scast (kb_tolower c) - 97 + 10)"

partial_function (option) kb_strtoux_loop :: "bmem \<Rightarrow> u32 \<Rightarrow> u32 \<Rightarrow> 'a::len word \<Rightarrow> ('a word \<times> u32) option" where
  "kb_strtoux_loop m cp base result = do {
     c \<leftarrow> m cp;
     if kb_isxdigit c \<and> kb_digit c < base then
       kb_strtoux_loop m (cp + 1) base (result * ucast base + ucast (kb_digit c))
     else Some (result, cp)
   }"

definition kb_strtoux :: "bmem \<Rightarrow> u32 \<Rightarrow> u32 \<Rightarrow> ('a::len word \<times> u32) option" where
  "kb_strtoux m cp base = do { (cp, base) \<leftarrow> kb_strtoux_prefix m cp base; kb_strtoux_loop m cp base 0 }"

definition kb_strtoul :: "bmem \<Rightarrow> u32 \<Rightarrow> u32 \<Rightarrow> (u32 \<times> u32) option" where
  "kb_strtoul m cp base = kb_strtoux m cp base"

definition kb_strtol :: "bmem \<Rightarrow> u32 \<Rightarrow> u32 \<Rightarrow> (u32 \<times> u32) option" where
  "kb_strtol m cp base = do {
     c \<leftarrow> m cp;
     if c = 45 then do { (r, e) \<leftarrow> kb_strtoul m (cp + 1) base; Some (- r, e) }
     else kb_strtoul m cp base
   }"

definition kb_strtoull :: "bmem \<Rightarrow> u32 \<Rightarrow> u32 \<Rightarrow> (u64 \<times> u32) option" where
  "kb_strtoull m cp base = kb_strtoux m cp base"

definition kb_strtoll :: "bmem \<Rightarrow> u32 \<Rightarrow> u32 \<Rightarrow> (u64 \<times> u32) option" where
  "kb_strtoll m cp base = do {
     c \<leftarrow> m cp;
     if c = 45 then do { (r, e) \<leftarrow> kb_strtoull m (cp + 1) base; Some (- r, e) }
     else kb_strtoull m cp base
   }"

section \<open>Copying\<close>

lemma kb_memcpy_loop_eq: "kb_memcpy_loop m d s count = memcpy_loop m d s count"
proof (induction "unat count" arbitrary: m d s count)
  case 0
  then have "count = 0"
    by (simp add: unat_eq_0)
  then show ?case
    by (subst kb_memcpy_loop.simps, subst memcpy_loop.simps) simp
next
  case (Suc n)
  from Suc(1) [OF unat_SucD(2) [OF Suc(2)]] show ?case
    by (subst kb_memcpy_loop.simps, subst memcpy_loop.simps) simp
qed

lemma kb_memcpy_copied:
  assumes "unat d + unat count \<le> 2 ^ 32" "unat s + unat count \<le> 2 ^ 32"
    "unat d \<le> unat s \<or> unat s + unat count \<le> unat d" "mapped m s (unat count)" "mapped m d (unat count)"
  shows "kb_memcpy m d s count = Some (copied m d s (unat count), d)"
  using memcpy_loop_copied [OF refl assms] by (simp add: kb_memcpy_def kb_memcpy_loop_eq)

lemma area_Suc_end: "area a (Suc n) = insert (a + of_nat n) (area a n)"
  by (simp add: area_def lessThan_Suc)

lemma copied_Suc_end:
  assumes "unat d + Suc n \<le> 2 ^ 32" "unat s + Suc n \<le> 2 ^ 32" "unat s < unat d" "m (s + of_nat n) = Some c"
  shows "copied (m(d + of_nat n \<mapsto> c)) d s n = copied m d s (Suc n)"
proof
  fix a
  have u: "unat (d + of_nat n) = unat d + n"
    by (rule area_elem [OF assms(1)]) simp
  consider "a = d + of_nat n" | "a \<in> area d n" | "a \<notin> area d (Suc n)"
    unfolding area_Suc_end by blast
  then show "copied (m(d + of_nat n \<mapsto> c)) d s n a = copied m d s (Suc n) a"
  proof cases
    case 1
    have "d + of_nat n \<notin> area d n"
      using area_split_disjoint [of n 1 d] assms(1) unfolding area_Suc One_nat_def by auto
    then show ?thesis
      unfolding 1 copied_def area_Suc_end using assms(4) by simp
  next
    case 2
    then obtain i where i: "i < n" "a = d + of_nat i"
      by (auto simp: area_def)
    have "unat (s + of_nat i) = unat s + i"
      using i(1) by (intro area_elem [OF assms(2)]) simp
    then have "unat (s + of_nat i) \<noteq> unat (d + of_nat n)"
      using u i(1) assms(3) by linarith
    then have "s + of_nat i \<noteq> d + of_nat n"
      by metis
    moreover have "s + (a - d) = s + of_nat i"
      using i(2) by simp
    moreover note 2
    ultimately show ?thesis
      unfolding copied_def area_Suc_end by (simp only: insertI2 if_True fun_upd_other simp_thms)
  next
    case 3
    then have "a \<notin> area d n" "a \<noteq> d + of_nat n"
      unfolding area_Suc_end by blast+
    with 3 show ?thesis
      unfolding copied_def by (simp only: if_False simp_thms fun_upd_other)
  qed
qed

lemma kb_memmove_loop_copied:
  "n = unat count \<Longrightarrow> unat d + n \<le> 2 ^ 32 \<Longrightarrow> unat s + n \<le> 2 ^ 32 \<Longrightarrow> unat s < unat d \<Longrightarrow>
   mapped m s n \<Longrightarrow> mapped m d n \<Longrightarrow>
   kb_memmove_loop m (d + (count - 1)) (s + (count - 1)) count = Some (copied m d s n)"
proof (induction n arbitrary: m count)
  case 0
  then have "count = 0"
    by (simp add: unat_eq_0)
  then show ?case
    by (subst kb_memmove_loop.simps) (simp add: copied_def)
next
  case (Suc n)
  note count = unat_SucD [OF Suc.prems(1)]
  have e: "count - 1 = of_nat n"
    using count(2) by simp
  obtain c where c: "m (s + of_nat n) = Some c" "m (d + of_nat n) \<noteq> None" "mapped m s n" "mapped m d n"
    using Suc.prems(5,6) by (auto simp: mapped_def)
  have "kb_memmove_loop (m(d + of_nat n \<mapsto> c)) (d + (count - 1 - 1)) (s + (count - 1 - 1)) (count - 1) =
      Some (copied (m(d + of_nat n \<mapsto> c)) d s n)"
    using Suc.prems(2-4) by (intro Suc.IH [OF count(2)] mapped_mono c) simp_all
  then show ?case
    using c(1,2) count(1) copied_Suc_end [of d n s m c] Suc.prems(2-4)
    by (subst kb_memmove_loop.simps) (simp add: e add_diff_eq)
qed

lemma kb_memset_loop_bytes:
  "n = unat count \<Longrightarrow> mapped m d n \<Longrightarrow> kb_memset_loop m d v count = Some (put m d (replicate n v))"
proof (induction n arbitrary: m d count)
  case 0
  then have "count = 0"
    by (simp add: unat_eq_0)
  then show ?case
    by (subst kb_memset_loop.simps) simp
next
  case (Suc n)
  note count = unat_SucD [OF Suc.prems(1)]
  have d: "m d \<noteq> None" "mapped m (d + 1) n"
    using Suc.prems(2) by (simp_all add: mapped_Suc)
  have "kb_memset_loop (m(d \<mapsto> v)) (d + 1) v (count - 1) = Some (put (m(d \<mapsto> v)) (d + 1) (replicate n v))"
    by (intro Suc.IH [OF count(2)] mapped_mono d(2))
  with d(1) count(1) show ?case
    by (subst kb_memset_loop.simps) simp
qed

section \<open>Comparing and searching\<close>

lemma kb_strlen_cstr: "cstr m s xs \<Longrightarrow> kb_strlen m s r = Some (r + of_nat (length xs))"
  by (induction xs arbitrary: s r) (auto simp: kb_strlen.simps [of m] add.assoc)

lemma kb_strcmp_cstr: "cstr m s1 xs \<Longrightarrow> cstr m s2 ys \<Longrightarrow> kb_strcmp m s1 s2 = Some (cmp_bytes xs ys)"
  by (induction xs ys arbitrary: s1 s2 rule: cmp_bytes.induct) (auto simp: kb_strcmp.simps [of m])

lemma kb_strchr_cstr:
  "cstr m s xs \<Longrightarrow> c \<noteq> 0 \<Longrightarrow> kb_strchr_loop m s c = strsearch m s c"
  by (induction xs arbitrary: s) (auto simp: kb_strchr_loop.simps [of m] strsearch.simps [of m])

lemma kb_strsep_span_cstr: "cstr m p ds \<Longrightarrow> kb_strsep_span m c p = Some (c = 0 \<or> c \<in> set ds)"
  by (induction ds arbitrary: p) (auto simp: kb_strsep_span.simps [of m])

lemma kb_strsep_loop_cstr:
  "cstr m s xs \<Longrightarrow> cstr m delim ds \<Longrightarrow>
   kb_strsep_loop m s delim =
     (let ys = takeWhile (\<lambda>x. x \<notin> set ds) xs; e = s + of_nat (length ys) in
      if ys = xs then Some (m, NULL) else Some (m(e \<mapsto> 0), e + 1))"
proof (induction xs arbitrary: s)
  case (Cons x xs)
  then show ?case
    by (subst kb_strsep_loop.simps) (auto simp: kb_strsep_span_cstr Let_def add.assoc)
qed (subst kb_strsep_loop.simps, simp add: kb_strsep_span_cstr)

section \<open>Copying strings\<close>

lemma kb_strcpy_loop_cstr:
  "cstr m s xs \<Longrightarrow> mapped m d (Suc (length xs)) \<Longrightarrow> area d (Suc (length xs)) \<inter> area s (Suc (length xs)) = {} \<Longrightarrow>
   kb_strcpy_loop m d s = Some (put m d (xs @ [0]))"
proof (induction xs arbitrary: m d s)
  case Nil
  then show ?case
    by (subst kb_strcpy_loop.simps) (simp add: mapped_Suc)
next
  case (Cons x xs)
  have d: "d \<notin> area (s + 1) (Suc (length xs))" "area (d + 1) (Suc (length xs)) \<inter> area (s + 1) (Suc (length xs)) = {}"
    "m d \<noteq> None" "mapped m (d + 1) (Suc (length xs))"
    using Cons.prems(2,3) unfolding area_Suc [of d "Suc _"] area_Suc [of s "Suc _"] length_Cons mapped_Suc [of m d] by auto
  have "kb_strcpy_loop (m(d \<mapsto> x)) (d + 1) (s + 1) = Some (put (m(d \<mapsto> x)) (d + 1) (xs @ [0]))"
  proof (rule Cons.IH)
    show "cstr (m(d \<mapsto> x)) (s + 1) xs"
      unfolding cstr_upd [OF d(1)] using Cons.prems(1) by simp
  qed (rule mapped_mono [OF d(4)], rule d(2))
  with Cons.prems(1) d(3) show ?case
    by (subst kb_strcpy_loop.simps) simp
qed

lemma kb_strcpy_cstr:
  assumes "cstr m s xs" "mapped m d (Suc (length xs))" "area d (Suc (length xs)) \<inter> area s (Suc (length xs)) = {}"
  shows "kb_strcpy m d s = Some (put m d (xs @ [0]), d)"
  by (simp add: kb_strcpy_def kb_strcpy_loop_cstr [OF assms])

lemma kb_strcat_cstr:
  assumes "cstr m a xs" "cstr m b ys" "mapped m (a + of_nat (length xs)) (Suc (length ys))"
    "area (a + of_nat (length xs)) (Suc (length ys)) \<inter> area b (Suc (length ys)) = {}"
  shows "kb_strcat m a b = Some (put m (a + of_nat (length xs)) (ys @ [0]), a)"
  using kb_strlen_cstr [OF assms(1), of 0] kb_strcpy_loop_cstr [OF assms(2-4)] by (simp add: kb_strcat_def)

text \<open>The loop that reads the byte before it looks at the limit needs one byte more than the limit.\<close>

lemma kb_strnlen_overread:
  "bytes m s xs \<Longrightarrow> 0 \<notin> set xs \<Longrightarrow> length xs + unat r = unat count \<Longrightarrow> m (s + of_nat (length xs)) = None \<Longrightarrow>
   kb_strnlen m s count r = None"
proof (induction xs arbitrary: s r)
  case (Cons x xs)
  then have "r < count"
    by (simp add: word_less_nat_alt)
  moreover from this have "unat (r + 1) = Suc (unat r)"
    using unsigned_less [of count, where ?'a = nat] by (intro unat_Suc_no_overflow) (simp add: word_less_nat_alt)
  ultimately show ?case
    using Cons by (subst kb_strnlen.simps) (simp add: add.assoc)
qed (subst kb_strnlen.simps, simp)

section \<open>Stripping\<close>

definition trim :: "u8 list \<Rightarrow> u8 list" where
  "trim xs = rev (dropWhile kb_isspace (rev (dropWhile kb_isspace xs)))"

lemma kb_strstrip_front_cstr:
  "cstr m s xs \<Longrightarrow> kb_strstrip_front m s = Some (s + of_nat (length (takeWhile kb_isspace xs)))"
proof (induction xs arbitrary: s)
  case Nil
  then show ?case
    by (subst kb_strstrip_front.simps) (simp add: kb_isspace_def)
next
  case (Cons x xs)
  then show ?case
    by (subst kb_strstrip_front.simps) (simp add: add.assoc)
qed

lemma cstr_dropWhile: "cstr m s xs \<Longrightarrow> cstr m (s + of_nat (length (takeWhile P xs))) (dropWhile P xs)"
  by (induction xs arbitrary: s) (auto simp: add.assoc [symmetric])

lemma kb_strstrip_back_bytes:
  "bytes m s xs \<Longrightarrow> length xs < 2 ^ 32 \<Longrightarrow>
   kb_strstrip_back m s (of_nat (length xs)) = Some (of_nat (length (dropWhile kb_isspace (rev xs))) - 1)"
proof (induction xs rule: rev_induct)
  case Nil
  then show ?case
    by (subst kb_strstrip_back.simps) simp
next
  case (snoc x xs)
  have "unat (of_nat (Suc (length xs)) :: u32) = Suc (length xs)"
    using snoc.prems(2) unfolding unat_of_nat by simp
  then have "(of_nat (Suc (length xs)) :: u32) \<noteq> 0"
    by (metis nat.simps(3) unat_0)
  then show ?case
    using snoc by (subst kb_strstrip_back.simps) (simp add: bytes_append)
qed

lemma trim_prefix: "\<exists>zs. dropWhile kb_isspace xs = trim xs @ zs"
proof -
  have "dropWhile kb_isspace xs = rev (takeWhile kb_isspace (rev (dropWhile kb_isspace xs)) @ rev (trim xs))"
    by (simp add: trim_def)
  then have "dropWhile kb_isspace xs = trim xs @ rev (takeWhile kb_isspace (rev (dropWhile kb_isspace xs)))"
    by simp
  then show ?thesis
    by blast
qed

lemma kb_strstrip_cstr:
  assumes "cstr m s xs" "length xs < 2 ^ 32"
  shows "\<exists>m'. kb_strstrip m s = Some (m', s + of_nat (length (takeWhile kb_isspace xs))) \<and>
    cstr m' (s + of_nat (length (takeWhile kb_isspace xs))) (trim xs)"
proof -
  define t where "t = s + of_nat (length (takeWhile kb_isspace xs))"
  define ys where "ys = dropWhile kb_isspace xs"
  have c: "cstr m t ys"
    unfolding t_def ys_def using assms(1) by (rule cstr_dropWhile)
  have len: "length ys < 2 ^ 32"
    using assms(2) length_dropWhile_le [of kb_isspace xs] unfolding ys_def by linarith
  obtain zs where zs: "ys = trim xs @ zs"
    using trim_prefix unfolding ys_def by blast
  have bk: "kb_strstrip_back m t (of_nat (length ys)) = Some (of_nat (length (trim xs)) - 1)"
    using kb_strstrip_back_bytes [OF _ len, of m t] c by (simp add: cstr_def bytes_append trim_def ys_def)
  define e where "e = t + of_nat (length (trim xs))"
  have "bytes m t (trim xs @ zs @ [0])" "0 \<notin> set (trim xs)"
    using c zs by (auto simp: cstr_def)
  then have b: "bytes m t (trim xs)" "m e \<noteq> None" "0 \<notin> set (trim xs)"
    by (cases zs; auto simp: bytes_append e_def)+
  have "e \<notin> area t (length (trim xs))"
    using area_split_disjoint [of "length (trim xs)" 1 t] len zs unfolding area_Suc One_nat_def e_def by auto
  then have "cstr (m(e \<mapsto> 0)) t (trim xs)"
    using b bytes_upd [of e t "trim xs" m 0] by (simp add: cstr_def bytes_append e_def)
  moreover have "kb_strstrip m s = Some (m(e \<mapsto> 0), t)"
    using kb_strstrip_front_cstr [OF assms(1)] kb_strlen_cstr [OF c, of 0] bk b(2)
    by (simp add: kb_strstrip_def t_def [symmetric] e_def)
  ultimately show ?thesis
    unfolding t_def by blast
qed

section \<open>Numbers\<close>

lemma kb_strtoux_loop_bytes:
  "bytes m cp xs \<Longrightarrow> list_all (\<lambda>c. kb_isxdigit c \<and> kb_digit c < base) xs \<Longrightarrow>
   m (cp + of_nat (length xs)) = Some t \<Longrightarrow> \<not> (kb_isxdigit t \<and> kb_digit t < base) \<Longrightarrow>
   kb_strtoux_loop m cp base r =
     Some (foldl (\<lambda>r c. r * ucast base + ucast (kb_digit c)) r xs, cp + of_nat (length xs))"
proof (induction xs arbitrary: cp r)
  case Nil
  then show ?case
    by (subst kb_strtoux_loop.simps) auto
next
  case (Cons x xs)
  then show ?case
    by (subst kb_strtoux_loop.simps) (simp add: add.assoc)
qed

section \<open>Properties\<close>

text \<open>
  C21. \<open>memmove\<close> copies correctly between areas that overlap in any way: the destination holds what
  the source area held before the call, and no other byte changes.
\<close>

theorem kb_memmove_overlap:
  assumes "unat dest + unat count \<le> 2 ^ 32" "unat src + unat count \<le> 2 ^ 32"
    "mapped m src (unat count)" "mapped m dest (unat count)"
  shows "kb_memmove m dest src count = Some (copied m dest src (unat count), dest)"
proof -
  consider "src = dest" | "unat dest < unat src" | "unat src < unat dest"
    by (metis linorder_cases word_unat_eq_iff)
  then show ?thesis
  proof cases
    case 1
    then have "copied m dest src (unat count) = m"
      by (simp add: copied_def fun_eq_iff)
    with 1 show ?thesis
      by (simp add: kb_memmove_def)
  next
    case 2
    then show ?thesis
      using kb_memcpy_copied [OF assms(1,2) _ assms(3,4)] by (auto simp: kb_memmove_def word_less_nat_alt)
  next
    case 3
    then show ?thesis
      using kb_memmove_loop_copied [OF refl assms(1,2) _ assms(3,4)] by (auto simp: kb_memmove_def word_less_nat_alt)
  qed
qed

lemma kb_memmove_overlap_witness:
  "\<exists>m'. kb_memmove example_bytes 0x11 0x10 2 = Some (m', 0x11) \<and> m' 0x11 = Some 97 \<and> m' 0x12 = Some 98"
  using kb_memmove_overlap [of "0x11" 2 "0x10" example_bytes]
  by (simp add: mapped_def copied_def area_upt upt_rec) (simp add: example_bytes_def)

text \<open>
  C22. The kernel's and the boot loader's \<open>strcmp\<close>, two different implementations, agree: on any two
  strings both return, the kernel's result is the sign of the boot loader's, and it is 0 exactly for
  equal strings.
\<close>

theorem strcmp_agree:
  assumes "cstr m s1 xs" "cstr m s2 ys" "s1 \<noteq> NULL" "s2 \<noteq> NULL"
  shows "\<exists>r. kb_strcmp m s1 s2 = Some r \<and> strcmp m s1 s2 = Some (sgn r) \<and> (r = 0 \<longleftrightarrow> xs = ys)"
  using kb_strcmp_cstr [OF assms(1,2)] strcmp_cstr [OF assms] cmp_bytes_eq_0 [of xs ys] assms(1,2)
  by (auto simp: cstr_def)

lemma strcmp_agree_witness:
  "\<exists>r. kb_strcmp example_bytes 0x10 0x40 = Some r \<and> strcmp example_bytes 0x10 0x40 = Some (sgn r) \<and> r \<noteq> 0"
  using strcmp_agree [of example_bytes "0x10" "[97, 98]" "0x40" "[99]"] by (simp add: example_bytes_def)

text \<open>
  C23. \<open>strsep\<close> splits at the first delimiter: the token returned is the text before it, the string
  pointer moves to the text behind it, and both are proper strings afterwards; without a delimiter
  the whole string is the token, memory is unchanged and the string pointer becomes NULL.
\<close>

theorem kb_strsep_splits:
  assumes "cstr m s xs" "cstr m delim ds" "s \<noteq> NULL" "length xs < 2 ^ 32"
    "area s (Suc (length xs)) \<inter> area delim (Suc (length ds)) = {}"
  shows "if \<exists>x \<in> set xs. x \<in> set ds
    then \<exists>m' ys d zs. xs = ys @ d # zs \<and> d \<in> set ds \<and> set ys \<inter> set ds = {} \<and>
      kb_strsep m s delim = Some (m', s + of_nat (Suc (length ys)), s) \<and>
      cstr m' s ys \<and> cstr m' (s + of_nat (Suc (length ys))) zs \<and> cstr m' delim ds
    else kb_strsep m s delim = Some (m, NULL, s)"
proof (cases "\<exists>x \<in> set xs. x \<in> set ds")
  case True
  define ys where "ys = takeWhile (\<lambda>x. x \<notin> set ds) xs"
  obtain d zs where xs: "xs = ys @ d # zs" "d \<in> set ds" "set ys \<inter> set ds = {}"
    using split_list_first_prop [of xs "\<lambda>x. x \<in> set ds"] True unfolding ys_def
    by (metis (no_types, lifting) disjoint_iff takeWhile_eq_all_conv takeWhile_tail takeWhile_append2)
  define e where "e = s + of_nat (length ys)"
  have "bytes m s (ys @ d # zs @ [0])" "0 \<notin> set (ys @ d # zs)"
    using assms(1) xs(1) by (simp_all add: cstr_def)
  then have b: "bytes m s ys" "m e = Some d" "bytes m (e + 1) (zs @ [0])" "0 \<notin> set ys" "0 \<notin> set zs"
    by (simp_all add: bytes_append e_def)
  have "e \<in> area s (Suc (length xs))"
    using xs(1) unfolding area_def e_def by (intro image_eqI [of _ _ "length ys"]) simp_all
  then have e: "e \<notin> area s (length ys)" "e \<notin> area (e + 1) (length (zs @ [0]))" "e \<notin> area delim (Suc (length ds))"
    using area_split_disjoint [of "length ys" 1 s] not_in_area_Suc [of "length (zs @ [0])" e] assms(4,5) xs(1)
    unfolding area_Suc [of _ 0] One_nat_def e_def [symmetric] by auto
  have "cstr (m(e \<mapsto> 0)) s ys" "cstr (m(e \<mapsto> 0)) (e + 1) zs" "cstr (m(e \<mapsto> 0)) delim ds"
    using b assms(2) bytes_upd [OF e(1)] bytes_upd [OF e(2)] cstr_upd [OF e(3)]
    by (simp_all add: cstr_def bytes_append e_def)
  moreover have "ys \<noteq> xs"
    using xs(1) by auto
  then have "kb_strsep m s delim = Some (m(e \<mapsto> 0), e + 1, s)"
    using kb_strsep_loop_cstr [OF assms(1,2), folded ys_def] assms(3)
    by (simp add: kb_strsep_def Let_def e_def)
  moreover have "s + of_nat (Suc (length ys)) = e + 1"
    by (simp add: e_def)
  ultimately show ?thesis
    using True xs by metis
next
  case False
  then have "takeWhile (\<lambda>x. x \<notin> set ds) xs = xs"
    by (auto simp: takeWhile_eq_all_conv)
  with False show ?thesis
    using kb_strsep_loop_cstr [OF assms(1,2)] assms(3) by (simp add: kb_strsep_def)
qed

lemma kb_strsep_splits_witness:
  "\<exists>m' ys d zs. [97, 98] = ys @ d # zs \<and> d \<in> set [98] \<and> set ys \<inter> set [98] = {} \<and>
      kb_strsep (example_bytes(0x40 \<mapsto> 98)) 0x10 0x40 = Some (m', 0x10 + of_nat (Suc (length ys)), 0x10) \<and>
      cstr m' 0x10 ys \<and> cstr m' (0x10 + of_nat (Suc (length ys))) zs \<and> cstr m' 0x40 [98]"
  using kb_strsep_splits [of "example_bytes(0x40 \<mapsto> 98)" "0x10" "[97, 98]" "0x40" "[98]"]
  by (simp add: example_bytes_def area_upt upt_rec)

end
