(* ===== verification/Forge_Strtoul.thy ===== *)
theory Forge_Strtoul
  imports Forge_Str
begin

text \<open>
  The kernel's number parser, \<open>src/src/kernel/strotul.c\<close>, and the number printer \<open>number\<close> of
  \<open>src/src/kernel/vsprintf.c\<close>, which the parser inverts. The printer writes through a pointer into
  byte-addressed memory; the pair of the memory and that pointer is the output state.
\<close>

section \<open>Model of strotul.c\<close>

definition cvtIn :: "u32 list" where
  "cvtIn = [0, 1, 2, 3, 4, 5, 6, 7, 8, 9,
    100, 100, 100, 100, 100, 100, 100,
    10, 11, 12, 13, 14, 15, 16, 17, 18, 19,
    20, 21, 22, 23, 24, 25, 26, 27, 28, 29,
    30, 31, 32, 33, 34, 35,
    100, 100, 100, 100, 100, 100,
    10, 11, 12, 13, 14, 15, 16, 17, 18, 19,
    20, 21, 22, 23, 24, 25, 26, 27, 28, 29,
    30, 31, 32, 33, 34, 35]"

definition isspace :: "u8 \<Rightarrow> bool" where
  "isspace c \<longleftrightarrow> c = 32 \<or> c = 9 \<or> c = 10 \<or> c = 11 \<or> c = 12 \<or> c = 13"

partial_function (option) skip_space :: "bmem \<Rightarrow> u32 \<Rightarrow> u32 option" where
  "skip_space m p = do { c \<leftarrow> m p; if isspace c then skip_space m (p + 1) else Some p }"

text \<open>\<open>*p - '0'\<close> as an unsigned number.\<close>

definition raw_digit :: "u8 \<Rightarrow> u32" where
  "raw_digit c = scast c - 48"

text \<open>The digit loops return the result, the position behind the digits and whether there were any.\<close>

partial_function (option) oct_loop :: "bmem \<Rightarrow> u32 \<Rightarrow> u32 \<Rightarrow> bool \<Rightarrow> (u32 \<times> u32 \<times> bool) option" where
  "oct_loop m p result anyDigits = do {
     c \<leftarrow> m p;
     let digit = raw_digit c;
     if digit > 7 then Some (result, p, anyDigits)
     else oct_loop m (p + 1) (push_bit 3 result + digit) True
   }"

partial_function (option) dec_loop :: "bmem \<Rightarrow> u32 \<Rightarrow> u32 \<Rightarrow> bool \<Rightarrow> (u32 \<times> u32 \<times> bool) option" where
  "dec_loop m p result anyDigits = do {
     c \<leftarrow> m p;
     let digit = raw_digit c;
     if digit > 9 then Some (result, p, anyDigits)
     else dec_loop m (p + 1) (10 * result + digit) True
   }"

partial_function (option) hex_loop :: "bmem \<Rightarrow> u32 \<Rightarrow> u32 \<Rightarrow> bool \<Rightarrow> (u32 \<times> u32 \<times> bool) option" where
  "hex_loop m p result anyDigits = do {
     c \<leftarrow> m p;
     let digit = raw_digit c;
     if digit > 122 - 48 then Some (result, p, anyDigits)
     else do {
       let digit = cvtIn ! unat digit;
       if digit > 15 then Some (result, p, anyDigits)
       else hex_loop m (p + 1) (push_bit 4 result + digit) True
     }
   }"

partial_function (option) gen_loop :: "bmem \<Rightarrow> u32 \<Rightarrow> u32 \<Rightarrow> u32 \<Rightarrow> bool \<Rightarrow> (u32 \<times> u32 \<times> bool) option" where
  "gen_loop m base p result anyDigits = do {
     c \<leftarrow> m p;
     let digit = raw_digit c;
     if digit > 122 - 48 then Some (result, p, anyDigits)
     else do {
       let digit = cvtIn ! unat digit;
       if digit \<ge> base then Some (result, p, anyDigits)
       else gen_loop m base (p + 1) (result * base + digit) True
     }
   }"

definition strtoul_base :: "bmem \<Rightarrow> u32 \<Rightarrow> u32 \<Rightarrow> (u32 \<times> u32 \<times> bool) option" where
  "strtoul_base m p base =
     (if base = 0 then do {
        c \<leftarrow> m p;
        if c = 48 then do {
          let p = p + 1;
          c \<leftarrow> m p;
          if c = 120 then Some (p + 1, 16, False) else Some (p, 8, True)
        } else Some (p, 10, False)
      } else if base = 16 then do {
        c \<leftarrow> m p;
        if c = 48 then do {
          d \<leftarrow> m (p + 1);
          if d = 120 then Some (p + 2, 16, False) else Some (p, 16, False)
        } else Some (p, 16, False)
      } else Some (p, base, False))"

text \<open>The result and the value stored through \<open>endPtr\<close>.\<close>

definition strtoul :: "bmem \<Rightarrow> u32 \<Rightarrow> u32 \<Rightarrow> (u32 \<times> u32) option" where
  "strtoul m string base = do {
     p \<leftarrow> skip_space m string;
     (p, base, anyDigits) \<leftarrow> strtoul_base m p base;
     (result, p, anyDigits) \<leftarrow>
       (if base = 8 then oct_loop m p 0 anyDigits
        else if base = 10 then dec_loop m p 0 anyDigits
        else if base = 16 then hex_loop m p 0 anyDigits
        else gen_loop m base p 0 anyDigits);
     Some (result, if anyDigits then p else string)
   }"

section \<open>Model of number in vsprintf.c\<close>

type_synonym out = "bmem \<times> u32"

definition emit :: "out \<Rightarrow> u8 \<Rightarrow> out option" where
  "emit ost c = do { m \<leftarrow> wrb (fst ost) (snd ost) c; Some (m, snd ost + 1) }"

primrec emit_rep :: "out \<Rightarrow> u8 \<Rightarrow> nat \<Rightarrow> out option" where
  "emit_rep ost c 0 = Some ost"
| "emit_rep ost c (Suc n) = do { ost \<leftarrow> emit ost c; emit_rep ost c n }"

primrec emit_list :: "out \<Rightarrow> u8 list \<Rightarrow> out option" where
  "emit_list ost [] = Some ost"
| "emit_list ost (c # cs) = do { ost \<leftarrow> emit ost c; emit_list ost cs }"

definition ZEROPAD :: u32 where "ZEROPAD = 1"
definition SIGN :: u32 where "SIGN = 2"
definition PLUS :: u32 where "PLUS = 4"
definition SPACE :: u32 where "SPACE = 8"
definition LEFT :: u32 where "LEFT = 16"
definition SPECIAL :: u32 where "SPECIAL = 32"
definition SMALL :: u32 where "SMALL = 64"

text \<open>\<open>digits[d]\<close> for the two digit strings.\<close>

definition digit_char :: "bool \<Rightarrow> nat \<Rightarrow> u8" where
  "digit_char small d = (if d < 10 then 48 + of_nat d else if small then 87 + of_nat d else 55 + of_nat d)"

text \<open>The digits in \<open>tmp\<close>, last one first; more than 36 do not fit.\<close>

function tmp_digits :: "bool \<Rightarrow> u64 \<Rightarrow> u64 \<Rightarrow> u8 list \<Rightarrow> u8 list option" where
  "tmp_digits small base num tmp =
     (if num = 0 then Some tmp
      else if length tmp \<ge> 36 then None
      else tmp_digits small base (num div base) (tmp @ [digit_char small (unat (num mod base))]))"
  by auto
termination by (relation "measure (\<lambda>(s, b, n, tmp). 37 - length tmp)") auto

declare tmp_digits.simps [simp del]

definition number_sign :: "u64 \<Rightarrow> u32 \<Rightarrow> u8 \<times> u64" where
  "number_sign num type =
     (if type AND SIGN > 0 \<and> sint num < 0 then (45, - num)
      else (if type AND PLUS \<noteq> 0 then 43 else if type AND SPACE \<noteq> 0 then 32 else 0, num))"

text \<open>The room for padding once the sign and the prefix are taken off the field.\<close>

definition number_size :: "u8 \<Rightarrow> u8 \<Rightarrow> u32 \<Rightarrow> u32 \<Rightarrow> u32" where
  "number_size sign base fsize type =
     (let fsize = (if sign \<noteq> 0 \<and> fsize > 0 then fsize - 1 else fsize) in
      if type AND SPECIAL \<noteq> 0 then
        if base = 16 \<and> fsize \<ge> 2 then fsize - 2
        else if base = 8 \<and> fsize > 0 then fsize - 1 else fsize
      else fsize)"

definition number :: "out \<Rightarrow> u64 \<Rightarrow> u8 \<Rightarrow> u32 \<Rightarrow> u32 \<Rightarrow> u32 \<Rightarrow> out option" where
  "number ost num base fsize precision type =
     (let small = (type AND SMALL \<noteq> 0);
          type = (if type AND LEFT \<noteq> 0 then type AND NOT ZEROPAD else type) in
      if base < 2 \<or> base > 36 then Some (fst ost, 0)
      else do {
        let c = (if type AND ZEROPAD \<noteq> 0 then 48 else 32);
        let precision = (if precision = NOT 0 then 0 else precision);
        let fsize = (if fsize = NOT 0 then 0 else fsize);
        let (sign, num) = number_sign num type;
        let fsize = number_size sign base fsize type;
        tmp \<leftarrow> (if num = 0 then Some [48] else tmp_digits small (ucast base) num []);
        let i = of_nat (length tmp);
        let precision = (if i > precision then i else precision);
        let fsize = (if fsize > precision then fsize - precision else 0);
        (ost, fsize) \<leftarrow> (if type AND (ZEROPAD + LEFT) = 0 then do {
                            ost \<leftarrow> emit_rep ost 32 (unat fsize); Some (ost, 0)
                          } else Some (ost, fsize));
        ost \<leftarrow> (if sign \<noteq> 0 then emit ost sign else Some ost);
        ost \<leftarrow> (if type AND SPECIAL \<noteq> 0 then
                  if base = 8 then emit ost 48
                  else if base = 16 then do { ost \<leftarrow> emit ost 48; emit ost (digit_char small 33) }
                  else Some ost
                else Some ost);
        (ost, fsize) \<leftarrow> (if type AND LEFT = 0 then do {
                            ost \<leftarrow> emit_rep ost c (unat fsize); Some (ost, 0)
                          } else Some (ost, fsize));
        ost \<leftarrow> emit_rep ost 48 (unat (precision - i));
        ost \<leftarrow> emit_list ost (rev tmp);
        emit_rep ost 32 (unat fsize)
      })"

section \<open>Digits\<close>

text \<open>The digits of a number, last one first, and the number that digits stand for, first one first.\<close>

fun nat_digits :: "nat \<Rightarrow> nat \<Rightarrow> nat list" where
  "nat_digits b n = (if n = 0 \<or> b < 2 then [] else n mod b # nat_digits b (n div b))"

declare nat_digits.simps [simp del]

definition dval :: "nat \<Rightarrow> nat \<Rightarrow> nat list \<Rightarrow> nat" where
  "dval b r ds = foldl (\<lambda>r d. r * b + d) r ds"

lemma dval_simps [simp]: "dval b r [] = r" "dval b r (d # ds) = dval b (r * b + d) ds"
  "dval b r (ds @ es) = dval b (dval b r ds) es"
  by (simp_all add: dval_def)

lemma dval_nat_digits: "2 \<le> b \<Longrightarrow> dval b 0 (rev (nat_digits b n)) = n"
  by (induction b n rule: nat_digits.induct) (subst nat_digits.simps, simp)

lemma nat_digits_less: "2 \<le> b \<Longrightarrow> d \<in> set (nat_digits b n) \<Longrightarrow> d < b"
  by (induction b n rule: nat_digits.induct) (subst (asm) nat_digits.simps, auto split: if_splits)

lemma length_nat_digits: "n < b ^ k \<Longrightarrow> length (nat_digits b n) \<le> k"
proof (induction b n arbitrary: k rule: nat_digits.induct)
  case (1 b n)
  show ?case
  proof (cases "n = 0 \<or> b < 2")
    case False
    with 1(2) obtain j where "k = Suc j"
      by (cases k) auto
    with 1 False show ?thesis
      by (subst nat_digits.simps) (simp add: less_mult_imp_div_less mult.commute)
  qed (simp add: nat_digits.simps)
qed

lemma nat_digits_last: "2 \<le> b \<Longrightarrow> n \<noteq> 0 \<Longrightarrow> nat_digits b n \<noteq> [] \<and> last (nat_digits b n) \<noteq> 0"
proof (induction b n rule: nat_digits.induct)
  case (1 b n)
  show ?case
  proof (cases "n < b")
    case True
    with 1 show ?thesis
      by (simp add: nat_digits.simps [of b n] nat_digits.simps [of b 0])
  next
    case False
    with 1 have "n div b \<noteq> 0"
      by (simp add: div_eq_0_iff)
    with 1 show ?thesis
      by (simp add: nat_digits.simps [of b n])
  qed
qed

lemma tmp_digits_eq:
  "2 \<le> unat base \<Longrightarrow> length tmp + length (nat_digits (unat base) (unat num)) \<le> 36 \<Longrightarrow>
   tmp_digits small base num tmp = Some (tmp @ map (digit_char small) (nat_digits (unat base) (unat num)))"
proof (induction small base num tmp rule: tmp_digits.induct)
  case (1 small base num tmp)
  show ?case
  proof (cases "num = 0")
    case True
    then show ?thesis
      by (simp add: tmp_digits.simps nat_digits.simps)
  next
    case False
    then have "unat num \<noteq> 0"
      by (simp add: unat_eq_0)
    then have "nat_digits (unat base) (unat num) = unat num mod unat base # nat_digits (unat base) (unat (num div base))"
      using 1(2) by (subst nat_digits.simps) (simp add: unat_div)
    then show ?thesis
      using 1 False by (subst tmp_digits.simps) (simp add: unat_mod)
  qed
qed

lemma emit_list_put: "mapped m a (length cs) \<Longrightarrow> emit_list (m, a) cs = Some (put m a cs, a + of_nat (length cs))"
proof (induction cs arbitrary: m a)
  case (Cons c cs)
  then have "m a \<noteq> None" "mapped (m(a \<mapsto> c)) (a + 1) (length cs)"
    by (auto simp: mapped_Suc intro: mapped_mono)
  moreover from Cons.IH [OF this(2)]
  have "emit_list (m(a \<mapsto> c), a + 1) cs = Some (put (m(a \<mapsto> c)) (a + 1) cs, a + 1 + of_nat (length cs))" .
  ultimately show ?case
    by (simp add: emit_def add.assoc)
qed simp

lemma emit_rep_list: "emit_rep ost c n = emit_list ost (replicate n c)"
  by (induction n arbitrary: ost) simp_all

lemma digit_char_range:
  assumes "d < 36"
  shows "raw_digit (digit_char small d) \<le> 74" "cvtIn ! unat (raw_digit (digit_char small d)) = of_nat d"
    "d < 10 \<Longrightarrow> raw_digit (digit_char small d) = of_nat d" "\<not> isspace (digit_char small d)"
    "digit_char small d = 48 \<longleftrightarrow> d = 0" "d < 16 \<Longrightarrow> digit_char small d \<noteq> 120"
proof -
  have "list_all (\<lambda>d. list_all (\<lambda>small. raw_digit (digit_char small d) \<le> 74 \<and>
      cvtIn ! unat (raw_digit (digit_char small d)) = of_nat d \<and>
      (d < 10 \<longrightarrow> raw_digit (digit_char small d) = of_nat d) \<and> \<not> isspace (digit_char small d) \<and>
      (digit_char small d = 48 \<longleftrightarrow> d = 0) \<and> (d < 16 \<longrightarrow> digit_char small d \<noteq> 120)) [False, True]) [0..<36]"
    by code_simp
  then show "raw_digit (digit_char small d) \<le> 74" "cvtIn ! unat (raw_digit (digit_char small d)) = of_nat d"
    "d < 10 \<Longrightarrow> raw_digit (digit_char small d) = of_nat d" "\<not> isspace (digit_char small d)"
    "digit_char small d = 48 \<longleftrightarrow> d = 0" "d < 16 \<Longrightarrow> digit_char small d \<noteq> 120"
    using assms by (cases small; auto simp: list_all_iff)+
qed

section \<open>The digit loops\<close>

text \<open>Each of the four loops takes the digits of its base one by one and stops at the terminator.\<close>

locale digit_parser =
  fixes scan :: "bmem \<Rightarrow> u32 \<Rightarrow> u32 \<Rightarrow> bool \<Rightarrow> (u32 \<times> u32 \<times> bool) option"
    and radix :: nat
  assumes digit: "d < radix \<Longrightarrow> m p = Some (digit_char small d) \<Longrightarrow>
      scan m p r any = scan m (p + 1) (r * of_nat radix + of_nat d) True"
    and stop: "m p = Some 0 \<Longrightarrow> scan m p r any = Some (r, p, any)"
begin

lemma scan_digits:
  "bytes m p (map (digit_char small) ds @ [0]) \<Longrightarrow> \<forall>d\<in>set ds. d < radix \<Longrightarrow>
   scan m p (of_nat r) any = Some (of_nat (dval radix r ds), p + of_nat (length ds), any \<or> ds \<noteq> [])"
proof (induction ds arbitrary: p r any)
  case (Cons d ds)
  then have "scan m p (of_nat r) any = scan m (p + 1) (of_nat (r * radix + d)) True"
    by (simp add: digit)
  also have "\<dots> = Some (of_nat (dval radix (r * radix + d) ds), p + 1 + of_nat (length ds), True)"
    using Cons.IH [of "p + 1" "r * radix + d" True] Cons.prems by simp
  finally show ?case
    by (simp add: add.assoc)
qed (simp add: stop)

end

lemma raw_digit_zero [simp]: "raw_digit 0 = 0xFFFFFFD0"
  by (simp add: raw_digit_def)

lemma of_nat_digit_less: "d < n \<Longrightarrow> n \<le> 36 \<Longrightarrow> (of_nat d :: u32) < of_nat n"
  by (simp add: word_of_nat_less_iff take_bit_nat_eq_self)

lemma not_less_of_nat_digit: "d < 36 \<Longrightarrow> d \<le> n \<Longrightarrow> n < 36 \<Longrightarrow> \<not> (of_nat n :: u32) < of_nat d"
  by (simp add: word_of_nat_less_iff take_bit_nat_eq_self)

interpretation oct: digit_parser oct_loop 8
proof (unfold_locales, goal_cases)
  case (1 d m p small r any)
  then show ?case
    using digit_char_range(3) [of d small] not_less_of_nat_digit [of d 7]
    by (subst oct_loop.simps) (simp add: Let_def push_bit_eq_mult)
qed (simp add: oct_loop.simps)

interpretation decimal: digit_parser dec_loop 10
proof (unfold_locales, goal_cases)
  case (1 d m p small r any)
  then show ?case
    using digit_char_range(3) [of d small] not_less_of_nat_digit [of d 9]
    by (subst dec_loop.simps) (simp add: Let_def mult.commute)
qed (simp add: dec_loop.simps)

interpretation hex: digit_parser hex_loop 16
proof (unfold_locales, goal_cases)
  case (1 d m p small r any)
  then show ?case
    using digit_char_range(1) [of d small, THEN leD] digit_char_range(2) [of d small] not_less_of_nat_digit [of d 15]
    by (subst hex_loop.simps) (simp add: Let_def push_bit_eq_mult)
qed (simp add: hex_loop.simps)

lemma gen_loop_parser:
  assumes "unat base \<le> 36"
  shows "digit_parser (\<lambda>m. gen_loop m base) (unat base)"
proof (unfold_locales, goal_cases)
  case (1 d m p small r any)
  then show ?case
    using digit_char_range(1) [of d small, THEN leD] digit_char_range(2) [of d small]
      of_nat_digit_less [of d "unat base", THEN not_le [THEN iffD2]] assms
    by (subst gen_loop.simps) (simp add: Let_def)
qed (simp add: gen_loop.simps)

section \<open>Parsing a printed number\<close>

lemma strtoul_digits:
  assumes "bytes m p (map (digit_char small) ds @ [0])" "ds \<noteq> []" "hd ds \<noteq> 0 \<or> ds = [0]"
    and "\<forall>d\<in>set ds. d < unat base" "2 \<le> unat base" "unat base \<le> 36"
  shows "strtoul m p base = Some (of_nat (dval (unat base) 0 ds), p + of_nat (length ds))"
proof -
  obtain d es where ds: "ds = d # es"
    using assms(2) by (cases ds) auto
  with assms have d: "d < 36" "m p = Some (digit_char small d)"
    by auto
  then have skip: "skip_space m p = Some p"
    by (simp add: skip_space.simps digit_char_range)
  have "base \<noteq> 0"
    using assms(5) by auto
  have base: "strtoul_base m p base = Some (p, base, False)"
    using assms(1,3) d \<open>base \<noteq> 0\<close> by (auto simp: strtoul_base_def digit_char_range ds)
  have "oct_loop m p 0 False = Some (of_nat (dval 8 0 ds), p + of_nat (length ds), True)" if "base = 8"
    using oct.scan_digits [of m p small ds 0 False] assms that by simp
  moreover have "dec_loop m p 0 False = Some (of_nat (dval 10 0 ds), p + of_nat (length ds), True)" if "base = 10"
    using decimal.scan_digits [of m p small ds 0 False] assms that by simp
  moreover have "hex_loop m p 0 False = Some (of_nat (dval 16 0 ds), p + of_nat (length ds), True)" if "base = 16"
    using hex.scan_digits [of m p small ds 0 False] assms that by simp
  moreover have "gen_loop m base p 0 False = Some (of_nat (dval (unat base) 0 ds), p + of_nat (length ds), True)"
    using digit_parser.scan_digits [OF gen_loop_parser, of base m p small ds 0 False] assms by simp
  ultimately show ?thesis
    by (simp add: strtoul_def skip base)
qed

text \<open>The digits that \<open>number\<close> prints without a flag other than the case, a width or a precision.\<close>

definition printed_digits :: "nat \<Rightarrow> nat \<Rightarrow> nat list" where
  "printed_digits b n = (if n = 0 then [0] else rev (nat_digits b n))"

lemma printed_digits:
  assumes "2 \<le> b"
  shows "printed_digits b n \<noteq> []" "hd (printed_digits b n) \<noteq> 0 \<or> printed_digits b n = [0]"
    "\<forall>d\<in>set (printed_digits b n). d < b" "dval b 0 (printed_digits b n) = n"
  using assms nat_digits_last [of b n] dval_nat_digits [of b n] nat_digits_less [of b _ n]
  by (auto simp: printed_digits_def hd_rev)

lemma length_printed_digits: "n < b ^ k \<Longrightarrow> 0 < k \<Longrightarrow> length (printed_digits b n) \<le> k"
  by (simp add: printed_digits_def length_nat_digits)

lemma number_plain:
  assumes "2 \<le> base" "base \<le> 36" "type = 0 \<or> type = SMALL"
    and "length (printed_digits (unat base) (unat num)) \<le> 36"
    and "mapped m a (length (printed_digits (unat base) (unat num)))"
  shows "number (m, a) num base (NOT 0) (NOT 0) type =
    Some (put m a (map (digit_char (type = SMALL)) (printed_digits (unat base) (unat num))),
      a + of_nat (length (printed_digits (unat base) (unat num))))"
proof -
  define ds where "ds = printed_digits (unat base) (unat num)"
  have "unat (ucast base :: u64) = unat base" "2 \<le> unat base"
    using assms(1) unsigned_less [of base, where ?'a = nat]
    by (simp_all add: unsigned_ucast_eq take_bit_nat_eq_self word_le_nat_alt)
  then have "num \<noteq> 0 \<Longrightarrow> tmp_digits small (ucast base) num [] = Some (rev (map (digit_char small) ds))" for small
    using assms(4) tmp_digits_eq [of "ucast base" "[]" num small]
    by (simp add: ds_def printed_digits_def unat_eq_0 rev_map)
  moreover have "num = 0 \<Longrightarrow> map (digit_char small) ds = [48]" for small
    by (simp add: ds_def printed_digits_def digit_char_def)
  moreover have "emit_list (m, a) (map (digit_char (type = SMALL)) ds) =
      Some (put m a (map (digit_char (type = SMALL)) ds), a + of_nat (length ds))"
    using emit_list_put [of m a "map (digit_char (type = SMALL)) ds"] assms(5) by (simp add: ds_def)
  moreover have "(if 0 < i then i else 0) = i" for i :: u32
    by (simp add: word_gt_0)
  moreover have "\<not> (base < 2 \<or> 36 < base)"
    using assms(1,2) by auto
  ultimately show ?thesis
    using assms(3) unfolding ds_def [symmetric] number_def
    by (elim disjE; cases "num = 0") (simp_all add: number_sign_def number_size_def Let_def
      ZEROPAD_def SIGN_def PLUS_def SPACE_def LEFT_def SPECIAL_def SMALL_def cong: if_weak_cong)
qed

lemma mapped_le: "mapped m a n \<Longrightarrow> k \<le> n \<Longrightarrow> mapped m a k"
  by (simp add: mapped_def)

text \<open>
  C20. What \<open>number\<close> prints, terminated, \<open>strtoul\<close> reads back: for every base from 2 to 36, either case of
  the letters and every 32-bit number, the parser returns the number and stops at the terminator.
\<close>
theorem number_strtoul_roundtrip:
  assumes "2 \<le> base" "base \<le> 36" "type = 0 \<or> type = SMALL" "unat num < 2 ^ 32" "mapped m a 33"
  shows "\<exists>m1 e m2. number (m, a) num base (NOT 0) (NOT 0) type = Some (m1, e) \<and> wrb m1 e 0 = Some m2 \<and>
    strtoul m2 a (ucast base) = Some (ucast num, e)"
proof -
  define ds where "ds = printed_digits (unat base) (unat num)"
  define cs where "cs = map (digit_char (type = SMALL)) ds"
  have b: "2 \<le> unat base" "unat base \<le> 36" "unat (ucast base :: u32) = unat base"
    using assms(1,2) unsigned_less [of base, where ?'a = nat]
    by (simp_all add: unsigned_ucast_eq take_bit_nat_eq_self word_le_nat_alt)
  have "unat num < unat base ^ 32"
    using assms(4) power_mono [OF b(1), of 32] by simp
  then have len: "length ds \<le> 32"
    by (simp add: ds_def length_printed_digits)
  then have "number (m, a) num base (NOT 0) (NOT 0) type = Some (put m a cs, a + of_nat (length ds))"
    using number_plain [of base type num m a] assms(1-3) mapped_le [OF assms(5), of "length ds"]
    by (simp add: ds_def cs_def)
  moreover have "wrb (put m a cs) (a + of_nat (length ds)) 0 = Some (put m a (cs @ [0]))"
    using mapped_put [OF assms(5), of a cs] len by (auto simp: put_append wrb_def cs_def mapped_def)
  moreover have "strtoul (put m a (cs @ [0])) a (ucast base) =
      Some (of_nat (dval (unat base) 0 ds), a + of_nat (length ds))"
    using strtoul_digits [of "put m a (cs @ [0])" a "type = SMALL" ds "ucast base"] bytes_put [of "cs @ [0]" m a]
      printed_digits(1-3) [OF b(1), of "unat num"] b len
    by (simp add: cs_def ds_def)
  moreover have "dval (unat base) 0 ds = unat num"
    using printed_digits(4) [OF b(1)] by (simp add: ds_def)
  ultimately show ?thesis
    by simp
qed

text \<open>The decimal digits of 1205, and hexadecimal in small letters.\<close>
theorem number_strtoul_roundtrip_witness:
  "\<exists>m1 e m2. number (\<lambda>a. Some 0, 0x1000) 0xBEEF 16 (NOT 0) (NOT 0) SMALL = Some (m1, e) \<and>
     wrb m1 e 0 = Some m2 \<and> strtoul m2 0x1000 16 = Some (0xBEEF, e)"
  using number_strtoul_roundtrip [of 16 SMALL "0xBEEF" "\<lambda>a. Some 0" "0x1000"] by (simp add: mapped_def)

text \<open>
  The 36 characters of \<open>tmp\<close> hold the digits of every 64-bit number in a base of 4 or more, the bases 8,
  10 and 16 of \<open>vsprintf\<close> among them; in base 2, which \<open>number\<close> accepts, and in base 3 they do not.
\<close>
theorem tmp_digits_fit:
  "(\<forall>base num small. 4 \<le> unat (base :: u64) \<longrightarrow> (\<exists>tmp. tmp_digits small base num [] = Some tmp \<and> length tmp \<le> 32)) \<and>
   tmp_digits small 2 (2 ^ 36) [] = None \<and> tmp_digits small 3 (NOT 0) [] = None"
proof (intro conjI allI impI)
  fix base num :: u64 and small
  assume b: "4 \<le> unat base"
  have "unat num < 4 ^ 32"
    using unsigned_less [of num, where ?'a = nat] by simp
  also have "\<dots> \<le> unat base ^ 32"
    using b by (rule power_mono) simp
  finally have "length (nat_digits (unat base) (unat num)) \<le> 32"
    by (rule length_nat_digits)
  with b show "\<exists>tmp. tmp_digits small base num [] = Some tmp \<and> length tmp \<le> 32"
    by (simp add: tmp_digits_eq)
qed (simp_all add: tmp_digits.simps)

theorem tmp_digits_fit_witness: "4 \<le> unat (10 :: u64) \<and> (\<exists>tmp. tmp_digits False 10 (NOT 0) [] = Some tmp \<and> length tmp \<le> 32)"
  using tmp_digits_fit [of False] by simp

end
