(* ===== verification/Forge_Printf.thy ===== *)
theory Forge_Printf
  imports Forge_Strtoul
begin

text \<open>
  The kernel's formatted printing, \<open>src/src/kernel/vsprintf.c\<close> and \<open>src/src/kernel/sprintf.c\<close>. The format,
  the strings it prints and the output live in the same byte-addressed memory, so a format that the output
  overwrites is read as overwritten. The variable arguments are the 32-bit slots of the stack, first one
  first; a 64-bit argument takes two of them, low half first, and reading past the last slot is not defined.
\<close>

section \<open>Model of vsprintf.c\<close>

type_synonym va_list = "u32 list"

fun va_arg32 :: "va_list \<Rightarrow> (u32 \<times> va_list) option" where
  "va_arg32 [] = None"
| "va_arg32 (a # args) = Some (a, args)"

fun va_arg64 :: "va_list \<Rightarrow> (u64 \<times> va_list) option" where
  "va_arg64 (lo # hi # args) = Some (push_bit 32 (ucast hi) OR ucast lo, args)"
| "va_arg64 _ = None"

definition is_digit :: "u8 \<Rightarrow> bool" where
  "is_digit c \<longleftrightarrow> 48 \<le> c \<and> c \<le> 57"

partial_function (option) skip_atoi :: "bmem \<Rightarrow> u32 \<Rightarrow> u32 \<Rightarrow> (u32 \<times> u32) option" where
  "skip_atoi m s i = do {
     c \<leftarrow> m s;
     if is_digit c then skip_atoi m (s + 1) (i * 10 + (ucast c - 48)) else Some (i, s)
   }"

partial_function (option) flags_loop :: "bmem \<Rightarrow> u32 \<Rightarrow> u32 \<Rightarrow> (u32 \<times> u32) option" where
  "flags_loop m fmt flags = do {
     let fmt = fmt + 1;
     c \<leftarrow> m fmt;
     if c = 45 then flags_loop m fmt (flags OR LEFT)
     else if c = 43 then flags_loop m fmt (flags OR PLUS)
     else if c = 32 then flags_loop m fmt (flags OR SPACE)
     else if c = 35 then flags_loop m fmt (flags OR SPECIAL)
     else if c = 48 then flags_loop m fmt (flags OR ZEROPAD)
     else Some (flags, fmt)
   }"

text \<open>The field width: \<open>*\<close> takes it from the arguments but leaves \<open>fmt\<close> where it is.\<close>

definition get_width :: "bmem \<Rightarrow> u32 \<Rightarrow> u32 \<Rightarrow> va_list \<Rightarrow> (u32 \<times> u32 \<times> u32 \<times> va_list) option" where
  "get_width m fmt flags args = do {
     c \<leftarrow> m fmt;
     if is_digit c then do { (w, fmt) \<leftarrow> skip_atoi m fmt 0; Some (w, fmt, flags, args) }
     else if c = 42 then do {
       (w, args) \<leftarrow> va_arg32 args;
       if sint w < 0 then Some (- w, fmt, flags OR LEFT, args) else Some (w, fmt, flags, args)
     } else Some (NOT 0, fmt, flags, args)
   }"

definition get_precision :: "bmem \<Rightarrow> u32 \<Rightarrow> va_list \<Rightarrow> (u32 \<times> u32 \<times> va_list) option" where
  "get_precision m fmt args = do {
     c \<leftarrow> m fmt;
     if c = 46 then do {
       let fmt = fmt + 1;
       c \<leftarrow> m fmt;
       (p, fmt, args) \<leftarrow>
         (if is_digit c then do { (p, fmt) \<leftarrow> skip_atoi m fmt 0; Some (p, fmt, args) }
          else if c = 42 then do { (p, args) \<leftarrow> va_arg32 args; Some (p, fmt, args) }
          else Some (NOT 0, fmt, args));
       Some (if sint p < 0 then 0 else p, fmt, args)
     } else Some (NOT 0, fmt, args)
   }"

definition get_qualifier :: "bmem \<Rightarrow> u32 \<Rightarrow> u8 \<Rightarrow> (u8 \<times> u8 \<times> u32) option" where
  "get_qualifier m fmt qualifier2 = do {
     c \<leftarrow> m fmt;
     let (qualifier, fmt) = (if c = 104 \<or> c = 108 \<or> c = 76 then (c, fmt + 1) else (- 1, fmt));
     c \<leftarrow> m fmt;
     if c = 108 \<and> qualifier = 108 then Some (qualifier, c, fmt + 1) else Some (qualifier, qualifier2, fmt)
   }"

text \<open>\<open>while (--field_width > 0) *str++ = ' '\<close>, which leaves 0 in \<open>field_width\<close>.\<close>

definition pad_char :: "out \<Rightarrow> u32 \<Rightarrow> out option" where
  "pad_char ost field_width = emit_rep ost 32 (unat (field_width - 1))"

text \<open>\<open>while (len < field_width--) *str++ = ' '\<close>; the decrement also happens when the test fails.\<close>

definition pad_string :: "out \<Rightarrow> u32 \<Rightarrow> u32 \<Rightarrow> (out \<times> u32) option" where
  "pad_string ost len field_width = do {
     ost \<leftarrow> emit_rep ost 32 (unat field_width - unat len);
     Some (ost, min len field_width - 1)
   }"

primrec emit_from :: "out \<Rightarrow> u32 \<Rightarrow> nat \<Rightarrow> out option" where
  "emit_from ost s 0 = Some ost"
| "emit_from ost s (Suc n) = do { c \<leftarrow> fst ost s; ost \<leftarrow> emit ost c; emit_from ost (s + 1) n }"

definition conv_c :: "out \<Rightarrow> va_list \<Rightarrow> u32 \<Rightarrow> u32 \<Rightarrow> (out \<times> va_list) option" where
  "conv_c ost args flags field_width = do {
     (ost, field_width) \<leftarrow>
       (if flags AND LEFT = 0 \<and> field_width \<noteq> NOT 0
        then do { ost \<leftarrow> pad_char ost field_width; Some (ost, 0) } else Some (ost, field_width));
     (a, args) \<leftarrow> va_arg32 args;
     ost \<leftarrow> emit ost (ucast a);
     ost \<leftarrow> (if field_width \<noteq> NOT 0 then pad_char ost field_width else Some ost);
     Some (ost, args)
   }"

definition conv_s :: "out \<Rightarrow> va_list \<Rightarrow> u32 \<Rightarrow> u32 \<Rightarrow> u32 \<Rightarrow> (out \<times> va_list) option" where
  "conv_s ost args flags field_width precision = do {
     (s, args) \<leftarrow> va_arg32 args;
     len \<leftarrow> strlen (fst ost) s;
     let len = (if precision = NOT 0 then len else if len > precision then precision else len);
     (ost, field_width) \<leftarrow>
       (if flags AND LEFT = 0 \<and> field_width \<noteq> NOT 0
        then pad_string ost len field_width else Some (ost, field_width));
     ost \<leftarrow> emit_from ost s (unat len);
     ost \<leftarrow> (if field_width \<noteq> 0 \<and> field_width \<noteq> NOT 0
            then do { (ost, _) \<leftarrow> pad_string ost len field_width; Some ost } else Some ost);
     Some (ost, args)
   }"

text \<open>The argument of an integer conversion: all three reads are of unsigned types.\<close>

definition num_arg :: "u8 \<Rightarrow> u8 \<Rightarrow> va_list \<Rightarrow> (u64 \<times> va_list) option" where
  "num_arg qualifier qualifier2 args =
     (if qualifier = 108 \<and> qualifier2 = 108 then va_arg64 args
      else if qualifier = 108 then do { (a, args) \<leftarrow> va_arg32 args; Some (ucast a, args) }
      else do { (a, args) \<leftarrow> va_arg32 args; Some (ucast a, args) })"

definition conv_num :: "out \<Rightarrow> va_list \<Rightarrow> u8 \<Rightarrow> u8 \<Rightarrow> u8 \<Rightarrow> u32 \<Rightarrow> u32 \<Rightarrow> u32 \<Rightarrow> (out \<times> va_list) option" where
  "conv_num ost args qualifier qualifier2 base field_width precision flags = do {
     (n, args) \<leftarrow> num_arg qualifier qualifier2 args;
     ost \<leftarrow> number ost n base field_width precision flags;
     Some (ost, args)
   }"

definition wr32 :: "bmem \<Rightarrow> u32 \<Rightarrow> u32 \<Rightarrow> bmem option" where
  "wr32 m a v = do {
     m \<leftarrow> wrb m a (ucast v);
     m \<leftarrow> wrb m (a + 1) (ucast (drop_bit 8 v));
     m \<leftarrow> wrb m (a + 2) (ucast (drop_bit 16 v));
     wrb m (a + 3) (ucast (drop_bit 24 v))
   }"

definition conv_p :: "out \<Rightarrow> va_list \<Rightarrow> u32 \<Rightarrow> u32 \<Rightarrow> u32 \<Rightarrow> (out \<times> va_list) option" where
  "conv_p ost args field_width precision flags = do {
     let (field_width, flags) = (if field_width = NOT 0 then (8, flags OR ZEROPAD) else (field_width, flags));
     (a, args) \<leftarrow> va_arg32 args;
     ost \<leftarrow> number ost (ucast a) 16 field_width precision flags;
     Some (ost, args)
   }"

definition conv_default :: "out \<Rightarrow> u8 \<Rightarrow> u32 \<Rightarrow> (out \<times> u32) option" where
  "conv_default ost c fmt = do {
     ost \<leftarrow> (if c \<noteq> 37 then emit ost 37 else Some ost);
     if c \<noteq> 0 then do { ost \<leftarrow> emit ost c; Some (ost, fmt) } else Some (ost, fmt - 1)
   }"

text \<open>The conversion itself; the result holds the output state, the remaining arguments and \<open>fmt\<close>.\<close>

definition convert ::
    "u32 \<Rightarrow> out \<Rightarrow> u32 \<Rightarrow> va_list \<Rightarrow> u32 \<Rightarrow> u32 \<Rightarrow> u32 \<Rightarrow> u8 \<Rightarrow> u8 \<Rightarrow> (out \<times> va_list \<times> u32) option" where
  "convert buf ost fmt args flags field_width precision qualifier qualifier2 = do {
     c \<leftarrow> fst ost fmt;
     if c = 99 then do {
       (ost, args) \<leftarrow> conv_c ost args flags field_width;
       Some (ost, args, fmt)
     } else if c = 115 then do {
       (ost, args) \<leftarrow> conv_s ost args flags field_width precision;
       Some (ost, args, fmt)
     } else if c = 111 then do {
       (ost, args) \<leftarrow> conv_num ost args qualifier qualifier2 8 field_width precision flags;
       Some (ost, args, fmt)
     } else if c = 112 then do {
       (ost, args) \<leftarrow> conv_p ost args field_width precision flags;
       Some (ost, args, fmt)
     } else if c = 120 \<or> c = 88 then do {
       let flags = (if c = 120 then flags OR SMALL else flags);
       (ost, args) \<leftarrow> conv_num ost args qualifier qualifier2 16 field_width precision flags;
       Some (ost, args, fmt)
     } else if c = 100 \<or> c = 105 \<or> c = 117 then do {
       let flags = (if c = 117 then flags else flags OR SIGN);
       (ost, args) \<leftarrow> conv_num ost args qualifier qualifier2 10 field_width precision flags;
       Some (ost, args, fmt)
     } else if c = 110 then do {
       (ip, args) \<leftarrow> va_arg32 args;
       m \<leftarrow> wr32 (fst ost) ip (snd ost - buf);
       Some ((m, snd ost), args, fmt)
     } else do {
       (ost, fmt) \<leftarrow> conv_default ost c fmt;
       Some (ost, args, fmt)
     }
   }"

text \<open>One directive, from its \<open>%\<close>.\<close>

definition directive ::
    "u32 \<Rightarrow> out \<Rightarrow> u32 \<Rightarrow> va_list \<Rightarrow> u8 \<Rightarrow> (out \<times> va_list \<times> u32 \<times> u8) option" where
  "directive buf ost fmt args qualifier2 = do {
     (flags, fmt) \<leftarrow> flags_loop (fst ost) fmt 0;
     (field_width, fmt, flags, args) \<leftarrow> get_width (fst ost) fmt flags args;
     (precision, fmt, args) \<leftarrow> get_precision (fst ost) fmt args;
     (qualifier, qualifier2, fmt) \<leftarrow> get_qualifier (fst ost) fmt qualifier2;
     (ost, args, fmt) \<leftarrow> convert buf ost fmt args flags field_width precision qualifier qualifier2;
     Some (ost, args, fmt, qualifier2)
   }"

partial_function (option) vsprintf_loop ::
    "u32 \<Rightarrow> out \<Rightarrow> u32 \<Rightarrow> va_list \<Rightarrow> u8 \<Rightarrow> out option" where
  "vsprintf_loop buf ost fmt args qualifier2 = do {
     c \<leftarrow> fst ost fmt;
     if c = 0 then Some ost
     else if c \<noteq> 37 then do {
       ost \<leftarrow> emit ost c;
       vsprintf_loop buf ost (fmt + 1) args qualifier2
     } else do {
       (ost, args, fmt, qualifier2) \<leftarrow> directive buf ost fmt args qualifier2;
       vsprintf_loop buf ost (fmt + 1) args qualifier2
     }
   }"

text \<open>\<open>qualifier2\<close> starts with whatever the stack held, the last argument.\<close>

definition vsprintf :: "bmem \<Rightarrow> u32 \<Rightarrow> u32 \<Rightarrow> va_list \<Rightarrow> u8 \<Rightarrow> (bmem \<times> u32) option" where
  "vsprintf m buf fmt args qualifier2 = do {
     (m, str) \<leftarrow> vsprintf_loop buf (m, buf) fmt args qualifier2;
     m \<leftarrow> wrb m str 0;
     Some (m, str - buf)
   }"

definition sprintf :: "bmem \<Rightarrow> u32 \<Rightarrow> u32 \<Rightarrow> va_list \<Rightarrow> u8 \<Rightarrow> (bmem \<times> u32) option" where
  "sprintf m s fmt args qualifier2 = vsprintf m s fmt args qualifier2"

section \<open>Formats made of simple pieces\<close>

text \<open>
  A format as a sequence of characters, \<open>%%\<close>, unsigned conversions (\<open>%u\<close>, \<open>%x\<close>, \<open>%X\<close>, \<open>%o\<close>) and
  \<open>%s\<close>, and the text that it stands for with given arguments. Strings lie outside the area \<open>A\<close> of the output.
\<close>

datatype piece = Lit u8 | Percent | Uint u8 | Str

fun piece_fmt :: "piece \<Rightarrow> u8 list" where
  "piece_fmt (Lit c) = [c]"
| "piece_fmt Percent = [37, 37]"
| "piece_fmt (Uint c) = [37, c]"
| "piece_fmt Str = [37, 115]"

definition conv_base :: "u8 \<Rightarrow> nat" where
  "conv_base c = (if c = 117 then 10 else if c = 111 then 8 else 16)"

definition uint_text :: "u8 \<Rightarrow> u32 \<Rightarrow> u8 list" where
  "uint_text c a = map (digit_char (c = 120)) (printed_digits (conv_base c) (unat a))"

inductive renders :: "bmem \<Rightarrow> u32 set \<Rightarrow> piece list \<Rightarrow> va_list \<Rightarrow> u8 list \<Rightarrow> bool" for m A where
  Nil: "renders m A [] args []"
| Lit: "c \<noteq> 0 \<Longrightarrow> c \<noteq> 37 \<Longrightarrow> renders m A ps args out \<Longrightarrow> renders m A (Lit c # ps) args (c # out)"
| Percent: "renders m A ps args out \<Longrightarrow> renders m A (Percent # ps) args (37 # out)"
| Uint: "c = 117 \<or> c = 120 \<or> c = 88 \<or> c = 111 \<Longrightarrow> renders m A ps args out \<Longrightarrow>
    renders m A (Uint c # ps) (a # args) (uint_text c a @ out)"
| Str: "cstr m a xs \<Longrightarrow> a \<noteq> NULL \<Longrightarrow> length xs < 2 ^ 31 \<Longrightarrow> area a (Suc (length xs)) \<inter> A = {} \<Longrightarrow>
    renders m A ps args out \<Longrightarrow> renders m A (Str # ps) (a # args) (xs @ out)"

lemma directive_plain:
  assumes "m (fmt + 1) = Some c" "c \<notin> {45, 43, 32, 35, 42, 46, 104, 108, 76}" "\<not> is_digit c"
  shows "directive buf (m, str) fmt args q = do {
    (ost, args, fmt) \<leftarrow> convert buf (m, str) (fmt + 1) args 0 (NOT 0) (NOT 0) (- 1) q;
    Some (ost, args, fmt, q) }"
proof -
  have "c \<noteq> 48"
    using assms(3) by (auto simp: is_digit_def)
  then have "flags_loop m fmt 0 = Some (0, fmt + 1)"
    using assms by (simp add: flags_loop.simps Let_def)
  then show ?thesis
    using assms by (simp add: directive_def get_width_def get_precision_def get_qualifier_def)
qed

lemma emit_from_put:
  "bytes m s xs \<Longrightarrow> area s (length xs) \<inter> area str (length xs) = {} \<Longrightarrow> mapped m str (length xs) \<Longrightarrow>
   emit_from (m, str) s (length xs) = Some (put m str xs, str + of_nat (length xs))"
proof (induction xs arbitrary: m s str)
  case (Cons x xs)
  from Cons.prems have m: "m s = Some x" "m str \<noteq> None"
    by (simp_all add: mapped_Suc)
  have "emit_from (m(str \<mapsto> x), str + 1) (s + 1) (length xs) =
      Some (put (m(str \<mapsto> x)) (str + 1) xs, str + 1 + of_nat (length xs))"
  proof (rule Cons.IH)
    show "bytes (m(str \<mapsto> x)) (s + 1) xs"
      using Cons.prems by (subst bytes_upd) (auto simp: area_Suc)
    show "area (s + 1) (length xs) \<inter> area (str + 1) (length xs) = {}"
      using Cons.prems(2) by (auto simp: area_Suc)
    show "mapped (m(str \<mapsto> x)) (str + 1) (length xs)"
      using Cons.prems(3) by (simp add: mapped_Suc mapped_mono)
  qed
  with m show ?case
    by (simp add: emit_def add.assoc)
qed simp

lemma area_append: "area a (n + k) = area a n \<union> area (a + of_nat n) k"
  by (induction n arbitrary: a) (auto simp: area_Suc add.assoc)

lemma mapped_append: "mapped m a (n + k) \<longleftrightarrow> mapped m a n \<and> mapped m (a + of_nat n) k"
  by (induction n arbitrary: a) (auto simp: mapped_Suc mapped_def [of _ _ 0] add.assoc)

lemma mapped_upd: "mapped m b n \<Longrightarrow> mapped (\<lambda>x. if x = a then Some c else m x) b n"
  by (simp add: mapped_def)

lemma mapped_upt: "mapped m a n \<longleftrightarrow> list_all (\<lambda>i. m (a + of_nat i) \<noteq> None) [0..<n]"
  by (auto simp: mapped_def list_all_iff)

lemma put_outside:
  assumes "\<And>b. b \<notin> A \<Longrightarrow> m' b = m b" "area str (length (xs @ out)) \<subseteq> A" "b \<notin> A"
  shows "put m' str xs b = m b"
  using assms by (subst put_other) (auto simp: area_append)

lemma length_uint_text: "length (uint_text c a) \<le> 32"
proof -
  have "unat a < 2 ^ 32"
    using unsigned_less [of a, where ?'a = nat] by simp
  also have "\<dots> \<le> conv_base c ^ 32"
    by (rule power_mono) (simp_all add: conv_base_def)
  finally show ?thesis
    by (simp add: uint_text_def length_printed_digits)
qed

lemma conv_uint:
  assumes "c = 117 \<or> c = 120 \<or> c = 88 \<or> c = 111" "mapped m str (length (uint_text c a))" "m fmt = Some c"
  shows "convert buf (m, str) fmt (a # args) 0 (NOT 0) (NOT 0) (- 1) q =
    Some ((put m str (uint_text c a), str + of_nat (length (uint_text c a))), args, fmt)"
proof -
  have u: "unat (ucast a :: u64) = unat a"
    using unsigned_less [of a, where ?'a = nat] by (simp add: unsigned_ucast_eq take_bit_nat_eq_self)
  have "number (m, str) (ucast a) base (NOT 0) (NOT 0) type =
      Some (put m str (uint_text c a), str + of_nat (length (uint_text c a)))"
    if "unat base = conv_base c" "type = (if c = 120 then SMALL else 0)" "2 \<le> base" "base \<le> 36" for base type
    using number_plain [of base type "ucast a" m str] assms(2) length_uint_text [of c a] that
    by (simp add: u uint_text_def SMALL_def split: if_splits)
  from this [of 8 0] this [of 10 0] this [of 16 0] this [of 16 SMALL] show ?thesis
    using assms(1,3) by (auto simp: convert_def conv_num_def num_arg_def conv_base_def)
qed

lemma conv_str:
  assumes "cstr m s xs" "s \<noteq> NULL" "length xs < 2 ^ 31" "area s (Suc (length xs)) \<inter> area str (length xs) = {}"
    and "mapped m str (length xs)" "m fmt = Some 115"
  shows "convert buf (m, str) fmt (s # args) 0 (NOT 0) (NOT 0) (- 1) q =
    Some ((put m str xs, str + of_nat (length xs)), args, fmt)"
proof -
  have "unat (of_nat (length xs) :: u32) = length xs"
    using assms(3) unfolding unat_of_nat by simp
  moreover have "area s (length xs) \<inter> area str (length xs) = {}"
    using assms(4) area_append [of s "length xs" 1] by auto
  moreover have "bytes m s xs"
    using assms(1) by (simp add: cstr_def bytes_append)
  ultimately show ?thesis
    using assms strlen_cstr [OF assms(1-3)] emit_from_put [of m s xs str]
    by (simp add: convert_def conv_s_def Let_def)
qed

lemma vsprintf_loop_renders:
  assumes "renders m A ps args out"
  shows "bytes m fmt (concat (map piece_fmt ps) @ [0]) \<Longrightarrow>
    area fmt (Suc (length (concat (map piece_fmt ps)))) \<inter> A = {} \<Longrightarrow>
    (\<And>b. b \<notin> A \<Longrightarrow> m' b = m b) \<Longrightarrow> area str (length out) \<subseteq> A \<Longrightarrow> mapped m' str (length out) \<Longrightarrow>
    vsprintf_loop buf (m', str) fmt args q = Some (put m' str out, str + of_nat (length out))"
  using assms
proof (induction arbitrary: fmt m' str)
  case (Nil args)
  then show ?case
    by (subst vsprintf_loop.simps) (auto simp: area_Suc)
next
  case (Lit c ps args out)
  then have m': "m' fmt = Some c" "m' str \<noteq> None"
    by (auto simp: area_Suc mapped_Suc)
  have "vsprintf_loop buf (m'(str \<mapsto> c), str + 1) (fmt + 1) args q =
      Some (put (m'(str \<mapsto> c)) (str + 1) out, str + 1 + of_nat (length out))"
    using Lit.prems by (intro Lit.IH) (auto simp: area_Suc mapped_Suc mapped_upd)
  then show ?case
    using m' Lit.hyps by (subst vsprintf_loop.simps) (simp add: emit_def add.assoc)
next
  case (Percent ps args out)
  then have m': "m' fmt = Some 37" "m' (fmt + 1) = Some 37" "m' str \<noteq> None"
    by (auto simp: area_Suc mapped_Suc)
  have "vsprintf_loop buf (m'(str \<mapsto> 37), str + 1) (fmt + 1 + 1) args q =
      Some (put (m'(str \<mapsto> 37)) (str + 1) out, str + 1 + of_nat (length out))"
    using Percent.prems by (intro Percent.IH) (auto simp: area_Suc mapped_Suc mapped_upd)
  moreover have "directive buf (m', str) fmt args q = Some ((m'(str \<mapsto> 37), str + 1), args, fmt + 1, q)"
    using m' directive_plain [of m' fmt 37]
    by (simp add: is_digit_def convert_def conv_default_def emit_def)
  ultimately show ?case
    using m' by (subst vsprintf_loop.simps) (simp add: add.assoc)
next
  case (Uint c ps args out a)
  define xs where "xs = uint_text c a"
  from Uint have m': "m' fmt = Some 37" "m' (fmt + 1) = Some c"
    by (auto simp: area_Suc)
  have IH: "vsprintf_loop buf (put m' str xs, str + of_nat (length xs)) (fmt + 1 + 1) args q =
      Some (put (put m' str xs) (str + of_nat (length xs)) out, str + of_nat (length xs) + of_nat (length out))"
    using Uint.prems put_outside [OF Uint.prems(3,4) [folded xs_def]]
    by (intro Uint.IH) (auto simp: area_Suc area_append mapped_append mapped_put xs_def [symmetric])
  have "mapped m' str (length xs)"
    using Uint.prems(5) by (simp add: mapped_append xs_def)
  then have "directive buf (m', str) fmt (a # args) q = Some ((put m' str xs, str + of_nat (length xs)), args, fmt + 1, q)"
    using m' Uint.hyps(1) directive_plain [of m' fmt c buf str "a # args" q] conv_uint [of c m' str a "fmt + 1" buf args q]
    by (auto simp: is_digit_def xs_def)
  with IH show ?case
    using m' by (subst vsprintf_loop.simps) (simp add: put_append add.assoc xs_def [symmetric])
next
  case (Str a xs ps args out)
  then have m': "m' fmt = Some 37" "m' (fmt + 1) = Some 115"
    by (auto simp: area_Suc)
  have IH: "vsprintf_loop buf (put m' str xs, str + of_nat (length xs)) (fmt + 1 + 1) args q =
      Some (put (put m' str xs) (str + of_nat (length xs)) out, str + of_nat (length xs) + of_nat (length out))"
    using Str.prems put_outside [OF Str.prems(3,4)]
    by (intro Str.IH) (auto simp: area_Suc area_append mapped_append mapped_put)
  have "cstr m' a xs"
    using Str.hyps(1,4) Str.prems(3) bytes_cong [of a "xs @ [0]" m' m] by (auto simp: cstr_def)
  moreover have "area a (Suc (length xs)) \<inter> area str (length xs) = {}" "mapped m' str (length xs)"
    using Str.hyps(4) Str.prems(4,5) by (auto simp: area_append mapped_append)
  ultimately have "directive buf (m', str) fmt (a # args) q =
      Some ((put m' str xs, str + of_nat (length xs)), args, fmt + 1, q)"
    using m' Str.hyps(2,3) directive_plain [of m' fmt 115 buf str "a # args" q]
      conv_str [of m' a xs str "fmt + 1" buf args q]
    by (simp add: is_digit_def)
  with IH show ?case
    using m' by (subst vsprintf_loop.simps) (simp add: put_append add.assoc)
qed

section \<open>Properties\<close>

text \<open>
  C24. For every format made of characters, \<open>%%\<close>, \<open>%u\<close>, \<open>%x\<close>, \<open>%X\<close>, \<open>%o\<close> and \<open>%s\<close>, and arguments to match,
  \<open>vsprintf\<close> stores the text that the format stands for, ends it with a zero byte, changes nothing else and
  returns the length of the text, whatever the uninitialised \<open>qualifier2\<close> holds.
\<close>
theorem vsprintf_renders:
  assumes "renders m (area buf (Suc (length out))) ps args out"
    and "bytes m fmt (concat (map piece_fmt ps) @ [0])"
    and "area fmt (Suc (length (concat (map piece_fmt ps)))) \<inter> area buf (Suc (length out)) = {}"
    and "mapped m buf (Suc (length out))"
  shows "vsprintf m buf fmt args q = Some (put m buf (out @ [0]), of_nat (length out))"
proof -
  have "vsprintf_loop buf (m, buf) fmt args q = Some (put m buf out, buf + of_nat (length out))"
    using vsprintf_loop_renders [OF assms(1-3), of m buf] assms(4) area_append [of buf "length out" 1]
      mapped_append [of m buf "length out" 1] by auto
  moreover have "put m buf out (buf + of_nat (length out)) \<noteq> None"
    using mapped_put [OF assms(4), of buf out] by (simp add: mapped_def)
  ultimately show ?thesis
    by (simp add: vsprintf_def put_append)
qed

text \<open>A memory that holds \<open>n=%u%%\<close> at 0x40.\<close>
definition example_format :: bmem where
  "example_format = put (\<lambda>a. if a < 0x80 then Some 0 else None) 0x40 [110, 61, 37, 117, 37, 37]"

theorem vsprintf_renders_witness:
  "vsprintf example_format 0x10 0x40 [42] 0 = Some (put example_format 0x10 [110, 61, 52, 50, 37, 0], 5)"
proof -
  have u: "uint_text 117 42 = [52, 50]"
    by (simp add: uint_text_def printed_digits_def conv_base_def nat_digits.simps digit_char_def)
  have "renders example_format (area 0x10 6) [Lit 110, Lit 61, Uint 117, Percent] [42] (110 # 61 # (uint_text 117 42 @ [37]))"
    by (intro renders.intros) auto
  then show ?thesis
    using vsprintf_renders [of example_format "0x10" "[110, 61, 52, 50, 37]" "[Lit 110, Lit 61, Uint 117, Percent]" "[42]" "0x40" 0]
    by (simp add: u example_format_def area_upt mapped_upt upt_rec)
qed

lemma number_sign_nonneg:
  assumes "0 \<le> sint num"
  shows "number ost num base w p SIGN = number ost num base w p 0"
  using assms by (simp add: number_def number_sign_def number_size_def Let_def
    ZEROPAD_def SIGN_def PLUS_def SPACE_def LEFT_def SPECIAL_def SMALL_def)

lemma sint_ucast_64: "0 \<le> sint (ucast (a :: u32) :: u64)"
  using bit_last_iff [of "ucast a :: u64"] bit_imp_le_length [of a 63] by (auto simp: bit_ucast_iff)

text \<open>
  \<open>%d\<close> without a length prints every argument as an unsigned number: \<open>va_arg\<close> reads it as
  \<open>unsigned int\<close>, so the sign that \<open>number\<close> looks for in the 64-bit value is never there.
\<close>
theorem vsprintf_d_unsigned:
  assumes "bytes m fmt [37, 100, 0]" "area fmt 3 \<inter> area buf (Suc (length (uint_text 117 a))) = {}"
    and "mapped m buf (Suc (length (uint_text 117 a)))"
  shows "vsprintf m buf fmt [a] q = Some (put m buf (uint_text 117 a @ [0]), of_nat (length (uint_text 117 a)))"
proof -
  define xs where "xs = uint_text 117 a"
  have m: "m fmt = Some 37" "m (fmt + 1) = Some 100" "m (fmt + 2) = Some 0"
    using assms(1) by (simp_all add: add.commute)
  have "mapped m buf (length xs)"
    using assms(3) mapped_le by (simp add: xs_def)
  then have "number (m, buf) (ucast a) 10 (NOT 0) (NOT 0) 0 = Some (put m buf xs, buf + of_nat (length xs))"
    using conv_uint [of 117 "m(fmt + 1 \<mapsto> 117)" buf a "fmt + 1" buf "[]" q]
      number_plain [of 10 0 "ucast a" m buf] length_uint_text [of 117 a]
      unsigned_less [of a, where ?'a = nat]
    by (simp add: xs_def uint_text_def conv_base_def SMALL_def unsigned_ucast_eq take_bit_nat_eq_self)
  then have "directive buf (m, buf) fmt [a] q = Some ((put m buf xs, buf + of_nat (length xs)), [], fmt + 1, q)"
    using m directive_plain [of m fmt 100 buf buf "[a]" q]
    by (simp add: is_digit_def convert_def conv_num_def num_arg_def number_sign_nonneg sint_ucast_64)
  moreover have "put m buf xs (fmt + 2) = Some 0"
  proof (subst put_other)
    have "fmt + 2 \<in> area fmt 3"
      by (simp add: area_upt upt_rec)
    then show "fmt + 2 \<notin> area buf (length xs)"
      using assms(2) area_append [of buf "length xs" 1] by (auto simp: xs_def)
  qed (rule m)
  moreover have "put m buf xs (buf + of_nat (length xs)) \<noteq> None"
    using mapped_put [OF assms(3), of buf xs] by (simp add: mapped_def xs_def)
  ultimately show ?thesis
    using m unfolding xs_def [symmetric]
    by (simp add: vsprintf_def put_append vsprintf_loop.simps add.assoc)
qed

text \<open>The argument -1 prints as 4294967295.\<close>
theorem vsprintf_d_unsigned_witness:
  "vsprintf (put (\<lambda>a. Some 0) 0x40 [37, 100]) 0x10 0x40 [0xFFFFFFFF] 0 =
   Some (put (put (\<lambda>a. Some 0) 0x40 [37, 100]) 0x10 [52, 50, 57, 52, 57, 54, 55, 50, 57, 53, 0], 10)"
proof -
  have "uint_text 117 0xFFFFFFFF = [52, 50, 57, 52, 57, 54, 55, 50, 57, 53]"
    by (simp add: uint_text_def printed_digits_def conv_base_def nat_digits.simps digit_char_def)
  then show ?thesis
    using vsprintf_d_unsigned [of "put (\<lambda>a. Some 0) 0x40 [37, 100]" "0x40" "0x10" "0xFFFFFFFF" 0]
    by (simp add: area_upt mapped_upt upt_rec)
qed

lemma emit_rep_None: "i < n \<Longrightarrow> m (a + of_nat i) = None \<Longrightarrow> emit_rep (m, a) c n = None"
proof (induction n arbitrary: i m a)
  case (Suc n)
  show ?case
  proof (cases "m a")
    case None
    then show ?thesis
      by (simp add: emit_def wrb_def)
  next
    case (Some x)
    with Suc.prems obtain j where j: "i = Suc j" "j < n"
      by (cases i) auto
    have "(m(a \<mapsto> c)) (a + 1 + of_nat j) = None"
      using Suc.prems(2) Some by (auto simp: j add.assoc)
    with j(2) have "emit_rep (m(a \<mapsto> c), a + 1) c n = None"
      by (rule Suc.IH)
    with Some show ?thesis
      by (simp add: emit_def)
  qed
qed simp

lemma emit_unmapped: "emit (m, a) c = Some (m', a') \<Longrightarrow> m' x = None \<longleftrightarrow> m x = None"
  by (auto simp: emit_def wrb_def split: if_splits)

lemma emit_rep_unmapped: "emit_rep (m, a) c n = Some (m', a') \<Longrightarrow> m' x = None \<longleftrightarrow> m x = None"
proof (induction n arbitrary: m a)
  case (Suc n)
  then obtain m1 a1 where "emit (m, a) c = Some (m1, a1)" "emit_rep (m1, a1) c n = Some (m', a')"
    by (auto split: bind_splits)
  with Suc.IH emit_unmapped show ?case
    by metis
qed simp

text \<open>The wrapped counter writes a space to every address but one.\<close>

lemma pad_char_wraps:
  assumes "x \<noteq> y" "m x = None" "m y = None"
  shows "pad_char (m, a) 0 = None"
proof -
  have *: "emit_rep (m, a) 32 (2 ^ 32 - 1) = None" if "m z = None" "z - a \<noteq> - 1" for z
  proof (rule emit_rep_None)
    have "unat (z - a) \<noteq> unat (- 1 :: u32)"
      using that(2) by (simp only: word_unat_eq_iff) simp
    then show "unat (z - a) < 2 ^ 32 - 1"
      using unsigned_less [of "z - a", where ?'a = nat] by (simp add: unsigned_minus_1_eq_mask mask_eq_exp_minus_1)
    show "m (a + of_nat (unat (z - a))) = None"
      using that(1) by simp
  qed
  have "x - a \<noteq> - 1 \<or> y - a \<noteq> - 1"
    using assms(1) by (metis diff_add_cancel)
  with * assms(2,3) show ?thesis
    by (auto simp: pad_char_def unsigned_minus_1_eq_mask mask_eq_exp_minus_1)
qed

lemma skip_atoi_stop: "m s = Some c \<Longrightarrow> \<not> is_digit c \<Longrightarrow> skip_atoi m s i = Some (i, s)"
  by (simp add: skip_atoi.simps)

lemma conv_c_overrun:
  assumes "x \<noteq> y" "m x = None" "m y = None" "flags AND LEFT = 0" "w \<noteq> NOT 0"
  shows "conv_c (m, str) args flags w = None"
proof -
  have "pad_char (m2, str2) 0 = None"
    if "pad_char (m, str) w = Some (m1, str1)" "emit (m1, str1) c = Some (m2, str2)" for m1 str1 m2 str2 c
    using that assms(1-3) emit_rep_unmapped [of m str 32 "unat (w - 1)" m1 str1] emit_unmapped [of m1 str1 c m2 str2]
    by (intro pad_char_wraps [of x y]) (simp_all add: pad_char_def [of _ w])
  then show ?thesis
    using assms(4,5) by (auto simp: conv_c_def split: bind_splits)
qed

text \<open>
  \<open>%c\<close> with a field width of one digit never returns: the second padding loop starts from the 0 that the
  first one leaves, wraps around and writes spaces through the address space until it meets an address that
  is not mapped.
\<close>
theorem vsprintf_c_width_faults:
  assumes "bytes m fmt [37, c, 99, 0]" "49 \<le> c" "c \<le> 57" "x \<noteq> y" "m x = None" "m y = None"
  shows "vsprintf m buf fmt args q = None"
proof -
  have c: "is_digit c" "c \<notin> {45, 43, 32, 35, 48}"
    using assms(2,3) order_trans [of 48 49 c] by (auto simp: is_digit_def)
  have m: "m fmt = Some 37" "m (fmt + 1) = Some c" "m (fmt + 1 + 1) = Some 99"
    using assms(1) by simp_all
  have "flags_loop m fmt 0 = Some (0, fmt + 1)"
    using m c by (simp add: flags_loop.simps Let_def)
  moreover have "skip_atoi m (fmt + 1) 0 = Some (ucast c - 48, fmt + 1 + 1)"
    using m c skip_atoi_stop [of m "fmt + 1 + 1" 99] by (subst skip_atoi.simps) (simp add: is_digit_def)
  moreover have "ucast c - 48 \<noteq> (NOT 0 :: u32)"
  proof
    assume "ucast c - 48 = (NOT 0 :: u32)"
    then have "ucast c = (47 :: u32)"
      by (simp add: diff_eq_eq)
    then have "unat (ucast c :: u32) = 47"
      by simp
    then have "unat c = 47"
      using unsigned_less [of c, where ?'a = nat] by (simp add: unsigned_ucast_eq take_bit_nat_eq_self)
    with assms(2) show False
      by (simp add: word_le_nat_alt)
  qed
  ultimately have "directive buf (m, buf) fmt args q = None"
    using m c(1) conv_c_overrun [OF assms(4-6), of 0 "ucast c - 48" buf args]
    by (simp add: directive_def get_width_def get_precision_def get_qualifier_def convert_def)
  with m show ?thesis
    by (simp add: vsprintf_def vsprintf_loop.simps)
qed

theorem vsprintf_c_width_faults_witness:
  "vsprintf (put (\<lambda>a. if a < 0x1000 then Some 0 else None) 0x40 [37, 53, 99]) 0x10 0x40 [65] 0 = None"
  using vsprintf_c_width_faults [of "put (\<lambda>a. if a < 0x1000 then Some 0 else None) 0x40 [37, 53, 99]" "0x40" 53
    "0x1000" "0x1001" "0x10" "[65]" 0] by simp

text \<open>A width or precision of \<open>*\<close> takes an argument, but \<open>fmt\<close> stays at the star, which is then printed.\<close>

lemma directive_star:
  assumes "m (fmt + 1) = Some 42" "0 \<le> sint w" "m str \<noteq> None" "m (str + 1) \<noteq> None"
  shows "directive buf (m, str) fmt (w # args) q = Some ((m(str \<mapsto> 37, str + 1 \<mapsto> 42), str + 2), args, fmt + 1, q)"
proof -
  have "flags_loop m fmt 0 = Some (0, fmt + 1)"
    using assms(1) by (simp add: flags_loop.simps Let_def)
  with assms show ?thesis
    by (simp add: directive_def get_width_def get_precision_def get_qualifier_def convert_def is_digit_def
      conv_default_def emit_def)
qed

end
