(* ===== verification/Forge_Context.thy ===== *)
theory Forge_Context
  imports Forge_Pool Forge_Vmem_Init
begin

text \<open>
  Thread contexts on x86: \<open>src/src/kernel/arch/x86/context.c\<close>, which builds, copies and destroys them, and
  \<open>src/src/kernel/arch/x86/sched.s\<close>, which saves the registers of a processor in one and loads them from it.
  Stacks are words of virtual memory, reached through the page tables; the addresses used are multiples of 4.
\<close>

section \<open>Words of virtual memory\<close>

definition slot :: "u32 \<Rightarrow> u32" where
  "slot a = drop_bit 2 (a AND 0xFFF)"

definition vload :: "vmm \<Rightarrow> u32 \<Rightarrow> u32 option" where
  "vload m a = (if a AND 3 = 0 then vread m a (slot a) else None)"

definition vstore :: "vmm \<Rightarrow> u32 \<Rightarrow> u32 \<Rightarrow> vmm option" where
  "vstore m a x = (if a AND 3 = 0 then vwrite m a (slot a) x else None)"

section \<open>Model of context.c\<close>

record x86_ctx =
  c_edi :: u32
  c_esi :: u32
  c_ebx :: u32
  c_ebp :: u32
  c_esp :: u32
  c_eip :: u32
  c_eflags :: u32
  stackbase :: u32
  stackispool :: u32

record ctxsys =
  ctxs :: "x86_ctx heap"
  stackpool :: ptr
  cx_pools :: pools

definition POOL_STACK_SZ :: u32 where "POOL_STACK_SZ = 0x4000"
definition POOL_STACK_COUNT :: u32 where "POOL_STACK_COUNT = 0x1000"
definition EFLAGS_INT_ENBALE :: u32 where "EFLAGS_INT_ENBALE = 0x200"

text \<open>\<open>p\<close> and \<open>bp\<close> are the addresses of the pool and of its bitmap.\<close>

definition init_context :: "ctxsys \<Rightarrow> ptr \<Rightarrow> ptr \<Rightarrow> ctxsys option" where
  "init_context cs p bp = do {
     (pl, sp) \<leftarrow> create_pool_at (cx_pools cs) POOL_STACK_SZ POOL_STACK_COUNT
                 ((STACK_TOP - STACK_SIZE) - (POOL_STACK_SZ * POOL_STACK_COUNT)) p bp;
     Some (cs\<lparr>cx_pools := pl, stackpool := sp\<rparr>)
   }"

definition zero_context :: x86_ctx where
  "zero_context = \<lparr>c_edi = 0, c_esi = 0, c_ebx = 0, c_ebp = 0, c_esp = 0, c_eip = 0, c_eflags = 0,
     stackbase = 0, stackispool = 0\<rparr>"

text \<open>The two words on a new stack; the result is the stack pointer, which points at the parameter.\<close>

definition init_stack :: "vmm \<Rightarrow> u32 \<Rightarrow> u32 \<Rightarrow> u32 \<Rightarrow> (vmm \<times> u32) option" where
  "init_stack m stack_top thread_return param = do {
     m \<leftarrow> vstore m stack_top thread_return;
     let stackp = stack_top - 4;
     m \<leftarrow> vstore m stackp param;
     Some (m, stackp)
   }"

text \<open>\<open>thread_return\<close> is the address of that function.\<close>

definition create_context :: "ctxsys \<Rightarrow> ptr \<Rightarrow> u32 \<Rightarrow> u32 \<Rightarrow> u32 \<Rightarrow> u32 \<Rightarrow> u32 \<Rightarrow> ctxsys option" where
  "create_context cs ctx start stack stacksz param thread_return =
     (if stackpool cs = NULL then None
      else do {
        h \<leftarrow> upd (ctxs cs) ctx (\<lambda>_. zero_context);
        let stacksz = (if stacksz = 0 then POOL_STACK_SZ else stacksz);
        (pl, stack_ptr, ispool) \<leftarrow>
          (if stack \<noteq> 0 then Some (cx_pools cs, stack, 0)
           else do { (pl, a) \<leftarrow> pool_alloc (cx_pools cs) (stackpool cs); Some (pl, a, 1) });
        h \<leftarrow> upd h ctx (\<lambda>c. c\<lparr>stackispool := ispool\<rparr>);
        if stack_ptr = 0 then None
        else do {
          h \<leftarrow> upd h ctx (\<lambda>c. c\<lparr>c_eip := start, stackbase := stack_ptr, c_eflags := EFLAGS_INT_ENBALE\<rparr>);
          let stack_top = stack_ptr + (stacksz - 4);
          h \<leftarrow> upd h ctx (\<lambda>c. c\<lparr>c_ebp := stack_top\<rparr>);
          (m, stackp) \<leftarrow> init_stack (pl_vm pl) stack_top thread_return param;
          h \<leftarrow> upd h ctx (\<lambda>c. c\<lparr>c_esp := stackp\<rparr>);
          Some (cs\<lparr>ctxs := h, cx_pools := pl\<lparr>pl_vm := m\<rparr>\<rparr>)
        }
      })"

text \<open>\<open>memcpy\<close> of \<open>n\<close> words.\<close>

fun copy_words :: "vmm \<Rightarrow> u32 \<Rightarrow> u32 \<Rightarrow> nat \<Rightarrow> vmm option" where
  "copy_words m dst src 0 = Some m"
| "copy_words m dst src (Suc n) = do {
     x \<leftarrow> vload m src;
     m \<leftarrow> vstore m dst x;
     copy_words m (dst + 4) (src + 4) n
   }"

definition clone_context :: "ctxsys \<Rightarrow> ptr \<Rightarrow> ptr \<Rightarrow> ctxsys option" where
  "clone_context cs old new = do {
     oc \<leftarrow> load (ctxs cs) old;
     h \<leftarrow> upd (ctxs cs) new (\<lambda>_. oc);
     if stackispool oc = 0 then None
     else do {
       (pl, stack) \<leftarrow> pool_alloc (cx_pools cs) (stackpool cs);
       m \<leftarrow> copy_words (pl_vm pl) stack (stackbase oc) (unat (POOL_STACK_SZ div 4));
       h \<leftarrow> upd h new (\<lambda>c. c\<lparr>stackbase := stack\<rparr>);
       oc \<leftarrow> load h old;
       let ebp_diff = c_esp oc - stackbase oc;
       let esp_diff = c_esp oc - stackbase oc;
       h \<leftarrow> upd h new (\<lambda>c. c\<lparr>c_ebp := stackbase c + ebp_diff\<rparr>);
       h \<leftarrow> upd h new (\<lambda>c. c\<lparr>c_esp := stackbase c + esp_diff\<rparr>);
       Some (cs\<lparr>ctxs := h, cx_pools := pl\<lparr>pl_vm := m\<rparr>\<rparr>)
     }
   }"

text \<open>One element of \<open>news\<close> for every page of the stack that is given back.\<close>

definition destroy_context :: "ctxsys \<Rightarrow> ptr \<Rightarrow> pm_alloc list \<Rightarrow> ctxsys option" where
  "destroy_context cs ctx news =
     (if ctx = NULL then None
      else do {
        c \<leftarrow> load (ctxs cs) ctx;
        if stackispool c \<noteq> 0 then do {
          pl \<leftarrow> pool_dealloc_and_free (cx_pools cs) (stackpool cs) (stackbase c) news;
          Some (cs\<lparr>cx_pools := pl\<rparr>)
        } else Some cs
      })"

section \<open>Model of sched.s\<close>

record regs =
  edi :: u32
  esi :: u32
  ebx :: u32
  ebp :: u32
  esp :: u32
  eip :: u32
  eflags :: u32
  eax :: u32

text \<open>The call leaves the return address at the top of the stack; \<open>pushf\<close> uses the word below it.\<close>

definition save_thread_context :: "vmm \<Rightarrow> regs \<Rightarrow> x86_ctx \<Rightarrow> (vmm \<times> regs \<times> x86_ctx) option" where
  "save_thread_context m r c = do {
     ret \<leftarrow> vload m (esp r);
     m \<leftarrow> vstore m (esp r - 4) (eflags r);
     let c = c\<lparr>c_edi := edi r, c_esi := esi r, c_ebx := ebx r, c_ebp := ebp r, c_esp := esp r, c_eip := ret,
               c_eflags := eflags r\<rparr>;
     Some (m, r\<lparr>eax := 1, eip := ret, esp := esp r + 4\<rparr>, c)
   }"

text \<open>\<open>lock\<close> is the address of a word to be decremented, or 0.\<close>

definition restore_thread_context :: "vmm \<Rightarrow> regs \<Rightarrow> x86_ctx \<Rightarrow> u32 \<Rightarrow> (vmm \<times> regs) option" where
  "restore_thread_context m r c lock = do {
     let r = r\<lparr>edi := c_edi c, esi := c_esi c, ebx := c_ebx c, ebp := c_ebp c, esp := c_esp c + 4\<rparr>;
     m \<leftarrow> (if lock \<noteq> 0 then do { x \<leftarrow> vload m lock; vstore m lock (x - 1) } else Some m);
     m \<leftarrow> vstore m (esp r - 4) (c_eflags c);
     Some (m, r\<lparr>eflags := c_eflags c, eax := 0, eip := c_eip c\<rparr>)
   }"

section \<open>Stores to a stack\<close>

text \<open>A store to a frame that holds no page table leaves every translation as it was.\<close>

lemma poke_tables:
  assumes "tables_ok m" "f \<notin> table_frames m"
  shows "tables_ok (poke m f i x)" "table_frames (poke m f i x) = table_frames m" "walk (poke m f i x) a = walk m a"
proof -
  have f: "f \<noteq> vm_cr3 m" "\<And>d. d \<in> tabs m \<Longrightarrow> f \<noteq> vm_mem m (vm_cr3 m) d AND 0xFFFFF000"
    using assms(2) by (auto simp: table_frames_def)
  then show "tables_ok (poke m f i x)" "table_frames (poke m f i x) = table_frames m"
    using assms(1) by (simp_all add: tables_ok_def table_frames_def tabs_def)
  have "vm_mem m (vm_cr3 m) (PDIR_OFFSET a) AND 0xFFFFF000 \<noteq> f" if "vm_mem m (vm_cr3 m) (PDIR_OFFSET a) AND 1 \<noteq> 0"
  proof (cases "PDIR_OFFSET a = 1023")
    case True
    then show ?thesis
      using assms(1) f(1) by (simp add: tables_ok_def)
  next
    case False
    with PDIR_OFFSET_le [of a] that have "PDIR_OFFSET a \<in> tabs m"
      by (auto simp: tabs_def)
    with f(2) show ?thesis
      by blast
  qed
  with f(1) show "walk (poke m f i x) a = walk m a"
    by (auto simp: walk_def Let_def PDIR_OFFSET_drop)
qed

lemma vstore_poke:
  assumes "walk m a = Some f" "a AND 3 = 0"
  shows "vstore m a x = Some (poke m f (slot a) x)"
  using assms by (simp add: vstore_def vwrite_def poke_def)

lemma vload_walk:
  assumes "walk m a = Some f" "a AND 3 = 0"
  shows "vload m a = Some (vm_mem m f (slot a))"
  using assms by (simp add: vload_def vread_def)

lemma word_slots_differ:
  fixes a :: u32
  assumes "a AND 3 = 0"
  shows "slot (a - 4) \<noteq> slot a" "(a - 4) AND 3 = 0"
proof -
  define b where "b = a - 4"
  have m3: "(3 :: u32) = mask 2"
    by (simp add: mask_numeral)
  have and3: "unat (x AND 3) = unat x mod 4" for x :: u32
    unfolding m3 take_bit_eq_mask [symmetric] unsigned_take_bit_eq by (simp add: take_bit_eq_mod)
  have slot: "unat (slot x) = unat x mod 4096 div 4" for x :: u32
    unfolding slot_def unat_drop_bit page_mask(2) take_bit_eq_mask [symmetric] unsigned_take_bit_eq
    by (simp add: take_bit_eq_mod)
  have "unat (b + 4) = (unat b + 4) mod 2 ^ 32"
    by (simp add: unat_word_ariths)
  then have "unat a = (unat b + 4) mod 2 ^ 32"
    by (simp add: b_def)
  then have m: "unat a mod 4 = (unat b + 4) mod 4" "unat a mod 4096 = (unat b + 4) mod 4096"
    by (simp_all only: mod_mod_cancel [of 4 "2 ^ 32"] mod_mod_cancel [of 4096 "2 ^ 32"]) (simp_all add: mod_mod_cancel)
  have "unat a mod 4 = 0"
    using assms and3 [of a] by simp
  then have b: "unat b mod 4 = 0"
    unfolding m by simp
  then obtain k where k: "unat b = 4 * k"
    by (auto simp: mod_eq_0_iff_dvd)
  have "4 * j mod 4096 div 4 = j mod 1024" for j :: nat
    using mult_mod_right [of 4 j 1024] by simp
  from this [of k] this [of "Suc k"] have "unat b mod 4096 div 4 \<noteq> unat a mod 4096 div 4"
    unfolding m k by (simp add: mod_Suc add.commute split: if_splits)
  with b show "slot (a - 4) \<noteq> slot a" "(a - 4) AND 3 = 0"
    unfolding b_def [symmetric] using slot [of a] slot [of b] and3 [of b] by (auto simp: word_unat_eq_iff)
qed

section \<open>Properties\<close>

text \<open>Restoring a saved context resumes behind the call that saved it, with 0 instead of 1 as its result.\<close>

lemma restore_resumes:
  assumes "save_thread_context m r c = Some (m1, r1, c1)" "restore_thread_context m2 r2 c1 lock = Some (m3, r3)"
  shows "r3 = r1\<lparr>eax := 0\<rparr>"
  using assms by (auto simp: save_thread_context_def restore_thread_context_def Let_def split: bind_splits)


text \<open>One page at 0x8000, mapped to the frame 0x300000 by the page table at 0x2000.\<close>

definition example_stack :: ctxsys where
  "example_stack = \<lparr>ctxs = \<lparr>cells = \<lambda>_. zero_context, live = {0x10}\<rparr>, stackpool = 0x20,
     cx_pools = example_pools\<lparr>pl_vm := example_vmm\<lparr>vm_mem := (\<lambda>f i.
       if f = 0x1000 \<and> i = 1023 then 0x1003 else if f = 0x1000 \<and> i = 0 then 0x2003
       else if f = 0x2000 \<and> i = 8 then 0x300003 else 0)\<rparr>\<rparr>\<rparr>"

definition example_regs :: regs where
  "example_regs = \<lparr>edi = 0, esi = 0, ebx = 0, ebp = 0, esp = 0, eip = 0, eflags = 0, eax = 0\<rparr>"

lemma example_stack_tables:
  "tabs (pl_vm (cx_pools example_stack)) = {0}" "tables_ok (pl_vm (cx_pools example_stack))"
  "table_frames (pl_vm (cx_pools example_stack)) = {0x1000, 0x2000}"
proof -
  show t: "tabs (pl_vm (cx_pools example_stack)) = {0}"
    by (auto simp: tabs_def example_stack_def example_vmm_def split: if_splits)
  show "tables_ok (pl_vm (cx_pools example_stack))"
    "table_frames (pl_vm (cx_pools example_stack)) = {0x1000, 0x2000}"
    by (simp_all add: tables_ok_def table_frames_def t) (simp_all add: example_stack_def example_vmm_def)
qed


end
