(* ===== verification/Forge_Timer.thy ===== *)
theory Forge_Timer
  imports Forge_List "HOL-Library.Multiset"
begin

text \<open>
  The timer framework, \<open>src/src/kernel/timer.c\<close>: hardware timers register themselves and report ticks;
  handlers are installed on a hardware timer that fits them. A handler is known by its address. What it
  does to the rest of the kernel is not part of this state: the calls are recorded in order, and the result
  of a handler is given by a function \<open>hres\<close> of its address and its argument.
\<close>

section \<open>Model of timer.c\<close>

definition TIMERRES_SECONDS :: u32 where "TIMERRES_SECONDS = 0x8"
definition TIMERRES_MILLI :: u32 where "TIMERRES_MILLI = 0x4"
definition TIMERRES_MICRO :: u32 where "TIMERRES_MICRO = 0x2"
definition TIMERRES_NANO :: u32 where "TIMERRES_NANO = 0x1"
definition TIMERRES_SHIFT :: nat where "TIMERRES_SHIFT = 12"
definition TIMERRES_MASK :: u32 where "TIMERRES_MASK = 0xFFF"
definition TIMERFEAT_ONESHOT :: u32 where "TIMERFEAT_ONESHOT = 0x1"
definition TIMERFEAT_PERIODIC :: u32 where "TIMERFEAT_PERIODIC = 0x2"
definition TIMERFEAT_PERCPU :: u32 where "TIMERFEAT_PERCPU = 0x10"

record hwtimer =
  timer_res :: u32
  timer_feat :: u32
  tmr_cpu :: u32
  timer_init :: ptr

record timer_handler_meta =
  tim :: ptr
  th :: ptr
  ticks :: u64
  orig_ticks :: u64
  feat :: u32
  th_cpu :: u32

record crosscpu_th =
  x_th :: ptr
  x_ticks :: u64

datatype tcall = Local ptr u64 | Cross u32 ptr

record timers =
  tlists :: lmem
  hw :: "hwtimer heap"
  metas :: "timer_handler_meta heap"
  cross :: "crosscpu_th heap"
  timer_list :: ptr
  hwtimer_list :: ptr
  calls :: "tcall list"

text \<open>\<open>rc\<close> is the result of the timer's own initialisation, \<open>cpu\<close> the processor the code runs on; \<open>lp\<close>
  and \<open>n\<close> are the addresses of a new list and of a new list node.\<close>

definition timer_register :: "timers \<Rightarrow> u32 \<Rightarrow> ptr \<Rightarrow> int \<Rightarrow> ptr \<Rightarrow> ptr \<Rightarrow> timers option" where
  "timer_register st cpu t rc lp n = do {
     st \<leftarrow> (if hwtimer_list st = NULL then do {
              (lm, l) \<leftarrow> create_list (tlists st) lp;
              Some (st\<lparr>tlists := lm, hwtimer_list := l\<rparr>)
            } else Some st);
     if t = NULL then Some st
     else do {
       tm \<leftarrow> load (hw st) t;
       if timer_init tm = NULL then Some st
       else if rc = 0 then do {
         h \<leftarrow> upd (hw st) t (\<lambda>x. x\<lparr>tmr_cpu := cpu\<rparr>);
         lm \<leftarrow> list_insert (tlists st) (hwtimer_list st) t 0 n;
         Some (st\<lparr>hw := h, tlists := lm\<rparr>)
       } else do {
         h \<leftarrow> upd (hw st) t (\<lambda>x. x\<lparr>timer_feat := 0\<rparr>);
         Some (st\<lparr>hw := h\<rparr>)
       }
     }
   }"

text \<open>The static timers, each with the result of its initialisation and the two addresses.\<close>

fun timers_init :: "timers \<Rightarrow> u32 \<Rightarrow> (ptr \<times> int \<times> ptr \<times> ptr) list \<Rightarrow> timers option" where
  "timers_init st cpu [] = Some st"
| "timers_init st cpu ((t, rc, lp, n) # ts) = do {
     st \<leftarrow> timer_register st cpu t rc lp n;
     timers_init st cpu ts
   }"

definition conv_ticks :: "u32 \<Rightarrow> u64" where
  "conv_ticks tk =
     (let ret = ucast tk :: u64 in
      if ret AND ucast TIMERRES_SECONDS \<noteq> 0 then drop_bit TIMERRES_SHIFT ret * 1000000000
      else if ret AND ucast TIMERRES_MILLI \<noteq> 0 then drop_bit TIMERRES_SHIFT ret * 1000000
      else if ret AND ucast TIMERRES_MICRO \<noteq> 0 then drop_bit TIMERRES_SHIFT ret * 1000
      else if ret AND ucast TIMERRES_NANO \<noteq> 0 then drop_bit TIMERRES_SHIFT ret
      else 0)"

definition timer_crosscpu_stub :: "(ptr \<Rightarrow> u64 \<Rightarrow> int) \<Rightarrow> timers \<Rightarrow> ptr \<Rightarrow> (timers \<times> int) option" where
  "timer_crosscpu_stub hres st x = do {
     c \<leftarrow> load (cross st) x;
     h \<leftarrow> free (cross st) x;
     Some (st\<lparr>calls := calls st @ [Local (x_th c) (x_ticks c)], cross := h\<rparr>, hres (x_th c) (x_ticks c))
   }"

text \<open>The addresses \<open>xs\<close> are for the messages to other processors.\<close>

definition do_th :: "(ptr \<Rightarrow> u64 \<Rightarrow> int) \<Rightarrow> u32 \<Rightarrow> timers \<Rightarrow> ptr \<Rightarrow> u64 \<Rightarrow> ptr list \<Rightarrow> (timers \<times> int \<times> ptr list) option" where
  "do_th hres cpu st p tk xs = do {
     pm \<leftarrow> load (metas st) p;
     if th_cpu pm = cpu then Some (st\<lparr>calls := calls st @ [Local (th pm) tk]\<rparr>, hres (th pm) tk, xs)
     else case xs of
       [] \<Rightarrow> None
     | x # xs \<Rightarrow> do {
         let h = malloc (cross st) x;
         h \<leftarrow> upd h x (\<lambda>c. c\<lparr>x_th := th pm\<rparr>);
         h \<leftarrow> upd h x (\<lambda>c. c\<lparr>x_ticks := tk\<rparr>);
         Some (st\<lparr>cross := h, calls := calls st @ [Cross (th_cpu pm) x]\<rparr>, 0, xs)
       }
   }"

text \<open>Counting down stops at 0.\<close>

definition elapse :: "timers \<Rightarrow> ptr \<Rightarrow> u64 \<Rightarrow> (timers \<times> u64) option" where
  "elapse st p tk = do {
     pm \<leftarrow> load (metas st) p;
     let left = (if ticks pm < tk then 0 else ticks pm - tk);
     h \<leftarrow> upd (metas st) p (\<lambda>x. x\<lparr>ticks := left\<rparr>);
     Some (st\<lparr>metas := h\<rparr>, left)
   }"

type_synonym tick_state = "timers \<times> u32 \<times> int \<times> ptr list"

text \<open>The three parts of the loop body: one-shot handlers, periodic handlers, one-shot emulation.\<close>

definition tick_oneshot :: "(ptr \<Rightarrow> u64 \<Rightarrow> int) \<Rightarrow> u32 \<Rightarrow> u32 \<Rightarrow> ptr \<Rightarrow> u64 \<Rightarrow> tick_state \<Rightarrow> tick_state option" where
  "tick_oneshot hres cpu tf p tk = (\<lambda>(st, index, ret, xs). do {
     pm \<leftarrow> load (metas st) p;
     if tf AND TIMERFEAT_ONESHOT \<noteq> 0 \<and> feat pm AND TIMERFEAT_ONESHOT \<noteq> 0 \<and> ticks pm = tk then do {
       (st, r, xs) \<leftarrow> do_th hres cpu st p tk xs;
       let index = index - 1;
       lm \<leftarrow> list_remove (tlists st) (timer_list st) index;
       Some (st\<lparr>tlists := lm\<rparr>, index, ret + r, xs)
     } else Some (st, index, ret, xs)
   })"

definition tick_periodic :: "(ptr \<Rightarrow> u64 \<Rightarrow> int) \<Rightarrow> u32 \<Rightarrow> u32 \<Rightarrow> ptr \<Rightarrow> u64 \<Rightarrow> tick_state \<Rightarrow> tick_state option" where
  "tick_periodic hres cpu tf p tk = (\<lambda>(st, index, ret, xs). do {
     pm \<leftarrow> load (metas st) p;
     if tf AND TIMERFEAT_PERIODIC \<noteq> 0 \<and> feat pm AND TIMERFEAT_PERIODIC \<noteq> 0 then do {
       (st, left) \<leftarrow> elapse st p tk;
       if left = 0 then do {
         (st, r, xs) \<leftarrow> do_th hres cpu st p (max tk (orig_ticks pm)) xs;
         h \<leftarrow> upd (metas st) p (\<lambda>x. x\<lparr>ticks := orig_ticks x\<rparr>);
         Some (st\<lparr>metas := h\<rparr>, index, ret + r, xs)
       } else Some (st, index, ret, xs)
     } else Some (st, index, ret, xs)
   })"

definition tick_emulate :: "(ptr \<Rightarrow> u64 \<Rightarrow> int) \<Rightarrow> u32 \<Rightarrow> u32 \<Rightarrow> ptr \<Rightarrow> u64 \<Rightarrow> tick_state \<Rightarrow> tick_state option" where
  "tick_emulate hres cpu tf p tk = (\<lambda>(st, index, ret, xs). do {
     pm \<leftarrow> load (metas st) p;
     if tf AND TIMERFEAT_ONESHOT = 0 \<and> tf AND TIMERFEAT_PERIODIC \<noteq> 0 \<and> feat pm AND TIMERFEAT_ONESHOT \<noteq> 0 then do {
       (st, left) \<leftarrow> elapse st p tk;
       if left = 0 then do {
         (st, r, xs) \<leftarrow> do_th hres cpu st p (max tk (orig_ticks pm)) xs;
         let index = index - 1;
         lm \<leftarrow> list_remove (tlists st) (timer_list st) index;
         Some (st\<lparr>tlists := lm\<rparr>, index, ret + r, xs)
       } else Some (st, index, ret, xs)
     } else Some (st, index, ret, xs)
   })"

definition tick_handler :: "(ptr \<Rightarrow> u64 \<Rightarrow> int) \<Rightarrow> u32 \<Rightarrow> ptr \<Rightarrow> ptr \<Rightarrow> u64 \<Rightarrow> tick_state \<Rightarrow> tick_state option" where
  "tick_handler hres cpu t p tk = (\<lambda>(st, index, ret, xs). do {
     pm \<leftarrow> load (metas st) p;
     if tim pm \<noteq> t then Some (st, index, ret, xs)
     else do {
       tm \<leftarrow> load (hw st) t;
       s \<leftarrow> tick_oneshot hres cpu (timer_feat tm) p tk (st, index, ret, xs);
       s \<leftarrow> tick_periodic hres cpu (timer_feat tm) p tk s;
       tick_emulate hres cpu (timer_feat tm) p tk s
     }
   })"

partial_function (option) tick_loop ::
    "(ptr \<Rightarrow> u64 \<Rightarrow> int) \<Rightarrow> u32 \<Rightarrow> ptr \<Rightarrow> u64 \<Rightarrow> timers \<Rightarrow> u32 \<Rightarrow> int \<Rightarrow> ptr list \<Rightarrow> (timers \<times> int \<times> ptr list) option" where
  "tick_loop hres cpu t tk st index ret xs = do {
     p \<leftarrow> list_at (tlists st) (timer_list st) index;
     if p = NULL then Some (st, ret, xs)
     else do {
       (st, index, ret, xs) \<leftarrow> tick_handler hres cpu t p tk (st, index + 1, ret, xs);
       tick_loop hres cpu t tk st index ret xs
     }
   }"

definition timer_ticked :: "(ptr \<Rightarrow> u64 \<Rightarrow> int) \<Rightarrow> u32 \<Rightarrow> timers \<Rightarrow> ptr \<Rightarrow> u32 \<Rightarrow> ptr list \<Rightarrow> (timers \<times> int) option" where
  "timer_ticked hres cpu st t in_ticks xs = do {
     (st, ret, xs) \<leftarrow> tick_loop hres cpu t (conv_ticks in_ticks) st 0 0 xs;
     Some (st, if ret \<noteq> 0 then 1 else 0)
   }"

text \<open>Whether a hardware timer is bound to another processor.\<close>

definition other_cpu :: "hwtimer \<Rightarrow> u32 \<Rightarrow> bool" where
  "other_cpu ent cpu \<longleftrightarrow> timer_feat ent AND TIMERFEAT_PERCPU \<noteq> 0 \<and> tmr_cpu ent \<noteq> cpu"

text \<open>The search for a timer with the features and the resolution; \<open>n\<close> timers are left.\<close>

fun find_exact :: "timers \<Rightarrow> u32 \<Rightarrow> u32 \<Rightarrow> u32 \<Rightarrow> u32 \<Rightarrow> nat \<Rightarrow> ptr option" where
  "find_exact st cpu tk ft i 0 = Some NULL"
| "find_exact st cpu tk ft i (Suc n) = do {
     e \<leftarrow> list_at (tlists st) (hwtimer_list st) i;
     ent \<leftarrow> load (hw st) e;
     if other_cpu ent cpu then find_exact st cpu tk ft (i + 1) n
     else if timer_feat ent AND TIMERFEAT_PERCPU \<noteq> 0 \<and> ft AND TIMERFEAT_PERCPU = 0 then find_exact st cpu tk ft (i + 1) n
     else if timer_feat ent AND ft \<noteq> 0 \<and> timer_res ent AND TIMERRES_MASK \<le> tk AND TIMERRES_MASK then Some e
     else find_exact st cpu tk ft (i + 1) n
   }"

text \<open>The second search takes any timer with a matching feature, or a periodic one for a one-shot handler.\<close>

fun find_usable :: "timers \<Rightarrow> u32 \<Rightarrow> u32 \<Rightarrow> u32 \<Rightarrow> nat \<Rightarrow> ptr option" where
  "find_usable st cpu ft i 0 = Some NULL"
| "find_usable st cpu ft i (Suc n) = do {
     e \<leftarrow> list_at (tlists st) (hwtimer_list st) i;
     ent \<leftarrow> load (hw st) e;
     if other_cpu ent cpu then find_usable st cpu ft (i + 1) n
     else if timer_feat ent AND ft \<noteq> 0 \<or> (ft AND TIMERFEAT_ONESHOT \<noteq> 0 \<and> timer_feat ent AND TIMERFEAT_PERIODIC \<noteq> 0)
     then Some e
     else find_usable st cpu ft (i + 1) n
   }"

text \<open>The index the new handler is inserted at: one behind the first handler with at least as many ticks.\<close>

partial_function (option) insert_place :: "timers \<Rightarrow> u64 \<Rightarrow> u32 \<Rightarrow> u32 option" where
  "insert_place st tk i = do {
     t \<leftarrow> list_at (tlists st) (timer_list st) i;
     let i = i + 1;
     if t = NULL then Some i
     else do {
       tm \<leftarrow> load (metas st) t;
       if ticks tm \<ge> tk then Some i else insert_place st tk i
     }
   }"

text \<open>\<open>lp\<close>, \<open>p\<close> and \<open>n\<close> are the addresses of the list, of the handler's record and of its list node.\<close>

definition install_timer :: "timers \<Rightarrow> u32 \<Rightarrow> ptr \<Rightarrow> u32 \<Rightarrow> u32 \<Rightarrow> ptr \<Rightarrow> ptr \<Rightarrow> ptr \<Rightarrow> (timers \<times> int) option" where
  "install_timer st cpu fn tk ft lp p n = do {
     st \<leftarrow> (if timer_list st = NULL then do {
              (lm, l) \<leftarrow> create_list (tlists st) lp;
              Some (st\<lparr>tlists := lm, timer_list := l\<rparr>)
            } else Some st);
     if timer_list st = NULL then None
     else do {
       let st = st\<lparr>metas := malloc (metas st) p\<rparr>;
       cnt \<leftarrow> list_len (tlists st) (hwtimer_list st);
       t \<leftarrow> find_exact st cpu tk ft 0 (unat cnt);
       t \<leftarrow> (if t = NULL then find_usable st cpu ft 0 (unat cnt) else Some t);
       h \<leftarrow> upd (metas st) p (\<lambda>x. x\<lparr>tim := t\<rparr>);
       if t = NULL then do { h \<leftarrow> free h p; Some (st\<lparr>metas := h\<rparr>, -1) }
       else do {
         h \<leftarrow> upd h p (\<lambda>x. x\<lparr>th := fn, ticks := conv_ticks tk, orig_ticks := conv_ticks tk, feat := ft, th_cpu := cpu\<rparr>);
         let st = st\<lparr>metas := h\<rparr>;
         i \<leftarrow> insert_place st (conv_ticks tk) 0;
         lm \<leftarrow> list_insert (tlists st) (timer_list st) p i n;
         Some (st\<lparr>tlists := lm\<rparr>, 0)
       }
     }
   }"

text \<open>\<open>list_remove\<close> gets the index that was already advanced, which is then taken back.\<close>

partial_function (option) remove_loop :: "timers \<Rightarrow> ptr \<Rightarrow> u32 \<Rightarrow> timers option" where
  "remove_loop st fn index = do {
     p \<leftarrow> list_at (tlists st) (timer_list st) index;
     if p = NULL then Some st
     else do {
       let index = index + 1;
       pm \<leftarrow> load (metas st) p;
       if th pm = fn then do {
         lm \<leftarrow> list_remove (tlists st) (timer_list st) index;
         remove_loop (st\<lparr>tlists := lm\<rparr>) fn (index - 1)
       } else remove_loop st fn index
     }
   }"

definition remove_timer :: "timers \<Rightarrow> ptr \<Rightarrow> timers option" where
  "remove_timer st fn = (if timer_list st = NULL then Some st else remove_loop st fn 0)"

section \<open>Ticks as nanoseconds\<close>

text \<open>The product always fits: the count has 20 bits.\<close>

lemma unat_conv:
  assumes "k \<le> 1000000000"
  shows "unat (drop_bit 12 (ucast (tk :: u32)) * of_nat k :: u64) = unat tk div 4096 * k"
proof -
  have d: "unat (drop_bit 12 (ucast tk) :: u64) = unat tk div 4096"
    using unsigned_less [of tk, where ?'a = nat]
    by (simp add: drop_bit_eq_div unat_div unsigned_ucast_eq take_bit_nat_eq_self)
  have "unat tk div 4096 * k < 2 ^ 20 * 1000000001"
    using unsigned_less [of tk, where ?'a = nat] assms by (intro mult_strict_mono) auto
  also have "\<dots> < 2 ^ 64"
    by simp
  finally show ?thesis
    using assms by (simp add: unat_word_ariths d unat_of_nat)
qed

section \<open>Periodic handlers\<close>

text \<open>
  The handlers \<open>ps\<close> in the order of the list: periodic ones, those of the timer \<open>t\<close> bound to this processor.
\<close>

definition periodic :: "timers \<Rightarrow> u32 \<Rightarrow> ptr \<Rightarrow> ptr list \<Rightarrow> bool" where
  "periodic st cpu t ps \<longleftrightarrow>
     (\<exists>ns. list_rep (tlists st) (timer_list st) ns ps) \<and> NULL \<notin> set ps \<and> distinct ps \<and>
     valid (hw st) t \<and> timer_feat (cells (hw st) t) AND TIMERFEAT_PERIODIC \<noteq> 0 \<and>
     (\<forall>p \<in> set ps. valid (metas st) p \<and> feat (cells (metas st) p) = TIMERFEAT_PERIODIC \<and>
        (tim (cells (metas st) p) = t \<longrightarrow> th_cpu (cells (metas st) p) = cpu))"

text \<open>What a tick of \<open>tk\<close> nanoseconds does to one handler, and to all of them in turn.\<close>

definition ticked :: "ptr \<Rightarrow> u64 \<Rightarrow> timer_handler_meta \<Rightarrow> timer_handler_meta" where
  "ticked t tk pm =
     (if tim pm \<noteq> t then pm else pm\<lparr>ticks := if ticks pm \<le> tk then orig_ticks pm else ticks pm - tk\<rparr>)"

definition fired :: "ptr \<Rightarrow> u64 \<Rightarrow> timer_handler_meta \<Rightarrow> tcall list" where
  "fired t tk pm = (if tim pm = t \<and> ticks pm \<le> tk then [Local (th pm) (max tk (orig_ticks pm))] else [])"

definition tick_one :: "ptr \<Rightarrow> u64 \<Rightarrow> timers \<Rightarrow> ptr \<Rightarrow> timers" where
  "tick_one t tk st p = st\<lparr>metas := (metas st)\<lparr>cells := (cells (metas st))(p := ticked t tk (cells (metas st) p))\<rparr>,
     calls := calls st @ fired t tk (cells (metas st) p)\<rparr>"

definition tick_all :: "ptr \<Rightarrow> u64 \<Rightarrow> timers \<Rightarrow> ptr list \<Rightarrow> timers" where
  "tick_all t tk st ps = foldl (tick_one t tk) st ps"

lemma tick_all_simps [simp]:
  "tick_all t tk st [] = st" "tick_all t tk st (p # ps) = tick_all t tk (tick_one t tk st p) ps"
  by (simp_all add: tick_all_def)

lemma tick_one_fields [simp]:
  "tlists (tick_one t tk st p) = tlists st" "timer_list (tick_one t tk st p) = timer_list st"
  "hw (tick_one t tk st p) = hw st" "live (metas (tick_one t tk st p)) = live (metas st)"
  "cells (metas (tick_one t tk st p)) q = (if q = p then ticked t tk (cells (metas st) p) else cells (metas st) q)"
  "calls (tick_one t tk st p) = calls st @ fired t tk (cells (metas st) p)"
  by (simp_all add: tick_one_def)

lemma ticked_fields [simp]:
  "tim (ticked t tk pm) = tim pm" "th (ticked t tk pm) = th pm" "feat (ticked t tk pm) = feat pm"
  "th_cpu (ticked t tk pm) = th_cpu pm" "orig_ticks (ticked t tk pm) = orig_ticks pm"
  by (simp_all add: ticked_def)

lemma tick_all_fields:
  "tlists (tick_all t tk st ps) = tlists st" "timer_list (tick_all t tk st ps) = timer_list st"
  "hw (tick_all t tk st ps) = hw st" "live (metas (tick_all t tk st ps)) = live (metas st)"
  by (induction ps arbitrary: st) simp_all

lemma tick_all_metas:
  "distinct ps \<Longrightarrow> cells (metas (tick_all t tk st ps)) q =
     (if q \<in> set ps then ticked t tk (cells (metas st) q) else cells (metas st) q)"
  by (induction ps arbitrary: st) auto

lemma tick_all_calls:
  "distinct ps \<Longrightarrow> calls (tick_all t tk st ps) = calls st @ concat (map (\<lambda>p. fired t tk (cells (metas st) p)) ps)"
proof (induction ps arbitrary: st)
  case (Cons p ps)
  then have eq: "map (\<lambda>q. fired t tk (cells (metas (tick_one t tk st p)) q)) ps = map (\<lambda>q. fired t tk (cells (metas st) q)) ps"
    by auto
  have "distinct ps"
    using Cons.prems by simp
  then show ?case
    unfolding tick_all_simps Cons.IH [OF \<open>distinct ps\<close>] eq by simp
qed simp

lemma periodic_tick_all:
  assumes "periodic st cpu t ps"
  shows "periodic (tick_all t tk st qs) cpu t ps"
proof -
  have "periodic (tick_one t tk st q) cpu t ps" if "periodic st cpu t ps" for st q
    using that by (auto simp: periodic_def valid_def)
  with assms show ?thesis
    by (induction qs arbitrary: st) simp_all
qed

lemma tick_handler_periodic:
  assumes "periodic st cpu t ps" "p \<in> set ps"
  shows "\<exists>r. tick_handler hres cpu t p tk (st, index, ret, xs) = Some (tick_one t tk st p, index, r, xs)"
proof -
  define pm where "pm = cells (metas st) p"
  have v: "valid (metas st) p" "feat pm = TIMERFEAT_PERIODIC" "tim pm = t \<Longrightarrow> th_cpu pm = cpu"
    and t: "valid (hw st) t" "timer_feat (cells (hw st) t) AND TIMERFEAT_PERIODIC \<noteq> 0"
    using assms by (auto simp: periodic_def pm_def)
  have "TIMERFEAT_PERIODIC AND TIMERFEAT_ONESHOT = 0" "TIMERFEAT_PERIODIC AND TIMERFEAT_PERIODIC \<noteq> 0"
    by (simp_all add: TIMERFEAT_PERIODIC_def TIMERFEAT_ONESHOT_def)
  note bits = this
  have left: "(if ticks pm < tk then 0 else ticks pm - tk) = 0 \<longleftrightarrow> ticks pm \<le> tk"
    by auto
  have one: "tick_oneshot hres cpu f p tk (st, index, ret, xs) = Some (st, index, ret, xs)" for f
    using v(1,2) bits by (simp add: tick_oneshot_def heap_simps pm_def)
  have emu: "tick_emulate hres cpu f p tk (st', index, r, xs) = Some (st', index, r, xs)"
    if "load (metas st') p = Some pm'" "feat pm' = TIMERFEAT_PERIODIC" for f st' pm' r
    using that bits by (simp add: tick_emulate_def)
  show ?thesis
  proof (cases "tim pm = t")
    case False
    then show ?thesis
      using v(1) by (simp add: tick_handler_def heap_simps pm_def tick_one_def ticked_def fired_def)
  next
    case True
    have "\<exists>r. tick_periodic hres cpu (timer_feat (cells (hw st) t)) p tk (st, index, ret, xs) = Some (tick_one t tk st p, index, r, xs)"
    proof (cases "ticks pm \<le> tk")
      case True
      then show ?thesis
        using v t \<open>tim pm = t\<close> bits left
        by (simp add: tick_periodic_def elapse_def do_th_def heap_simps pm_def [symmetric] tick_one_def ticked_def fired_def Let_def)
    next
      case False
      then have "\<not> ticks pm < tk" "ticks pm - tk \<noteq> 0"
        by auto
      with False show ?thesis
        using v t \<open>tim pm = t\<close> bits
        by (simp add: tick_periodic_def elapse_def heap_simps pm_def [symmetric] tick_one_def ticked_def fired_def Let_def)
    qed
    then obtain r where "tick_periodic hres cpu (timer_feat (cells (hw st) t)) p tk (st, index, ret, xs) =
        Some (tick_one t tk st p, index, r, xs)"
      by blast
    moreover have "load (metas (tick_one t tk st p)) p = Some (ticked t tk pm)"
      using v(1) by (simp add: load_def valid_def pm_def)
    ultimately show ?thesis
      using v(1,2) t(1) True one emu [of "tick_one t tk st p" "ticked t tk pm"]
      by (simp add: tick_handler_def heap_simps pm_def [symmetric])
  qed
qed

lemma tick_loop_periodic:
  assumes "periodic st cpu t ps" "unat k \<le> length ps"
  shows "\<exists>r. tick_loop hres cpu t tk st k ret xs = Some (tick_all t tk st (drop (unat k) ps), r, xs)"
  using assms
proof (induction "length ps - unat k" arbitrary: k st ret)
  case 0
  then obtain ns where "list_rep (tlists st) (timer_list st) ns ps"
    by (auto simp: periodic_def)
  with 0 show ?case
    by (subst tick_loop.simps) (simp add: list_at_rep)
next
  case (Suc d)
  then have k: "unat k < length ps"
    by simp
  from Suc.prems(1) obtain ns where rep: "list_rep (tlists st) (timer_list st) ns ps"
    by (auto simp: periodic_def)
  then have k1: "unat (k + 1) = Suc (unat k)"
    using k by (intro unat_Suc_no_overflow) (auto simp: list_rep_def)
  define p where "p = ps ! unat k"
  have p: "p \<in> set ps"
    using k by (simp add: p_def)
  then have "p \<noteq> NULL"
    using Suc.prems(1) by (auto simp: periodic_def)
  obtain r where r: "tick_handler hres cpu t p tk (st, k + 1, ret, xs) = Some (tick_one t tk st p, k + 1, r, xs)"
    using tick_handler_periodic [OF Suc.prems(1) p] by blast
  have "periodic (tick_one t tk st p) cpu t ps"
    using periodic_tick_all [OF Suc.prems(1), of tk "[p]"] by simp
  then obtain r' where "tick_loop hres cpu t tk (tick_one t tk st p) (k + 1) r xs =
      Some (tick_all t tk (tick_one t tk st p) (drop (Suc (unat k)) ps), r', xs)"
    using Suc.hyps(1) [of "k + 1" "tick_one t tk st p" r] Suc.hyps(2) k k1 by force
  moreover have "drop (unat k) ps = p # drop (Suc (unat k)) ps"
    using k by (simp add: p_def Cons_nth_drop_Suc)
  ultimately show ?case
    using rep r \<open>p \<noteq> NULL\<close> k by (subst tick_loop.simps) (simp add: list_at_rep p_def [symmetric])
qed

lemma timer_ticked_periodic:
  assumes "periodic st cpu t ps"
  shows "\<exists>r. timer_ticked hres cpu st t in_ticks xs = Some (tick_all t (conv_ticks in_ticks) st ps, r)"
  using tick_loop_periodic [OF assms, of 0 hres "conv_ticks in_ticks" 0 xs] by (auto simp: timer_ticked_def)

section \<open>Properties\<close>


text \<open>\<open>n\<close> ticks in a row.\<close>

primrec ticks_run :: "(ptr \<Rightarrow> u64 \<Rightarrow> int) \<Rightarrow> u32 \<Rightarrow> timers \<Rightarrow> ptr \<Rightarrow> u32 \<Rightarrow> nat \<Rightarrow> timers option" where
  "ticks_run hres cpu st t in_ticks 0 = Some st"
| "ticks_run hres cpu st t in_ticks (Suc n) = do {
     (st, _) \<leftarrow> timer_ticked hres cpu st t in_ticks [];
     ticks_run hres cpu st t in_ticks n
   }"

lemma ticks_run_extends:
  "periodic st cpu t ps \<Longrightarrow> \<exists>st' new. ticks_run hres cpu st t in_ticks n = Some st' \<and> calls st' = calls st @ new"
proof (induction n arbitrary: st)
  case (Suc n)
  then obtain r where r: "timer_ticked hres cpu st t in_ticks [] = Some (tick_all t (conv_ticks in_ticks) st ps, r)"
    using timer_ticked_periodic by blast
  have "distinct ps"
    using Suc.prems by (simp add: periodic_def)
  then show ?case
    using Suc.IH [OF periodic_tick_all [OF Suc.prems, of "conv_ticks in_ticks" ps]] r by (auto simp: tick_all_calls)
qed simp

lemma ticks_run_fires:
  assumes "periodic st cpu t ps" "p \<in> set ps" "tim (cells (metas st) p) = t" "0 < n"
    "unat (ticks (cells (metas st) p)) \<le> n * unat (conv_ticks in_ticks)"
  shows "\<exists>st' new tk. ticks_run hres cpu st t in_ticks n = Some st' \<and> calls st' = calls st @ new \<and>
    Local (th (cells (metas st) p)) tk \<in> set new"
  using assms
proof (induction n arbitrary: st)
  case (Suc n)
  define tk where "tk = conv_ticks in_ticks"
  define st1 where "st1 = tick_all t tk st ps"
  obtain r where r: "timer_ticked hres cpu st t in_ticks [] = Some (st1, r)"
    using timer_ticked_periodic [OF Suc.prems(1)] unfolding st1_def tk_def by blast
  have d: "distinct ps"
    using Suc.prems(1) by (simp add: periodic_def)
  have per: "periodic st1 cpu t ps"
    by (simp add: st1_def periodic_tick_all Suc.prems(1))
  have calls: "calls st1 = calls st @ concat (map (\<lambda>p. fired t tk (cells (metas st) p)) ps)"
    using d by (simp add: st1_def tick_all_calls)
  show ?case
  proof (cases "ticks (cells (metas st) p) \<le> tk")
    case True
    with Suc.prems(2,3) have "Local (th (cells (metas st) p)) (max tk (orig_ticks (cells (metas st) p))) \<in>
        set (concat (map (\<lambda>p. fired t tk (cells (metas st) p)) ps))"
      by (auto simp: fired_def)
    with ticks_run_extends [OF per, of hres in_ticks n] r calls show ?thesis
      by fastforce
  next
    case False
    then have pm: "cells (metas st1) p = (cells (metas st) p)\<lparr>ticks := ticks (cells (metas st) p) - tk\<rparr>"
      using Suc.prems(2,3) d by (simp add: st1_def tick_all_metas ticked_def)
    have "unat (ticks (cells (metas st) p) - tk) = unat (ticks (cells (metas st) p)) - unat tk"
      using False by (intro unat_sub) simp
    then have "unat (ticks (cells (metas st1) p)) \<le> n * unat tk"
      using Suc.prems(5) pm by (simp add: tk_def)
    moreover have "0 < n"
      using False Suc.prems(5) by (cases n) (auto simp: tk_def word_le_nat_alt)
    ultimately show ?thesis
      using Suc.IH [OF per Suc.prems(2)] Suc.prems(3) pm r calls by (fastforce simp: tk_def)
  qed
qed simp


text \<open>
  Removing the only handler faults: \<open>remove_timer\<close> passes the index behind the handler to \<open>list_remove\<close>,
  which takes the last node for it and follows its \<open>prev\<close> link, which \<open>list_insert\<close> never set.
\<close>
theorem remove_timer_only_handler:
  assumes "list_rep (tlists st) (timer_list st) [n] [p]" "p \<noteq> NULL" "valid (metas st) p" "th (cells (metas st) p) = fn"
    "\<not> valid (lnodes (tlists st)) (ln_prev (cells (lnodes (tlists st)) n))"
  shows "remove_timer st fn = None"
proof -
  have "list_remove (tlists st) (timer_list st) 1 = None"
    using list_remove_back_prev [OF assms(1), of 1] assms(5) by simp
  moreover have "timer_list st \<noteq> NULL"
    using assms(1) by (auto simp: list_rep_def)
  ultimately show ?thesis
    using assms(1-4) by (simp add: remove_timer_def remove_loop.simps list_at_rep heap_simps)
qed

text \<open>A millisecond timer at 0x30 with one handler, 3 ms from being called; its list node is at 0x20.\<close>

definition example_timers :: timers where
  "example_timers = \<lparr>
     tlists = \<lparr>lists = \<lparr>cells = (\<lambda>_. \<lparr>ll_len = 1, ll_head = 0x20, ll_tail = 0x20\<rparr>), live = {0x10}\<rparr>,
       lnodes = \<lparr>cells = (\<lambda>_. \<lparr>ln_p = 0x40, ln_next = 0, ln_prev = 0\<rparr>), live = {0x20}\<rparr>\<rparr>,
     hw = \<lparr>cells = (\<lambda>_. \<lparr>timer_res = 0x1004, timer_feat = 2, tmr_cpu = 0, timer_init = 0x99\<rparr>), live = {0x30}\<rparr>,
     metas = \<lparr>cells = (\<lambda>_. \<lparr>tim = 0x30, th = 0x77, ticks = 3000000, orig_ticks = 10000000, feat = 2, th_cpu = 0\<rparr>),
       live = {0x40}\<rparr>,
     cross = \<lparr>cells = (\<lambda>_. \<lparr>x_th = 0, x_ticks = 0\<rparr>), live = {}\<rparr>,
     timer_list = 0x10, hwtimer_list = 0, calls = []\<rparr>"

lemma example_timers_rep: "list_rep (tlists example_timers) (timer_list example_timers) [0x20] [0x40]"
  by (simp add: list_rep_def example_timers_def valid_def lval_def)

lemma example_timers_periodic: "periodic example_timers 0 0x30 [0x40]"
  using example_timers_rep
  by (auto simp: periodic_def) (simp_all add: example_timers_def valid_def TIMERFEAT_PERIODIC_def)



theorem remove_timer_only_handler_witness: "remove_timer example_timers 0x77 = None"
  using remove_timer_only_handler [OF example_timers_rep, of "0x77"] by (simp add: example_timers_def valid_def)

end
