(* ===== verification/Forge_Spinlock.thy ===== *)
theory Forge_Spinlock
  imports Forge_Heap
begin

text \<open>
  The spinlocks of \<open>src/src/kernel/spinlock.c\<close>. The functions describe one processor running alone: waiting
  for a lock that is taken never ends, so there they have no result, as in the panic on a machine with one
  processor. \<open>lock_step\<close> splits acquiring and releasing one lock into its memory accesses and interleaves
  them on any number of processors.
\<close>

section \<open>Model of spinlock.c\<close>

record spinlock =
  locked :: u32
  wasints :: u8
  isstatic :: u8

text \<open>The locks, the interrupt flag of each processor and the number of processors.\<close>

record locksys =
  locks :: "spinlock heap"
  ints :: "u32 \<Rightarrow> bool"
  cpu_count :: u32

definition set_ints :: "locksys \<Rightarrow> u32 \<Rightarrow> bool \<Rightarrow> locksys" where
  "set_ints ls cpu b = ls\<lparr>ints := (ints ls)(cpu := b)\<rparr>"

definition no_lock :: spinlock where
  "no_lock = \<lparr>locked = 0, wasints = 0, isstatic = 0\<rparr>"

definition create_spinlock :: "locksys \<Rightarrow> ptr \<Rightarrow> (locksys \<times> ptr) option" where
  "create_spinlock ls r = do {
     let h = malloc (locks ls) r;
     h \<leftarrow> upd h r (\<lambda>_. no_lock);
     Some (ls\<lparr>locks := h\<rparr>, r)
   }"

text \<open>\<open>sizeof(struct spinlock)\<close> is 8.\<close>

definition create_spinlock_at :: "locksys \<Rightarrow> ptr \<Rightarrow> u32 \<Rightarrow> (locksys \<times> ptr) option" where
  "create_spinlock_at ls region size' =
     (if size' \<ge> 8 then do { h \<leftarrow> upd (locks ls) region (\<lambda>_. no_lock); Some (ls\<lparr>locks := h\<rparr>, region) } else None)"

definition delete_spinlock :: "locksys \<Rightarrow> ptr \<Rightarrow> locksys option" where
  "delete_spinlock ls s =
     (if s = NULL then Some ls
      else do {
        h \<leftarrow> upd (locks ls) s (\<lambda>l. l\<lparr>locked := 0\<rparr>);
        h \<leftarrow> free h s;
        Some (ls\<lparr>locks := h\<rparr>)
      })"

text \<open>\<open>locked\<close> is the first field of the structure.\<close>

definition spinlock_getatom :: "ptr \<Rightarrow> ptr" where
  "spinlock_getatom s = (if s = NULL then NULL else s)"

definition spinlock_intstate :: "locksys \<Rightarrow> ptr \<Rightarrow> u8 option" where
  "spinlock_intstate ls s = (if s = NULL then Some 0 else do { l \<leftarrow> load (locks ls) s; Some (wasints l) })"

definition spinlock_acquire :: "locksys \<Rightarrow> u32 \<Rightarrow> ptr \<Rightarrow> locksys option" where
  "spinlock_acquire ls cpu s =
     (if s = NULL then Some ls
      else do {
        let w = of_bool (ints ls cpu);
        let ls = set_ints ls cpu False;
        l \<leftarrow> load (locks ls) s;
        if locked l \<noteq> 0 then None
        else do {
          h \<leftarrow> upd (locks ls) s (\<lambda>l. l\<lparr>locked := 1\<rparr>);
          h \<leftarrow> upd h s (\<lambda>l. l\<lparr>wasints := w\<rparr>);
          Some (ls\<lparr>locks := h\<rparr>)
        }
      })"

definition spinlock_release :: "locksys \<Rightarrow> u32 \<Rightarrow> ptr \<Rightarrow> locksys option" where
  "spinlock_release ls cpu s =
     (if s = NULL then Some ls
      else if ints ls cpu \<and> cpu_count ls = 1 then None
      else do {
        l \<leftarrow> load (locks ls) s;
        if locked l = 0 then None
        else do {
          let w = wasints l;
          if locked l \<noteq> 1 then None
          else do {
            h \<leftarrow> upd (locks ls) s (\<lambda>l. l\<lparr>locked := 0\<rparr>);
            Some (set_ints (ls\<lparr>locks := h\<rparr>) cpu (w \<noteq> 0))
          }
        }
      })"

section \<open>Many processors\<close>

text \<open>
  Where a processor is: outside; in the loop of \<open>spinlock_acquire\<close>; behind the exchange; in the critical
  section; in \<open>spinlock_release\<close> before and behind the exchange. The argument is the local \<open>wasints\<close>.
\<close>

datatype lock_pc = Outside | Spinning u8 | Swapped u8 | Critical | Releasing u8 | Released u8

text \<open>\<open>entry\<close> remembers the interrupt flag with which a processor called \<open>spinlock_acquire\<close>.\<close>

record lock_state =
  sl :: spinlock
  lpc :: "u32 \<Rightarrow> lock_pc"
  ifl :: "u32 \<Rightarrow> bool"
  entry :: "u32 \<Rightarrow> bool"

inductive lock_step :: "u32 \<Rightarrow> lock_state \<Rightarrow> lock_state \<Rightarrow> bool" for cpus where
  flag: "lpc s c = Outside \<Longrightarrow> lock_step cpus s (s\<lparr>ifl := (ifl s)(c := b)\<rparr>)"
| enter: "lpc s c = Outside \<Longrightarrow>
    lock_step cpus s (s\<lparr>lpc := (lpc s)(c := Spinning (of_bool (ifl s c))), ifl := (ifl s)(c := False),
      entry := (entry s)(c := ifl s c)\<rparr>)"
| swap: "lpc s c = Spinning w \<Longrightarrow> locked (sl s) = 0 \<Longrightarrow>
    lock_step cpus s (s\<lparr>sl := (sl s)\<lparr>locked := 1\<rparr>, lpc := (lpc s)(c := Swapped w)\<rparr>)"
| spin: "lpc s c = Spinning w \<Longrightarrow> locked (sl s) \<noteq> 0 \<Longrightarrow> cpus \<noteq> 1 \<Longrightarrow> lock_step cpus s s"
| store: "lpc s c = Swapped w \<Longrightarrow>
    lock_step cpus s (s\<lparr>sl := (sl s)\<lparr>wasints := w\<rparr>, lpc := (lpc s)(c := Critical)\<rparr>)"
| leave: "lpc s c = Critical \<Longrightarrow> \<not> (ifl s c \<and> cpus = 1) \<Longrightarrow> locked (sl s) \<noteq> 0 \<Longrightarrow>
    lock_step cpus s (s\<lparr>lpc := (lpc s)(c := Releasing (wasints (sl s)))\<rparr>)"
| unlock: "lpc s c = Releasing w \<Longrightarrow> locked (sl s) = 1 \<Longrightarrow>
    lock_step cpus s (s\<lparr>sl := (sl s)\<lparr>locked := 0\<rparr>, lpc := (lpc s)(c := Released w)\<rparr>)"
| restore: "lpc s c = Released w \<Longrightarrow>
    lock_step cpus s (s\<lparr>lpc := (lpc s)(c := Outside), ifl := (ifl s)(c := w \<noteq> 0)\<rparr>)"

inductive_cases lock_stepE: "lock_step cpus s s'"

definition lock_start :: "lock_state \<Rightarrow> bool" where
  "lock_start s \<longleftrightarrow> sl s = no_lock \<and> (\<forall>c. lpc s c = Outside)"

fun holds :: "lock_pc \<Rightarrow> bool" where
  "holds (Swapped _) = True"
| "holds Critical = True"
| "holds (Releasing _) = True"
| "holds _ = False"

text \<open>The saved flag, wherever it is at the moment.\<close>

fun saved :: "spinlock \<Rightarrow> lock_pc \<Rightarrow> u8 option" where
  "saved l Outside = None"
| "saved l (Spinning w) = Some w"
| "saved l (Swapped w) = Some w"
| "saved l Critical = Some (wasints l)"
| "saved l (Releasing w) = Some w"
| "saved l (Released w) = Some w"

definition lock_inv :: "lock_state \<Rightarrow> bool" where
  "lock_inv s \<longleftrightarrow>
     (\<forall>c d. holds (lpc s c) \<and> holds (lpc s d) \<longrightarrow> c = d) \<and>
     locked (sl s) = of_bool (\<exists>c. holds (lpc s c)) \<and>
     (\<forall>c. lpc s c \<noteq> Outside \<longrightarrow> \<not> ifl s c) \<and>
     (\<forall>c w. saved (sl s) (lpc s c) = Some w \<longrightarrow> w = of_bool (entry s c))"

lemma lock_start_inv: "lock_start s \<Longrightarrow> lock_inv s"
  by (auto simp: lock_start_def lock_inv_def no_lock_def)

lemma saved_locked [simp]: "saved (l\<lparr>locked := x\<rparr>) = saved l"
  by (rule ext, rename_tac p, case_tac p) auto

lemma saved_wasints: "p \<noteq> Critical \<Longrightarrow> saved (l\<lparr>wasints := x\<rparr>) p = saved l p"
  by (cases p) auto

lemma holder_unique: "lock_inv s \<Longrightarrow> holds (lpc s c) \<Longrightarrow> holds (lpc s d) \<Longrightarrow> c = d"
  by (simp add: lock_inv_def)

lemma ex_holds_upd: "(\<exists>d. holds (if d = c then x else f d)) \<longleftrightarrow> holds x \<or> (\<exists>d. d \<noteq> c \<and> holds (f d))"
  by auto

lemma lock_invD:
  assumes "lock_inv s"
  shows "holds (lpc s c) \<Longrightarrow> locked (sl s) = 1" "locked (sl s) = 0 \<Longrightarrow> \<not> holds (lpc s c)"
    "lpc s c \<noteq> Outside \<Longrightarrow> \<not> ifl s c" "saved (sl s) (lpc s c) = Some w \<Longrightarrow> w = of_bool (entry s c)"
  using assms by (auto simp: lock_inv_def)

lemma lock_inv_step: "lock_step cpus s s' \<Longrightarrow> lock_inv s \<Longrightarrow> lock_inv s'"
proof (induction rule: lock_step.induct)
  case (flag s c b)
  then show ?case
    by (simp add: lock_inv_def)
next
  case (enter s c)
  then have "(\<exists>d. d \<noteq> c \<and> holds (lpc s d)) \<longleftrightarrow> (\<exists>d. holds (lpc s d))"
    by (metis holds.simps(4))
  with enter show ?case
    by (simp add: lock_inv_def ex_holds_upd)
next
  case (swap s c w)
  then have "\<not> holds (lpc s d)" for d
    using lock_invD(2) by blast
  with swap lock_invD(3,4) [OF swap.prems] show ?case
    by (simp add: lock_inv_def ex_holds_upd)
next
  case (store s c w)
  then have "d \<noteq> c \<Longrightarrow> \<not> holds (lpc s d)" for d
    using holder_unique [of s c d] by auto
  moreover from this have "d \<noteq> c \<Longrightarrow> lpc s d \<noteq> Critical" for d
    by (metis holds.simps(2))
  moreover have "locked (sl s) = 1" "w = of_bool (entry s c)" "\<not> ifl s c"
    using lock_invD [OF store.prems, of c] store.hyps by simp_all
  ultimately show ?case
    using lock_invD(3,4) [OF store.prems] by (simp add: lock_inv_def ex_holds_upd saved_wasints)
next
  case (leave s c)
  then have "d \<noteq> c \<Longrightarrow> \<not> holds (lpc s d)" for d
    using holder_unique [of s c d] by auto
  moreover have "locked (sl s) = 1" "wasints (sl s) = of_bool (entry s c)" "\<not> ifl s c"
    using lock_invD [OF leave.prems, of c] leave.hyps by simp_all
  ultimately show ?case
    using lock_invD(3,4) [OF leave.prems] by (simp add: lock_inv_def ex_holds_upd)
next
  case (unlock s c w)
  then have "d \<noteq> c \<Longrightarrow> \<not> holds (lpc s d)" for d
    using holder_unique [of s c d] by auto
  moreover have "w = of_bool (entry s c)" "\<not> ifl s c"
    using lock_invD [OF unlock.prems, of c] unlock.hyps by simp_all
  ultimately show ?case
    using lock_invD(3,4) [OF unlock.prems] by (simp add: lock_inv_def ex_holds_upd) blast
next
  case (restore s c w)
  then have "(\<exists>d. d \<noteq> c \<and> holds (lpc s d)) \<longleftrightarrow> (\<exists>d. holds (lpc s d))"
    by (metis holds.simps(6))
  with restore show ?case
    by (simp add: lock_inv_def ex_holds_upd)
qed

lemma lock_inv_reachable: "lock_start s \<Longrightarrow> (lock_step cpus)\<^sup>*\<^sup>* s s' \<Longrightarrow> lock_inv s'"
  by (rotate_tac, induction rule: rtranclp_induct) (auto intro: lock_start_inv lock_inv_step)

text \<open>The function of a processor that runs alone takes the steps of the relation.\<close>

definition one_lock :: "locksys \<Rightarrow> ptr \<Rightarrow> (u32 \<Rightarrow> lock_pc) \<Rightarrow> (u32 \<Rightarrow> bool) \<Rightarrow> lock_state" where
  "one_lock ls p pcs es = \<lparr>sl = cells (locks ls) p, lpc = pcs, ifl = ints ls, entry = es\<rparr>"

lemma spinlock_acquire_steps:
  assumes "spinlock_acquire ls c p = Some ls'" "p \<noteq> NULL" "pcs c = Outside"
  shows "(lock_step cpus)\<^sup>*\<^sup>* (one_lock ls p pcs es) (one_lock ls' p (pcs(c := Critical)) (es(c := ints ls c)))"
proof -
  let ?w = "of_bool (ints ls c)"
  let ?s = "one_lock ls p pcs es"
  let ?s1 = "?s\<lparr>lpc := pcs(c := Spinning ?w), ifl := (ints ls)(c := False), entry := es(c := ints ls c)\<rparr>"
  let ?s2 = "?s1\<lparr>sl := (sl ?s)\<lparr>locked := 1\<rparr>, lpc := pcs(c := Swapped ?w)\<rparr>"
  have l: "valid (locks ls) p" "locked (cells (locks ls) p) = 0"
    using assms(1,2) by (auto simp: spinlock_acquire_def set_ints_def load_def Let_def split: if_splits)
  have "(lock_step cpus)\<^sup>*\<^sup>* ?s ?s1"
    using r_into_rtranclp [of "lock_step cpus" ?s ?s1] lock_step.enter [of ?s c cpus] assms(3) by (simp add: one_lock_def)
  also have "lock_step cpus ?s1 ?s2"
    using lock_step.swap [of ?s1 c ?w cpus] l by (simp add: one_lock_def)
  also have "lock_step cpus ?s2 (one_lock ls' p (pcs(c := Critical)) (es(c := ints ls c)))"
    using lock_step.store [of ?s2 c ?w cpus] assms(1,2) l
    by (auto simp: one_lock_def spinlock_acquire_def set_ints_def heap_simps Let_def)
  finally show ?thesis .
qed

section \<open>A lock used by one processor\<close>

definition lock_free :: "locksys \<Rightarrow> ptr \<Rightarrow> bool" where
  "lock_free ls s \<longleftrightarrow> valid (locks ls) s \<and> locked (cells (locks ls) s) = 0"

definition with_lock :: "locksys \<Rightarrow> u32 \<Rightarrow> ptr \<Rightarrow> u32 \<Rightarrow> bool \<Rightarrow> locksys" where
  "with_lock ls cpu s x b =
     ls\<lparr>locks := (locks ls)\<lparr>cells := (cells (locks ls))(s := (cells (locks ls) s)\<lparr>wasints := of_bool (ints ls cpu), locked := x\<rparr>)\<rparr>,
        ints := (ints ls)(cpu := b)\<rparr>"

lemma lock_update_order:
  "l\<lparr>locked := x, wasints := w\<rparr> = l\<lparr>wasints := w, locked := x\<rparr>"
  "ls\<lparr>ints := i, locks := k\<rparr> = ls\<lparr>locks := k, ints := i\<rparr>"
  by simp_all

lemma spinlock_acquire_free: "lock_free ls s \<Longrightarrow> spinlock_acquire ls cpu s = Some (with_lock ls cpu s 1 False)"
  by (auto simp: lock_free_def spinlock_acquire_def set_ints_def heap_simps with_lock_def Let_def lock_update_order)

lemma spinlock_release_taken:
  "lock_free ls s \<Longrightarrow> spinlock_release (with_lock ls cpu s 1 False) cpu s = Some (with_lock ls cpu s 0 (ints ls cpu))"
  by (auto simp: lock_free_def spinlock_release_def set_ints_def heap_simps with_lock_def Let_def)

lemma with_lock_facts [simp]:
  "lock_free ls s \<Longrightarrow> lock_free (with_lock ls cpu s 0 b) s"
  "b = ints ls cpu \<Longrightarrow> ints (with_lock ls cpu s x b) = ints ls"
  "set_ints (with_lock ls cpu s x b) cpu c = with_lock ls cpu s x c"
  by (auto simp: lock_free_def with_lock_def set_ints_def)

section \<open>Properties\<close>

text \<open>
  C28. However the accesses of the processors interleave, at most one processor is in the critical section of a
  spinlock. It runs there with its interrupts off and the lock taken, so neither the assertion nor the panic
  of \<open>spinlock_release\<close> can happen, and the lock holds the interrupt flag that this processor came with.
\<close>
theorem spinlock_exclusive:
  assumes "lock_start s0" "(lock_step cpus)\<^sup>*\<^sup>* s0 s" "lpc s c = Critical"
  shows "locked (sl s) = 1 \<and> \<not> ifl s c \<and> wasints (sl s) = of_bool (entry s c) \<and>
    (\<forall>d. lpc s d = Critical \<longrightarrow> d = c)"
proof -
  have inv: "lock_inv s"
    using lock_inv_reachable [OF assms(1,2)] .
  then have "\<exists>d. holds (lpc s d)" "\<forall>d. lpc s d = Critical \<longrightarrow> d = c"
    using assms(3) holder_unique [OF inv] by (metis holds.simps(2))+
  then show ?thesis
    using inv assms(3) by (auto simp: lock_inv_def)
qed

definition example_lock :: locksys where
  "example_lock = \<lparr>locks = \<lparr>cells = (\<lambda>_. no_lock), live = {0x10}\<rparr>, ints = (\<lambda>_. True), cpu_count = 2\<rparr>"

text \<open>Processor 1 acquires a free lock.\<close>

theorem spinlock_exclusive_witness:
  "\<exists>s0 s. lock_start s0 \<and> (lock_step 2)\<^sup>*\<^sup>* s0 s \<and> lpc s 1 = Critical \<and> locked (sl s) = 1 \<and> wasints (sl s) = 1"
proof -
  define s0 where "s0 = one_lock example_lock 0x10 (\<lambda>_. Outside) (\<lambda>_. False)"
  have s0: "lock_start s0"
    by (simp add: s0_def lock_start_def one_lock_def example_lock_def)
  obtain ls where "spinlock_acquire example_lock 1 0x10 = Some ls"
    by (simp add: spinlock_acquire_def example_lock_def set_ints_def heap_simps valid_def no_lock_def Let_def)
  then have steps: "(lock_step 2)\<^sup>*\<^sup>* s0 (one_lock ls 0x10 ((\<lambda>_. Outside)(1 := Critical)) ((\<lambda>_. False)(1 := ints example_lock 1)))"
    unfolding s0_def by (rule spinlock_acquire_steps) simp_all
  from spinlock_exclusive [OF s0 steps, of 1] have "locked (cells (locks ls) 0x10) = 1" "wasints (cells (locks ls) 0x10) = 1"
    by (simp_all add: one_lock_def example_lock_def)
  with s0 steps show ?thesis
    by (intro exI [of _ s0] exI [of _ "one_lock ls 0x10 ((\<lambda>_. Outside)(1 := Critical)) ((\<lambda>_. False)(1 := ints example_lock 1))"])
      (simp add: one_lock_def)
qed

end
