(* ===== verification/Forge_Sched.thy ===== *)
theory Forge_Sched
  imports Forge_Queue Forge_List Forge_Context Forge_Spinlock Forge_Timer
begin

text \<open>
  The scheduler, \<open>src/src/kernel/sched.c\<close>: threads and processes, the ready queue and the zombie queue over
  the queues of \<open>Forge_Queue\<close>, and the per-processor current and idle threads. Which saved context a
  processor runs is the field \<open>active\<close>; \<open>Forge_Context\<close> says what is in a context. A call that switches
  to another context does not return to its caller before that context is restored, so such a call ends with
  \<open>Switched\<close>. The parts of the file under \<open>#if 0\<close> are not compiled and not modelled.
\<close>

section \<open>State\<close>

record thread =
  t_ctx :: ptr
  t_state :: u32
  timeslice :: u64
  base_priority :: u32
  priority :: u32
  isidle :: u8
  t_parent :: ptr

text \<open>\<open>pnext\<close> follows the 64 bytes of \<open>pname\<close>, so a terminator behind the name ends up in its low byte.\<close>

record process =
  pname :: "u8 list"
  pnext :: ptr
  child_list :: ptr
  thread_list :: ptr
  pid :: u32

record sched =
  threads :: "thread heap"
  procs :: "process heap"
  s_qs :: qmem
  s_lists :: lmem
  s_ctx :: ctxsys
  s_locks :: locksys
  s_timers :: timers
  ready_queue :: ptr
  zombie_queue :: ptr
  sched_spinlock :: ptr
  g_idle_thread :: ptr
  nextpid :: u32
  numready :: u32
  priolevel :: u32
  cur :: "u32 \<Rightarrow> ptr"
  idl :: "u32 \<Rightarrow> ptr"
  active :: "u32 \<Rightarrow> ptr"

definition THREAD_STATE_RUNNING :: u32 where "THREAD_STATE_RUNNING = 0"
definition THREAD_STATE_READY :: u32 where "THREAD_STATE_READY = 1"
definition THREAD_STATE_ZOMBIE :: u32 where "THREAD_STATE_ZOMBIE = 2"
definition THREAD_STATE_SLEEPING :: u32 where "THREAD_STATE_SLEEPING = 3"
definition THREAD_PRIORITY_LOW :: u32 where "THREAD_PRIORITY_LOW = 79"
definition THREAD_DEFAULT_TIMESLICE_MS :: u32 where "THREAD_DEFAULT_TIMESLICE_MS = 10"
definition THREAD_DEFAULT_TIMESLICE :: u64 where "THREAD_DEFAULT_TIMESLICE = 10000000"
definition PROCESS_NAME_MAX :: nat where "PROCESS_NAME_MAX = 64"
definition QUEUE_COUNT :: u32 where "QUEUE_COUNT = THREAD_PRIORITY_LOW + 1"

text \<open>\<open>"<untitled process>"\<close>\<close>

definition DEFAULT_PROCESS_NAME :: "u8 list" where
  "DEFAULT_PROCESS_NAME = [60, 117, 110, 116, 105, 116, 108, 101, 100, 32, 112, 114, 111, 99, 101, 115, 115, 62]"

datatype resched_idle = RESCHED_IDLE_RETURN | RESCHED_IDLE_RUNTHREAD | RESCHED_IDLE_RUNTHREAD_RESTORE

datatype outcome = Returned | Switched

section \<open>Model of sched.c\<close>

definition set_current_thread :: "sched \<Rightarrow> u32 \<Rightarrow> ptr \<Rightarrow> sched" where
  "set_current_thread st cpu t = st\<lparr>cur := (cur st)(cpu := t)\<rparr>"

definition set_idle_thread :: "sched \<Rightarrow> u32 \<Rightarrow> ptr \<Rightarrow> sched" where
  "set_idle_thread st cpu t = st\<lparr>idl := (idl st)(cpu := t)\<rparr>"

definition sched_ints :: "sched \<Rightarrow> u32 \<Rightarrow> bool \<Rightarrow> sched" where
  "sched_ints st cpu b = st\<lparr>s_locks := set_ints (s_locks st) cpu b\<rparr>"

definition thr_upd :: "sched \<Rightarrow> ptr \<Rightarrow> (thread \<Rightarrow> thread) \<Rightarrow> sched option" where
  "thr_upd st t f = do { h \<leftarrow> upd (threads st) t f; Some (st\<lparr>threads := h\<rparr>) }"

definition sched_timer :: "sched \<Rightarrow> u32 \<Rightarrow> u64 \<Rightarrow> (sched \<times> int) option" where
  "sched_timer st cpu tk = do {
     t \<leftarrow> load (threads st) (cur st cpu);
     let tk = (if tk > timeslice t then timeslice t else tk);
     st \<leftarrow> thr_upd st (cur st cpu) (\<lambda>t. t\<lparr>timeslice := timeslice t - tk\<rparr>);
     t \<leftarrow> load (threads st) (cur st cpu);
     Some (st, if timeslice t \<noteq> 0 then 0 else 1)
   }"

text \<open>One element of \<open>news\<close> for every thread that is cleaned up: what its stack pages need.\<close>

definition reap :: "sched \<Rightarrow> ptr \<Rightarrow> pm_alloc list \<Rightarrow> sched option" where
  "reap st thr al = do {
     t \<leftarrow> load (threads st) thr;
     cs \<leftarrow> destroy_context (s_ctx st) (t_ctx t) al;
     h \<leftarrow> free (ctxs cs) (t_ctx t);
     th \<leftarrow> free (threads st) thr;
     Some (st\<lparr>s_ctx := cs\<lparr>ctxs := h\<rparr>, threads := th\<rparr>)
   }"

partial_function (option) reaper_loop :: "sched \<Rightarrow> pm_alloc list list \<Rightarrow> sched option" where
  "reaper_loop st news = do {
     e \<leftarrow> queue_empty (s_qs st) (zombie_queue st);
     if e then Some st
     else do {
       (qs, thr) \<leftarrow> queue_pop (s_qs st) (zombie_queue st);
       st \<leftarrow> reap (st\<lparr>s_qs := qs\<rparr>) thr (case news of [] \<Rightarrow> [] | al # _ \<Rightarrow> al);
       reaper_loop st (tl news)
     }
   }"

definition zombie_reaper :: "sched \<Rightarrow> pm_alloc list list \<Rightarrow> (sched \<times> int) option" where
  "zombie_reaper st news =
     (if zombie_queue st = NULL then Some (st, 0)
      else do { st \<leftarrow> reaper_loop st news; Some (st, 0) })"

definition sched_current_thread :: "sched \<Rightarrow> u32 \<Rightarrow> ptr" where
  "sched_current_thread st cpu = cur st cpu"

definition sched_setidle :: "sched \<Rightarrow> u32 \<Rightarrow> ptr \<Rightarrow> sched option" where
  "sched_setidle st cpu t = do {
     let st = st\<lparr>g_idle_thread := t\<rparr>;
     st \<leftarrow> thr_upd st t (\<lambda>t. t\<lparr>isidle := 1\<rparr>);
     Some (set_idle_thread st cpu t)
   }"

text \<open>\<open>fn\<close> is the address of \<open>sched_timer\<close>; a failure is only logged.\<close>

definition install_sched_timer :: "sched \<Rightarrow> u32 \<Rightarrow> ptr \<Rightarrow> ptr \<Rightarrow> ptr \<Rightarrow> ptr \<Rightarrow> sched option" where
  "install_sched_timer st cpu fn lp p n = do {
     (tm, _) \<leftarrow> install_timer (s_timers st) cpu fn
                 (push_bit TIMERRES_SHIFT THREAD_DEFAULT_TIMESLICE_MS OR TIMERRES_MILLI)
                 (TIMERFEAT_PERIODIC OR TIMERFEAT_PERCPU) lp p n;
     Some (st\<lparr>s_timers := tm\<rparr>)
   }"

definition switch_threads :: "sched \<Rightarrow> u32 \<Rightarrow> ptr \<Rightarrow> ptr \<Rightarrow> ptr \<Rightarrow> sched option" where
  "switch_threads st cpu old new lock = do {
     st \<leftarrow> (if old = NULL then do {
              let st = (if cur st cpu = NULL then set_current_thread st cpu new else st);
              thr_upd st new (\<lambda>t. t\<lparr>t_state := THREAD_STATE_RUNNING\<rparr>)
            } else do { _ \<leftarrow> load (threads st) old; Some st });
     t \<leftarrow> load (threads st) new;
     st \<leftarrow> (if spinlock_getatom lock = NULL then Some st
           else do {
             h \<leftarrow> upd (locks (s_locks st)) lock (\<lambda>l. l\<lparr>locked := locked l - 1\<rparr>);
             Some (st\<lparr>s_locks := (s_locks st)\<lparr>locks := h\<rparr>\<rparr>)
           });
     Some (st\<lparr>active := (active st)(cpu := t_ctx t)\<rparr>)
   }"

text \<open>\<open>None\<close> in the result: not idle, the caller goes on.\<close>

definition is_idle :: "sched \<Rightarrow> u32 \<Rightarrow> resched_idle \<Rightarrow> bool \<Rightarrow> ptr \<Rightarrow> (sched \<times> outcome option) option" where
  "is_idle st cpu act intstate lock = do {
     e \<leftarrow> queue_empty (s_qs st) (ready_queue st);
     if e \<and> (cur st cpu = idl st cpu \<and> act \<noteq> RESCHED_IDLE_RUNTHREAD_RESTORE \<or> act = RESCHED_IDLE_RETURN)
     then Some (st, Some Returned)
     else if e then do {
       st \<leftarrow> thr_upd st (idl st cpu) (\<lambda>t. t\<lparr>t_state := THREAD_STATE_RUNNING\<rparr>);
       st \<leftarrow> thr_upd st (idl st cpu) (\<lambda>t. t\<lparr>timeslice := THREAD_DEFAULT_TIMESLICE\<rparr>);
       if act = RESCHED_IDLE_RUNTHREAD_RESTORE \<or> cur st cpu \<noteq> idl st cpu then do {
         let tmp = cur st cpu;
         let st = set_current_thread st cpu (idl st cpu);
         st \<leftarrow> switch_threads st cpu tmp (idl st cpu) lock;
         Some (st, Some Switched)
       } else Some (if intstate then sched_ints st cpu True else st, Some Returned)
     } else Some (st, None)
   }"

text \<open>The current thread goes back to the ready queue if it still runs; \<open>n\<close> is for its queue node.\<close>

definition requeue_current :: "sched \<Rightarrow> u32 \<Rightarrow> ptr \<Rightarrow> sched option" where
  "requeue_current st cpu n =
     (if cur st cpu \<noteq> idl st cpu then do {
        t \<leftarrow> load (threads st) (cur st cpu);
        if t_state t = THREAD_STATE_RUNNING then do {
          st \<leftarrow> thr_upd st (cur st cpu) (\<lambda>t. t\<lparr>t_state := THREAD_STATE_READY\<rparr>);
          qs \<leftarrow> queue_push (s_qs st) (ready_queue st) (cur st cpu) n;
          Some (st\<lparr>s_qs := qs\<rparr>)
        } else Some st
      } else Some st)"

text \<open>The addresses for new queue nodes come as a list.\<close>

definition node :: "ptr list \<Rightarrow> nat \<Rightarrow> ptr" where
  "node ns i = (if i < length ns then ns ! i else NULL)"

text \<open>A thread that is taken from the ready queue without being ready.\<close>

definition bury :: "sched \<Rightarrow> ptr \<Rightarrow> u32 \<Rightarrow> ptr \<Rightarrow> sched option" where
  "bury st thr s n =
     (if s = THREAD_STATE_ZOMBIE then do {
        qs \<leftarrow> queue_push (s_qs st) (zombie_queue st) thr n;
        Some (st\<lparr>s_qs := qs\<rparr>)
      } else Some st)"

text \<open>What happens to the thread taken from the ready queue when it is ready.\<close>

definition run_thread :: "sched \<Rightarrow> u32 \<Rightarrow> ptr \<Rightarrow> bool \<Rightarrow> ptr \<Rightarrow> (sched \<times> outcome) option" where
  "run_thread st cpu thr intstate lock = do {
     st \<leftarrow> thr_upd st thr (\<lambda>t. t\<lparr>timeslice := THREAD_DEFAULT_TIMESLICE\<rparr>);
     st \<leftarrow> thr_upd st thr (\<lambda>t. t\<lparr>t_state := THREAD_STATE_RUNNING\<rparr>);
     if thr \<noteq> cur st cpu then do {
       _ \<leftarrow> load (threads st) (cur st cpu);
       let tmp = cur st cpu;
       let st = set_current_thread st cpu thr;
       st \<leftarrow> switch_threads st cpu tmp thr lock;
       Some (st, Switched)
     } else Some (if intstate then sched_ints st cpu True else st, Returned)
   }"

text \<open>
  \<open>ns\<close> are the addresses for queue nodes: the first for the current thread, the second for a zombie taken
  from the ready queue. The call at the end of the function is a recursion.
\<close>

partial_function (option) reschedule_internal ::
    "sched \<Rightarrow> u32 \<Rightarrow> resched_idle \<Rightarrow> ptr \<Rightarrow> ptr list \<Rightarrow> (sched \<times> outcome) option" where
  "reschedule_internal st cpu act lock ns =
     (if cur st cpu = NULL then Some (st, Returned)
      else do {
        let intstate = ints (s_locks st) cpu;
        let st = sched_ints st cpu False;
        st \<leftarrow> requeue_current st cpu (node ns 0);
        (st, r) \<leftarrow> is_idle st cpu act intstate lock;
        case r of
          Some Returned \<Rightarrow> Some (if intstate then sched_ints st cpu True else st, Returned)
        | Some Switched \<Rightarrow> Some (st, Switched)
        | None \<Rightarrow> do {
            (qs, thr) \<leftarrow> queue_pop (s_qs st) (ready_queue st);
            let st = st\<lparr>s_qs := qs\<rparr>;
            if thr = NULL then None
            else do {
              t \<leftarrow> load (threads st) thr;
              if t_state t \<noteq> THREAD_STATE_READY then do {
                st \<leftarrow> bury st thr (t_state t) (node ns 1);
                reschedule_internal (if intstate then sched_ints st cpu True else st) cpu RESCHED_IDLE_RUNTHREAD lock (drop 2 ns)
              } else run_thread st cpu thr intstate lock
            }
          }
      })"

definition sched_yield :: "sched \<Rightarrow> u32 \<Rightarrow> ptr list \<Rightarrow> (sched \<times> outcome) option" where
  "sched_yield st cpu ns = reschedule_internal st cpu RESCHED_IDLE_RETURN NULL ns"

definition reschedule :: "sched \<Rightarrow> u32 \<Rightarrow> ptr list \<Rightarrow> (sched \<times> outcome) option" where
  "reschedule st cpu ns = reschedule_internal st cpu RESCHED_IDLE_RUNTHREAD NULL ns"

definition zero_thread :: thread where
  "zero_thread = \<lparr>t_ctx = 0, t_state = 0, timeslice = 0, base_priority = 0, priority = 0, isidle = 0, t_parent = 0\<rparr>"

text \<open>
  \<open>t\<close>, \<open>c\<close> and \<open>ln\<close> are the addresses of the thread, of its context and of its node in the list of threads;
  \<open>tmr\<close> those for the timer, \<open>ns\<close> the queue nodes of the final call.
\<close>

definition sched_cpualive :: "sched \<Rightarrow> u32 \<Rightarrow> ptr \<Rightarrow> ptr \<Rightarrow> ptr \<Rightarrow> ptr \<Rightarrow> ptr \<times> ptr \<times> ptr \<times> ptr \<Rightarrow> ptr list \<Rightarrow> (sched \<times> outcome) option" where
  "sched_cpualive st cpu lock t c ln tmr ns =
     (if g_idle_thread st = NULL then Some (st, Returned)
      else do {
        let st = st\<lparr>threads := malloc (threads st) t\<rparr>;
        st \<leftarrow> thr_upd st t (\<lambda>_. zero_thread);
        g \<leftarrow> load (threads st) (g_idle_thread st);
        st \<leftarrow> thr_upd st t (\<lambda>x. x\<lparr>t_state := THREAD_STATE_READY, timeslice := THREAD_DEFAULT_TIMESLICE,
               t_parent := t_parent g, isidle := 1, base_priority := base_priority g, priority := priority g,
               t_ctx := c\<rparr>);
        cs \<leftarrow> clone_context ((s_ctx st)\<lparr>ctxs := malloc (ctxs (s_ctx st)) c\<rparr>) (t_ctx g) c;
        p \<leftarrow> load (procs st) (t_parent g);
        lm \<leftarrow> list_insert (s_lists st) (thread_list p) t 0 ln;
        let st = set_current_thread (set_idle_thread (st\<lparr>s_ctx := cs, s_lists := lm\<rparr>) cpu t) cpu t;
        let (fn, lp, p, n) = tmr;
        st \<leftarrow> install_sched_timer st cpu fn lp p n;
        reschedule_internal st cpu RESCHED_IDLE_RUNTHREAD_RESTORE lock ns
      })"

text \<open>\<open>strcpy\<close> or \<open>strncpy\<close> of a name into the zeroed structure.\<close>

definition store_name :: "u8 list \<Rightarrow> process \<Rightarrow> process" where
  "store_name name p =
     (let cs = take PROCESS_NAME_MAX name in
      if length cs < PROCESS_NAME_MAX then p\<lparr>pname := cs @ 0 # drop (Suc (length cs)) (pname p)\<rparr>
      else p\<lparr>pname := cs, pnext := pnext p AND NOT 0xFF\<rparr>)"

definition zero_process :: process where
  "zero_process = \<lparr>pname = replicate PROCESS_NAME_MAX 0, pnext = 0, child_list = 0, thread_list = 0, pid = 0\<rparr>"

text \<open>The name is the string without its terminator, if there is one; the addresses are those of the process,
  of its two lists, of a list of children for the parent and of a list node.\<close>

definition create_process :: "sched \<Rightarrow> u8 list option \<Rightarrow> ptr \<Rightarrow> ptr \<times> ptr \<times> ptr \<times> ptr \<times> ptr \<Rightarrow> (sched \<times> ptr) option" where
  "create_process st name parent = (\<lambda>(ret, l1, l2, l3, n). do {
     let h = malloc (procs st) ret;
     h \<leftarrow> upd h ret (\<lambda>_. zero_process);
     h \<leftarrow> upd h ret (store_name (case name of None \<Rightarrow> DEFAULT_PROCESS_NAME | Some s \<Rightarrow> s));
     h \<leftarrow> upd h ret (\<lambda>p. p\<lparr>pid := nextpid st\<rparr>);
     (lm, c) \<leftarrow> create_list (s_lists st) l1;
     (lm, t) \<leftarrow> create_list lm l2;
     h \<leftarrow> upd h ret (\<lambda>p. p\<lparr>child_list := c, thread_list := t\<rparr>);
     let st = st\<lparr>nextpid := nextpid st + 1\<rparr>;
     if parent \<noteq> NULL then do {
       p \<leftarrow> load h parent;
       (h, lm) \<leftarrow> (if child_list p = NULL then do {
                    (lm, l) \<leftarrow> create_list lm l3;
                    h \<leftarrow> upd h parent (\<lambda>p. p\<lparr>child_list := l\<rparr>);
                    Some (h, lm)
                  } else Some (h, lm));
       p \<leftarrow> load h parent;
       lm \<leftarrow> list_insert lm (child_list p) ret 0 n;
       Some (st\<lparr>procs := h, s_lists := lm\<rparr>, ret)
     } else Some (st\<lparr>procs := h, s_lists := lm\<rparr>, ret)
   })"

text \<open>\<open>tr\<close> is the address of \<open>thread_return\<close>; \<open>t\<close>, \<open>c\<close> and \<open>n\<close> are the addresses of the new objects.\<close>

definition create_thread :: "sched \<Rightarrow> ptr \<Rightarrow> u32 \<Rightarrow> u32 \<Rightarrow> u32 \<Rightarrow> u32 \<Rightarrow> u32 \<Rightarrow> u32 \<Rightarrow> ptr \<Rightarrow> ptr \<Rightarrow> ptr \<Rightarrow> (sched \<times> ptr) option" where
  "create_thread st parent prio start stack stacksz param tr t c n = do {
     let st = st\<lparr>threads := malloc (threads st) t\<rparr>;
     st \<leftarrow> thr_upd st t (\<lambda>_. zero_thread);
     st \<leftarrow> thr_upd st t (\<lambda>x. x\<lparr>t_state := THREAD_STATE_SLEEPING, timeslice := THREAD_DEFAULT_TIMESLICE,
            t_parent := parent, base_priority := prio, priority := prio, t_ctx := c\<rparr>);
     cs \<leftarrow> create_context ((s_ctx st)\<lparr>ctxs := malloc (ctxs (s_ctx st)) c\<rparr>) c start stack stacksz param tr;
     p \<leftarrow> load (procs st) parent;
     lm \<leftarrow> list_insert (s_lists st) (thread_list p) t 0 n;
     Some (st\<lparr>s_ctx := cs, s_lists := lm\<rparr>, t)
   }"

text \<open>\<open>thread_kill\<close> up to its call of \<open>reschedule\<close>, which must not return.\<close>

definition kill_mark :: "sched \<Rightarrow> u32 \<Rightarrow> ptr \<Rightarrow> sched option" where
  "kill_mark st cpu n =
     (if cur st cpu = NULL then None
      else do {
        st \<leftarrow> thr_upd st (cur st cpu) (\<lambda>t. t\<lparr>t_state := THREAD_STATE_ZOMBIE\<rparr>);
        qs \<leftarrow> queue_push (s_qs st) (zombie_queue st) (cur st cpu) n;
        Some (st\<lparr>s_qs := qs\<rparr>)
      })"

definition thread_kill :: "sched \<Rightarrow> u32 \<Rightarrow> ptr \<Rightarrow> ptr list \<Rightarrow> sched option" where
  "thread_kill st cpu n ns = do {
     st \<leftarrow> kill_mark st cpu n;
     (st, r) \<leftarrow> reschedule st cpu ns;
     (case r of Returned \<Rightarrow> None | Switched \<Rightarrow> Some st)
   }"

definition thread_return :: "sched \<Rightarrow> u32 \<Rightarrow> ptr \<Rightarrow> ptr list \<Rightarrow> sched option" where
  "thread_return st cpu n ns = thread_kill st cpu n ns"

definition thread_sleep :: "sched \<Rightarrow> u32 \<Rightarrow> ptr list \<Rightarrow> (sched \<times> outcome) option" where
  "thread_sleep st cpu ns =
     (if cur st cpu = NULL then None
      else do {
        st \<leftarrow> thr_upd st (cur st cpu) (\<lambda>t. t\<lparr>t_state := THREAD_STATE_SLEEPING\<rparr>);
        reschedule st cpu ns
      })"

definition thread_wake :: "sched \<Rightarrow> ptr \<Rightarrow> ptr \<Rightarrow> sched option" where
  "thread_wake st thr n =
     (if thr = NULL then None
      else do {
        qs \<leftarrow> queue_push (s_qs st) (ready_queue st) thr n;
        thr_upd (st\<lparr>s_qs := qs\<rparr>) thr (\<lambda>t. t\<lparr>t_state := THREAD_STATE_READY\<rparr>)
      })"

definition thread_priority :: "sched \<Rightarrow> u32 \<Rightarrow> ptr \<Rightarrow> u32 option" where
  "thread_priority st cpu t = do {
     t \<leftarrow> load (threads st) (if t = NULL then cur st cpu else t);
     Some (priority t)
   }"

text \<open>\<open>fn\<close>: the addresses of \<open>zombie_reaper\<close>; \<open>q1\<close>, \<open>b1\<close>, \<open>q2\<close>, \<open>b2\<close> are those of the queues and their
  first nodes, \<open>sp\<close> that of the lock, \<open>pp\<close> and \<open>pb\<close> those of the stack pool and its bitmap.\<close>

definition init_scheduler ::
    "sched \<Rightarrow> u32 \<Rightarrow> ptr \<times> ptr \<times> ptr \<times> ptr \<times> ptr \<Rightarrow> ptr \<times> ptr \<times> ptr \<Rightarrow> ptr \<times> ptr \<times> ptr \<times> ptr \<Rightarrow> ptr \<times> ptr \<Rightarrow> ptr \<times> ptr \<times> ptr \<times> ptr \<Rightarrow> ptr list \<Rightarrow> (sched \<times> outcome) option" where
  "init_scheduler st cpu = (\<lambda>(q1, b1, q2, b2, sp) (t, c, ln) tmr (pp, pb) (fn, lp, p, n) ns. do {
     (qs, z) \<leftarrow> create_queue (s_qs st) q1 b1;
     (ls, s) \<leftarrow> create_spinlock (s_locks st) sp;
     (qs, r) \<leftarrow> create_queue qs q2 b2;
     let st = st\<lparr>s_qs := qs, zombie_queue := z, s_locks := ls, sched_spinlock := s, ready_queue := r\<rparr>;
     (st, r) \<leftarrow> sched_cpualive st cpu NULL t c ln tmr ns;
     if r = Switched then Some (st, Switched)
     else do {
       cs \<leftarrow> init_context (s_ctx st) pp pb;
       let st = st\<lparr>s_ctx := cs, numready := 0\<rparr>;
       (tm, _) \<leftarrow> install_timer (s_timers st) cpu fn (push_bit TIMERRES_SHIFT 1 OR TIMERRES_SECONDS) TIMERFEAT_PERIODIC lp p n;
       Some (st\<lparr>s_timers := tm\<rparr>, Returned)
     }
   })"

definition start_scheduler :: "sched \<Rightarrow> u32 \<Rightarrow> ptr \<times> ptr \<times> ptr \<times> ptr \<Rightarrow> sched option" where
  "start_scheduler st cpu = (\<lambda>(fn, lp, p, n).
     if cur st cpu = NULL then None
     else do {
       ls \<leftarrow> spinlock_acquire (s_locks st) cpu (sched_spinlock st);
       st \<leftarrow> install_sched_timer (st\<lparr>s_locks := ls\<rparr>) cpu fn lp p n;
       ls \<leftarrow> spinlock_release (s_locks st) cpu (sched_spinlock st);
       Some (st\<lparr>s_locks := ls\<rparr>)
     })"

definition sched_kickstart :: "sched \<Rightarrow> u32 \<Rightarrow> ptr list \<Rightarrow> (sched \<times> outcome) option" where
  "sched_kickstart st cpu ns = reschedule (set_current_thread st cpu (idl st cpu)) cpu ns"

section \<open>Well-formed schedulers\<close>

text \<open>
  \<open>rs\<close> are the threads in the ready queue and \<open>zs\<close> those in the zombie queue, first ones first. They are
  threads, as are the current thread of the processor, if it has one, and its idle thread, and every thread
  is in one of the four states.
\<close>

definition legal_state :: "u32 \<Rightarrow> bool" where
  "legal_state s \<longleftrightarrow> s \<in> {THREAD_STATE_RUNNING, THREAD_STATE_READY, THREAD_STATE_ZOMBIE, THREAD_STATE_SLEEPING}"

definition two_queues :: "qmem \<Rightarrow> ptr \<Rightarrow> ptr \<Rightarrow> ptr list \<Rightarrow> ptr list \<Rightarrow> bool" where
  "two_queues m q r xs ys \<longleftrightarrow>
     q \<noteq> r \<and> (\<exists>d ns e ms. queue_rep m q d ns xs \<and> queue_rep m r e ms ys \<and> set (d # ns) \<inter> set (e # ms) = {})"

definition sched_rep :: "sched \<Rightarrow> u32 \<Rightarrow> ptr list \<Rightarrow> ptr list \<Rightarrow> bool" where
  "sched_rep st cpu rs zs \<longleftrightarrow>
     two_queues (s_qs st) (ready_queue st) (zombie_queue st) rs zs \<and>
     (\<forall>t \<in> set rs \<union> set zs. valid (threads st) t) \<and>
     (cur st cpu \<noteq> NULL \<longrightarrow> valid (threads st) (cur st cpu)) \<and> valid (threads st) (idl st cpu) \<and>
     (\<forall>t. valid (threads st) t \<longrightarrow> legal_state (t_state (cells (threads st) t)))"

definition new_nodes :: "sched \<Rightarrow> ptr list \<Rightarrow> bool" where
  "new_nodes st ns \<longleftrightarrow> distinct ns \<and> (\<forall>n \<in> set ns. fresh (qnodes (s_qs st)) n)"

lemma legal_states [simp]:
  "legal_state THREAD_STATE_RUNNING" "legal_state THREAD_STATE_READY"
  "legal_state THREAD_STATE_ZOMBIE" "legal_state THREAD_STATE_SLEEPING"
  by (simp_all add: legal_state_def)

lemma states_differ [simp]:
  "THREAD_STATE_RUNNING \<noteq> THREAD_STATE_READY" "THREAD_STATE_READY \<noteq> THREAD_STATE_RUNNING"
  "THREAD_STATE_ZOMBIE \<noteq> THREAD_STATE_READY" "THREAD_STATE_SLEEPING \<noteq> THREAD_STATE_READY"
  by (simp_all add: THREAD_STATE_RUNNING_def THREAD_STATE_READY_def THREAD_STATE_ZOMBIE_def THREAD_STATE_SLEEPING_def)

text \<open>Fields that do not matter for being well-formed.\<close>

lemma sched_rep_cong:
  assumes "sched_rep st cpu rs zs"
    and "s_qs st' = s_qs st" "ready_queue st' = ready_queue st" "zombie_queue st' = zombie_queue st"
    and "threads st' = threads st" "cur st' cpu = cur st cpu" "idl st' cpu = idl st cpu"
  shows "sched_rep st' cpu rs zs"
  using assms(1) unfolding sched_rep_def assms(2-) .

lemma thr_upd_rep:
  assumes "sched_rep st cpu rs zs" "valid (threads st) t" "legal_state (t_state (f (cells (threads st) t)))"
  shows "\<exists>st'. thr_upd st t f = Some st' \<and> sched_rep st' cpu rs zs \<and> live (threads st') = live (threads st) \<and>
    cells (threads st') = (cells (threads st))(t := f (cells (threads st) t)) \<and>
    st' = st\<lparr>threads := threads st'\<rparr>"
  using assms by (auto simp: thr_upd_def heap_simps sched_rep_def valid_def)

lemma sched_set_current:
  assumes "sched_rep st cpu rs zs" "valid (threads st) t"
  shows "sched_rep (set_current_thread st cpu t) cpu rs zs"
  using assms by (auto simp: sched_rep_def set_current_thread_def)

lemma two_queues_sym: "two_queues m q r xs ys \<longleftrightarrow> two_queues m r q ys xs"
  unfolding two_queues_def by blast

lemma two_queues_push:
  assumes "two_queues m q r xs ys" "fresh (qnodes m) n"
  shows "\<exists>m'. queue_push m q x n = Some m' \<and> two_queues m' q r (xs @ [x]) ys \<and>
    live (qnodes m') = insert n (live (qnodes m))"
proof -
  obtain d ns e ms where q: "queue_rep m q d ns xs" "queue_rep m r e ms ys" "set (d # ns) \<inter> set (e # ms) = {}" "q \<noteq> r"
    using assms(1) unfolding two_queues_def by blast
  obtain m' where m': "queue_push m q x n = Some m'" "queue_rep m' q d (ns @ [n]) (xs @ [x])"
    "queue_frame m q (set (d # ns) \<union> {n}) m'" "live (qnodes m') = insert n (live (qnodes m))"
    by (rule queue_push_rep [OF q(1) assms(2)])
  have n: "n \<notin> set (e # ms)"
    using assms(2) q(2) by (auto simp: fresh_def queue_rep_def)
  then have "queue_rep m' r e ms ys"
    using queue_rep_frame [OF q(2) m'(3)] q(3,4) by auto
  moreover have "set (d # ns @ [n]) \<inter> set (e # ms) = {}"
    using q(3) n by auto
  ultimately have "two_queues m' q r (xs @ [x]) ys"
    unfolding two_queues_def using m'(2) q(4) by blast
  with m' show ?thesis
    by blast
qed

lemma two_queues_pop:
  assumes "two_queues m q r (x # xs) ys"
  shows "\<exists>m'. queue_pop m q = Some (m', x) \<and> two_queues m' q r xs ys \<and> live (qnodes m') \<subseteq> live (qnodes m)"
proof -
  obtain d ns' e ms where q0: "queue_rep m q d ns' (x # xs)" "queue_rep m r e ms ys" "set (d # ns') \<inter> set (e # ms) = {}" "q \<noteq> r"
    using assms(1) unfolding two_queues_def by blast
  then obtain n ns where ns: "ns' = n # ns"
    by (cases ns') (auto simp: queue_rep_def)
  obtain m' where m': "queue_pop m q = Some (m', x)" "queue_rep m' q n ns xs" "queue_frame m q (set (d # n # ns)) m'"
    "live (qnodes m') = live (qnodes m) - {d}"
    by (rule queue_pop_rep [OF q0(1) [unfolded ns]])
  have "queue_rep m' r e ms ys"
    using queue_rep_frame [OF q0(2) m'(3)] q0(3,4) ns by auto
  moreover have "set (n # ns) \<inter> set (e # ms) = {}"
    using q0(3) ns by auto
  ultimately have "two_queues m' q r xs ys"
    unfolding two_queues_def using m'(2) q0(4) by blast
  with m' show ?thesis
    by blast
qed

lemma push_ready:
  assumes "sched_rep st cpu rs zs" "valid (threads st) t" "fresh (qnodes (s_qs st)) n"
  shows "\<exists>qs. queue_push (s_qs st) (ready_queue st) t n = Some qs \<and> sched_rep (st\<lparr>s_qs := qs\<rparr>) cpu (rs @ [t]) zs \<and>
    live (qnodes qs) = insert n (live (qnodes (s_qs st)))"
  using two_queues_push [of "s_qs st" "ready_queue st" "zombie_queue st" rs zs n t] assms by (auto simp: sched_rep_def)

lemma push_zombie:
  assumes "sched_rep st cpu rs zs" "valid (threads st) t" "fresh (qnodes (s_qs st)) n"
  shows "\<exists>qs. queue_push (s_qs st) (zombie_queue st) t n = Some qs \<and> sched_rep (st\<lparr>s_qs := qs\<rparr>) cpu rs (zs @ [t]) \<and>
    live (qnodes qs) = insert n (live (qnodes (s_qs st)))"
  using two_queues_push [of "s_qs st" "zombie_queue st" "ready_queue st" zs rs n t] assms two_queues_sym
  by (auto simp: sched_rep_def)

lemma pop_ready:
  assumes "sched_rep st cpu (t # rs) zs"
  shows "\<exists>qs. queue_pop (s_qs st) (ready_queue st) = Some (qs, t) \<and> sched_rep (st\<lparr>s_qs := qs\<rparr>) cpu rs zs \<and>
    live (qnodes qs) \<subseteq> live (qnodes (s_qs st))"
  using two_queues_pop [of "s_qs st" "ready_queue st" "zombie_queue st" t rs zs] assms by (auto simp: sched_rep_def)

lemma ready_empty: "sched_rep st cpu rs zs \<Longrightarrow> queue_empty (s_qs st) (ready_queue st) = Some (rs = [])"
  unfolding sched_rep_def two_queues_def using queue_empty_rep by blast

section \<open>Rescheduling\<close>

text \<open>A lock that the context switch can release: none, or one that exists.\<close>

definition lock_ok :: "sched \<Rightarrow> ptr \<Rightarrow> bool" where
  "lock_ok st lock \<longleftrightarrow> lock = NULL \<or> valid (locks (s_locks st)) lock"

lemma sched_ints_fields [simp]:
  "threads (sched_ints st cpu b) = threads st" "s_qs (sched_ints st cpu b) = s_qs st"
  "ready_queue (sched_ints st cpu b) = ready_queue st" "zombie_queue (sched_ints st cpu b) = zombie_queue st"
  "cur (sched_ints st cpu b) = cur st" "idl (sched_ints st cpu b) = idl st"
  "locks (s_locks (sched_ints st cpu b)) = locks (s_locks st)"
  by (simp_all add: sched_ints_def set_ints_def)

lemma sched_ints_rep [simp]: "sched_rep (sched_ints st cpu b) c rs zs = sched_rep st c rs zs"
  by (simp add: sched_rep_def)

lemma switch_rep:
  assumes "sched_rep st cpu rs zs" "valid (threads st) old" "valid (threads st) new" "cur st cpu = new" "lock_ok st lock"
  shows "\<exists>st'. switch_threads st cpu old new lock = Some st' \<and> sched_rep st' cpu rs zs \<and>
    threads st' = threads st \<and> cur st' = cur st \<and> idl st' = idl st \<and> active st' cpu = t_ctx (cells (threads st) new) \<and>
    s_qs st' = s_qs st \<and> lock_ok st' lock"
proof -
  have "old \<noteq> NULL"
    using assms(2) by auto
  then show ?thesis
    using assms by (auto simp: switch_threads_def heap_simps spinlock_getatom_def lock_ok_def sched_rep_def valid_def)
qed

text \<open>
  What a call leaves: still well-formed, with the queue nodes not yet used still free. The current thread of
  the processor is running; when the call came back from the idle test, nothing was ready.
\<close>

lemma requeue_rep:
  assumes "sched_rep st cpu rs zs" "cur st cpu \<noteq> NULL" "fresh (qnodes (s_qs st)) n" "lock_ok st lock"
  defines "c \<equiv> cur st cpu"
  defines "push \<equiv> c \<noteq> idl st cpu \<and> t_state (cells (threads st) c) = THREAD_STATE_RUNNING"
  shows "\<exists>st'. requeue_current st cpu n = Some st' \<and> sched_rep st' cpu (if push then rs @ [c] else rs) zs \<and>
    cur st' = cur st \<and> idl st' = idl st \<and> lock_ok st' lock \<and>
    live (qnodes (s_qs st')) \<subseteq> insert n (live (qnodes (s_qs st))) \<and>
    t_state \<circ> cells (threads st') = (t_state \<circ> cells (threads st))(c := if push then THREAD_STATE_READY else t_state (cells (threads st) c)) \<and>
    live (threads st') = live (threads st)"
proof (cases push)
  case False
  have "valid (threads st) c"
    using assms(1,2) by (simp add: sched_rep_def c_def)
  with False assms(1,4) show ?thesis
    by (auto simp: requeue_current_def push_def c_def heap_simps)
next
  case True
  have v: "valid (threads st) c"
    using assms(1,2) by (simp add: sched_rep_def c_def)
  obtain st1 where st1: "thr_upd st c (\<lambda>t. t\<lparr>t_state := THREAD_STATE_READY\<rparr>) = Some st1" "sched_rep st1 cpu rs zs"
    "live (threads st1) = live (threads st)"
    "cells (threads st1) = (cells (threads st))(c := (cells (threads st) c)\<lparr>t_state := THREAD_STATE_READY\<rparr>)"
    "st1 = st\<lparr>threads := threads st1\<rparr>"
    using thr_upd_rep [OF assms(1) v, of "\<lambda>t. t\<lparr>t_state := THREAD_STATE_READY\<rparr>"] by auto
  have eq: "s_qs st1 = s_qs st" "ready_queue st1 = ready_queue st" "cur st1 = cur st" "idl st1 = idl st" "s_locks st1 = s_locks st"
    by (subst st1(5), simp)+
  obtain qs where qs: "queue_push (s_qs st1) (ready_queue st1) c n = Some qs" "sched_rep (st1\<lparr>s_qs := qs\<rparr>) cpu (rs @ [c]) zs"
    "live (qnodes qs) = insert n (live (qnodes (s_qs st1)))"
    using push_ready [OF st1(2), of c n] v assms(3) st1(3) eq by (auto simp: valid_def)
  show ?thesis
    using True v st1(1,3,4) qs eq assms(4)
    by (auto simp: requeue_current_def push_def c_def [symmetric] heap_simps lock_ok_def fun_eq_iff)
qed

definition states :: "sched \<Rightarrow> ptr \<Rightarrow> u32" where
  "states st t = t_state (cells (threads st) t)"

text \<open>The processor runs the context of its current thread.\<close>

definition on_cpu :: "sched \<Rightarrow> u32 \<Rightarrow> bool" where
  "on_cpu st cpu \<longleftrightarrow> active st cpu = t_ctx (cells (threads st) (cur st cpu))"

lemma run_thread_rep:
  assumes "sched_rep st cpu rs zs" "valid (threads st) t" "cur st cpu \<noteq> NULL" "lock_ok st lock"
  shows "\<exists>st' r. run_thread st cpu t intstate lock = Some (st', r) \<and> sched_rep st' cpu rs zs \<and> cur st' cpu = t \<and>
    idl st' = idl st \<and> lock_ok st' lock \<and> s_qs st' = s_qs st \<and> live (threads st') = live (threads st) \<and>
    states st' = (states st)(t := THREAD_STATE_RUNNING) \<and>
    (if r = Switched then on_cpu st' cpu else cur st' cpu = cur st cpu)"
proof -
  let ?f = "\<lambda>t. t\<lparr>timeslice := THREAD_DEFAULT_TIMESLICE\<rparr>" and ?g = "\<lambda>t. t\<lparr>t_state := THREAD_STATE_RUNNING\<rparr>"
  have "legal_state (t_state (cells (threads st) t))"
    using assms(1,2) by (simp add: sched_rep_def)
  then obtain st1 where st1: "thr_upd st t ?f = Some st1" "sched_rep st1 cpu rs zs" "live (threads st1) = live (threads st)"
    "cells (threads st1) = (cells (threads st))(t := ?f (cells (threads st) t))" "st1 = st\<lparr>threads := threads st1\<rparr>"
    using thr_upd_rep [OF assms(1,2), of ?f] by auto
  then have "valid (threads st1) t"
    using assms(2) by (simp add: valid_def)
  then obtain st2 where st2: "thr_upd st1 t ?g = Some st2" "sched_rep st2 cpu rs zs" "live (threads st2) = live (threads st1)"
    "cells (threads st2) = (cells (threads st1))(t := ?g (cells (threads st1) t))" "st2 = st1\<lparr>threads := threads st2\<rparr>"
    using thr_upd_rep [OF st1(2), of t ?g] by auto
  have eq: "cur st2 = cur st" "idl st2 = idl st" "s_qs st2 = s_qs st" "s_locks st2 = s_locks st"
    by (subst st2(5), subst st1(5), simp)+
  have v: "valid (threads st2) t" "valid (threads st2) (cur st cpu)"
    using assms(1-3) st1(3) st2(3) by (auto simp: valid_def sched_rep_def)
  have states: "states st2 = (states st)(t := THREAD_STATE_RUNNING)"
    by (auto simp: states_def st1(4) st2(4))
  show ?thesis
  proof (cases "t = cur st cpu")
    case True
    then show ?thesis
      using st1(1,3) st2(1-3) eq states assms(4)
      by (auto simp: run_thread_def lock_ok_def states_def [abs_def])
  next
    case False
    let ?st3 = "set_current_thread st2 cpu t"
    have "sched_rep ?st3 cpu rs zs" "valid (threads ?st3) (cur st cpu)" "valid (threads ?st3) t" "lock_ok ?st3 lock" "cur ?st3 cpu = t"
      using sched_set_current [OF st2(2) v(1)] v assms(4) eq by (simp_all add: set_current_thread_def lock_ok_def)
    from switch_rep [OF this(1,2,3,5,4)]
    obtain st4 where st4: "switch_threads ?st3 cpu (cur st cpu) t lock = Some st4" "sched_rep st4 cpu rs zs"
      "threads st4 = threads st2" "cur st4 cpu = t" "idl st4 = idl st" "active st4 cpu = t_ctx (cells (threads st2) t)"
      "s_qs st4 = s_qs st" "lock_ok st4 lock"
      using eq by (auto simp: set_current_thread_def)
    have "states st4 = states st2"
      using st4(3) by (simp add: states_def [abs_def])
    then show ?thesis
      using False st1(1,3) st2(1,3) st4 eq states v
      by (auto simp: run_thread_def heap_simps on_cpu_def)
  qed
qed

text \<open>An empty ready queue: the call returns, or the processor goes to its idle thread.\<close>

lemma is_idle_rep:
  assumes "sched_rep st cpu [] zs" "cur st cpu \<noteq> NULL" "lock_ok st lock"
  shows "\<exists>st' r. is_idle st cpu act intstate lock = Some (st', Some r) \<and> sched_rep st' cpu [] zs \<and>
    cur st' cpu = (if act = RESCHED_IDLE_RETURN then cur st cpu else idl st cpu) \<and>
    idl st' = idl st \<and> lock_ok st' lock \<and> s_qs st' = s_qs st \<and> live (threads st') = live (threads st) \<and>
    (if r = Switched then on_cpu st' cpu else cur st' cpu = cur st cpu)"
proof (cases "cur st cpu = idl st cpu \<and> act \<noteq> RESCHED_IDLE_RUNTHREAD_RESTORE \<or> act = RESCHED_IDLE_RETURN")
  case True
  then show ?thesis
    using assms ready_empty [OF assms(1)] by (auto simp: is_idle_def)
next
  case False
  let ?i = "idl st cpu"
  let ?f = "\<lambda>t. t\<lparr>timeslice := THREAD_DEFAULT_TIMESLICE\<rparr>" and ?g = "\<lambda>t. t\<lparr>t_state := THREAD_STATE_RUNNING\<rparr>"
  have vi: "valid (threads st) ?i" "valid (threads st) (cur st cpu)"
    using assms(1,2) by (simp_all add: sched_rep_def)
  obtain st1 where st1: "thr_upd st ?i ?g = Some st1" "sched_rep st1 cpu [] zs" "live (threads st1) = live (threads st)"
    "cells (threads st1) = (cells (threads st))(?i := ?g (cells (threads st) ?i))" "st1 = st\<lparr>threads := threads st1\<rparr>"
    using thr_upd_rep [OF assms(1) vi(1), of ?g] by auto
  have v1: "valid (threads st1) ?i"
    using vi st1(3) by (simp add: valid_def)
  obtain st2 where st2: "thr_upd st1 ?i ?f = Some st2" "sched_rep st2 cpu [] zs" "live (threads st2) = live (threads st1)"
    "st2 = st1\<lparr>threads := threads st2\<rparr>"
    using thr_upd_rep [OF st1(2) v1, of ?f] st1(4) by auto
  have eq1: "idl st1 = idl st"
    by (subst st1(5)) simp
  have eq: "cur st2 = cur st" "idl st2 = idl st" "s_qs st2 = s_qs st" "s_locks st2 = s_locks st"
    by (subst st2(4), subst st1(5), simp)+
  let ?st3 = "set_current_thread st2 cpu ?i"
  have v2: "valid (threads st2) ?i" "valid (threads st2) (cur st cpu)"
    using vi st1(3) st2(3) by (simp_all add: valid_def)
  have "sched_rep ?st3 cpu [] zs" "valid (threads ?st3) (cur st cpu)" "valid (threads ?st3) ?i" "lock_ok ?st3 lock" "cur ?st3 cpu = ?i"
    using sched_set_current [OF st2(2) v2(1)] v2 assms(3) eq by (simp_all add: set_current_thread_def lock_ok_def)
  from switch_rep [OF this(1,2,3,5,4)]
  obtain st4 where st4: "switch_threads ?st3 cpu (cur st cpu) ?i lock = Some st4" "sched_rep st4 cpu [] zs"
    "threads st4 = threads st2" "cur st4 cpu = ?i" "idl st4 = idl st" "active st4 cpu = t_ctx (cells (threads st2) ?i)"
    "s_qs st4 = s_qs st" "lock_ok st4 lock"
    using eq by (auto simp: set_current_thread_def)
  have "act = RESCHED_IDLE_RUNTHREAD_RESTORE \<or> cur st cpu \<noteq> idl st cpu" "act \<noteq> RESCHED_IDLE_RETURN"
    using False by auto
  then show ?thesis
    using False ready_empty [OF assms(1)] st1(1,3) st2(1,3) st4 eq eq1
    by (auto simp: is_idle_def on_cpu_def set_current_thread_def)
qed

lemma is_idle_busy: "sched_rep st cpu (t # rs) zs \<Longrightarrow> is_idle st cpu act intstate lock = Some (st, None)"
  using ready_empty by (fastforce simp: is_idle_def)

text \<open>
  The abstract scheduler: the current thread joins the ready queue if it is still running, then the first
  thread that is ready runs; threads in other states are dropped, zombies to the zombie queue.
\<close>

definition requeues :: "sched \<Rightarrow> u32 \<Rightarrow> bool" where
  "requeues st cpu \<longleftrightarrow> cur st cpu \<noteq> idl st cpu \<and> states st (cur st cpu) = THREAD_STATE_RUNNING"

definition waiting :: "sched \<Rightarrow> u32 \<Rightarrow> ptr list \<Rightarrow> ptr list" where
  "waiting st cpu rs = (if requeues st cpu then rs @ [cur st cpu] else rs)"

definition marked :: "sched \<Rightarrow> u32 \<Rightarrow> ptr \<Rightarrow> u32" where
  "marked st cpu = (if requeues st cpu then (states st)(cur st cpu := THREAD_STATE_READY) else states st)"

fun pick :: "(ptr \<Rightarrow> u32) \<Rightarrow> ptr list \<Rightarrow> ptr list \<Rightarrow> ptr option \<times> ptr list \<times> ptr list" where
  "pick S [] zs = (None, [], zs)"
| "pick S (t # rs) zs =
     (if S t = THREAD_STATE_READY then (Some t, rs, zs)
      else pick S rs (if S t = THREAD_STATE_ZOMBIE then zs @ [t] else zs))"

lemma marked_not_running: "cur st cpu \<noteq> idl st cpu \<Longrightarrow> marked st cpu (cur st cpu) \<noteq> THREAD_STATE_RUNNING"
  by (auto simp: marked_def requeues_def)

lemma requeue_states:
  assumes "sched_rep st cpu rs zs" "cur st cpu \<noteq> NULL" "fresh (qnodes (s_qs st)) n" "lock_ok st lock"
  shows "\<exists>st'. requeue_current st cpu n = Some st' \<and> sched_rep st' cpu (waiting st cpu rs) zs \<and>
    cur st' = cur st \<and> idl st' = idl st \<and> lock_ok st' lock \<and> states st' = marked st cpu \<and>
    live (qnodes (s_qs st')) \<subseteq> insert n (live (qnodes (s_qs st))) \<and> live (threads st') = live (threads st)"
  using requeue_rep [OF assms]
  by (auto simp: waiting_def marked_def requeues_def states_def [abs_def] fun_eq_iff)

lemma drop_thread:
  assumes "sched_rep st cpu rs zs" "valid (threads st) t" "fresh (qnodes (s_qs st)) n" "lock_ok st lock"
  shows "\<exists>st'. bury st t s n = Some st' \<and>
    sched_rep st' cpu rs (if s = THREAD_STATE_ZOMBIE then zs @ [t] else zs) \<and> cur st' = cur st \<and> idl st' = idl st \<and>
    lock_ok st' lock \<and> states st' = states st \<and> threads st' = threads st \<and>
    live (qnodes (s_qs st')) \<subseteq> insert n (live (qnodes (s_qs st)))"
  using push_zombie [OF assms(1-3)] assms(1,4) by (auto simp: bury_def states_def [abs_def] lock_ok_def)

definition resched_post :: "sched \<Rightarrow> u32 \<Rightarrow> ptr list \<Rightarrow> ptr list \<Rightarrow> resched_idle \<Rightarrow> ptr \<Rightarrow> ptr list \<Rightarrow> sched \<Rightarrow> bool" where
  "resched_post st cpu rs zs act lock ns st' \<longleftrightarrow>
     (case pick (marked st cpu) (waiting st cpu rs) zs of (w, rs', zs') \<Rightarrow>
        sched_rep st' cpu rs' zs' \<and>
        cur st' cpu = (case w of Some t \<Rightarrow> t | None \<Rightarrow>
          if act = RESCHED_IDLE_RETURN \<and> waiting st cpu rs = [] then cur st cpu else idl st cpu) \<and>
        (\<forall>t. w = Some t \<longrightarrow> states st' = (marked st cpu)(t := THREAD_STATE_RUNNING))) \<and>
     idl st' = idl st \<and> lock_ok st' lock \<and> live (threads st') = live (threads st) \<and>
     live (qnodes (s_qs st')) \<subseteq> live (qnodes (s_qs st)) \<union> set ns"

lemma reschedule_rep:
  assumes "sched_rep st cpu rs zs" "cur st cpu \<noteq> NULL" "new_nodes st ns" "lock_ok st lock"
    and "2 * length (waiting st cpu rs) + 2 \<le> length ns"
  shows "\<exists>st' r. reschedule_internal st cpu act lock ns = Some (st', r) \<and> resched_post st cpu rs zs act lock ns st' \<and>
    (if r = Switched then on_cpu st' cpu else cur st' cpu = cur st cpu)"
  using assms
proof (induction "length (waiting st cpu rs)" arbitrary: st rs zs act ns)
  case 0
  let ?st0 = "sched_ints st cpu False" and ?intstate = "ints (s_locks st) cpu"
  have n: "fresh (qnodes (s_qs ?st0)) (node ns 0)" "node ns 0 \<in> set ns"
    using 0 by (auto simp: new_nodes_def node_def)
  have w: "waiting ?st0 cpu rs = waiting st cpu rs" "marked ?st0 cpu = marked st cpu"
    by (simp_all add: waiting_def marked_def requeues_def states_def [abs_def])
  obtain st1 where st1: "requeue_current ?st0 cpu (node ns 0) = Some st1" "sched_rep st1 cpu [] zs" "cur st1 = cur st"
    "idl st1 = idl st" "lock_ok st1 lock" "live (qnodes (s_qs st1)) \<subseteq> insert (node ns 0) (live (qnodes (s_qs st)))"
    "live (threads st1) = live (threads st)"
    using requeue_states [of ?st0 cpu rs zs "node ns 0" lock] 0 n w by (auto simp: lock_ok_def)
  obtain st2 r where st2: "is_idle st1 cpu act ?intstate lock = Some (st2, Some r)" "sched_rep st2 cpu [] zs"
    "cur st2 cpu = (if act = RESCHED_IDLE_RETURN then cur st cpu else idl st cpu)" "idl st2 = idl st" "lock_ok st2 lock"
    "s_qs st2 = s_qs st1" "live (threads st2) = live (threads st1)" "if r = Switched then on_cpu st2 cpu else cur st2 cpu = cur st cpu"
    using is_idle_rep [OF st1(2) _ st1(5), of act ?intstate] 0(3) unfolding st1(3,4) by blast
  show ?case
    using 0(1,3) st1 st2 n(2)
    by (cases r; subst reschedule_internal.simps) (auto simp: Let_def lock_ok_def resched_post_def)
next
  case (Suc k)
  let ?st0 = "sched_ints st cpu False" and ?intstate = "ints (s_locks st) cpu"
  obtain t rs1 where w: "waiting st cpu rs = t # rs1"
    using Suc.hyps(2) by (cases "waiting st cpu rs") auto
  obtain a b ns' where ns: "ns = a # b # ns'"
    using Suc.prems(5) by (cases ns; cases "tl ns") auto
  then have n: "node ns 0 = a" "node ns 1 = b" "fresh (qnodes (s_qs ?st0)) a" "fresh (qnodes (s_qs st)) b" "a \<noteq> b"
    "distinct ns'" "a \<notin> set ns'" "b \<notin> set ns'" "\<forall>n \<in> set ns'. fresh (qnodes (s_qs st)) n"
    using Suc.prems(3) by (auto simp: node_def new_nodes_def)
  have w0: "waiting ?st0 cpu rs = waiting st cpu rs" "marked ?st0 cpu = marked st cpu"
    by (simp_all add: waiting_def marked_def requeues_def states_def [abs_def])
  obtain st1 where st1: "requeue_current ?st0 cpu a = Some st1" "sched_rep st1 cpu (t # rs1) zs" "cur st1 = cur st"
    "idl st1 = idl st" "lock_ok st1 lock" "states st1 = marked st cpu"
    "live (qnodes (s_qs st1)) \<subseteq> insert a (live (qnodes (s_qs st)))" "live (threads st1) = live (threads st)"
    using requeue_states [of ?st0 cpu rs zs a lock] Suc.prems n w0 w by (auto simp: lock_ok_def)
  obtain qs where qs: "queue_pop (s_qs st1) (ready_queue st1) = Some (qs, t)" "sched_rep (st1\<lparr>s_qs := qs\<rparr>) cpu rs1 zs"
    "live (qnodes qs) \<subseteq> live (qnodes (s_qs st1))"
    using pop_ready [OF st1(2)] by auto
  let ?st2 = "st1\<lparr>s_qs := qs\<rparr>"
  have t: "valid (threads ?st2) t" "t \<noteq> NULL" "lock_ok ?st2 lock" "states ?st2 = states st1"
    using st1(2,5) by (auto simp: sched_rep_def lock_ok_def states_def [abs_def])
  show ?case
  proof (cases "marked st cpu t = THREAD_STATE_READY")
    case True
    obtain st3 r where st3: "run_thread ?st2 cpu t ?intstate lock = Some (st3, r)" "sched_rep st3 cpu rs1 zs" "cur st3 cpu = t"
      "idl st3 = idl st" "lock_ok st3 lock" "s_qs st3 = qs" "live (threads st3) = live (threads st)"
      "states st3 = (marked st cpu)(t := THREAD_STATE_RUNNING)" "if r = Switched then on_cpu st3 cpu else cur st3 cpu = cur st cpu"
      using run_thread_rep [OF qs(2) t(1) _ t(3), of ?intstate] Suc.prems(2) st1 t(4) by auto
    have "reschedule_internal st cpu act lock ns = Some (st3, r)"
      using Suc.prems(2) st1(1,6) is_idle_busy [OF st1(2)] qs(1) t True st3(1)
      by (subst reschedule_internal.simps) (simp add: Let_def n heap_simps states_def [symmetric])
    moreover have "live (qnodes (s_qs st3)) \<subseteq> live (qnodes (s_qs st)) \<union> set ns"
      using st3(6) qs(3) st1(7) ns by auto
    ultimately show ?thesis
      using True w st3 by (simp add: resched_post_def)
  next
    case False
    let ?s = "marked st cpu t"
    define zs1 where "zs1 = (if ?s = THREAD_STATE_ZOMBIE then zs @ [t] else zs)"
    have "fresh (qnodes (s_qs ?st2)) b"
      using n qs(3) st1(7) by (auto simp: fresh_def)
    from drop_thread [OF qs(2) t(1) this t(3), of ?s]
    obtain st3 where st3: "bury ?st2 t ?s b = Some st3"
      "sched_rep st3 cpu rs1 zs1" "cur st3 = cur st" "idl st3 = idl st"
      "lock_ok st3 lock" "states st3 = marked st cpu" "live (threads st3) = live (threads st)"
      "live (qnodes (s_qs st3)) \<subseteq> insert b (live (qnodes qs))"
      unfolding zs1_def using st1 t(4) by auto
    define st4 where "st4 = (if ?intstate then sched_ints st3 cpu True else st3)"
    have st4: "sched_rep st4 cpu rs1 zs1" "cur st4 cpu = cur st cpu"
      "idl st4 = idl st" "lock_ok st4 lock" "states st4 = marked st cpu" "live (threads st4) = live (threads st)"
      "s_qs st4 = s_qs st3"
      using st3 by (simp_all add: st4_def lock_ok_def states_def [abs_def])
    have nr: "\<not> requeues st4 cpu"
      using marked_not_running [of st cpu] st4 by (auto simp: requeues_def)
    then have w4: "waiting st4 cpu rs1 = rs1" "marked st4 cpu = marked st cpu"
      using st4(5) by (simp_all add: waiting_def marked_def)
    have "new_nodes st4 ns'"
      unfolding new_nodes_def st4(7) using n st3(8) qs(3) st1(7) by (auto simp: fresh_def)
    moreover have "k = length (waiting st4 cpu rs1)" "2 * length (waiting st4 cpu rs1) + 2 \<le> length ns'" "cur st4 cpu \<noteq> NULL"
      using Suc.hyps(2) Suc.prems(2,5) w w4 st4(2) ns by simp_all
    ultimately obtain st' r where IH: "reschedule_internal st4 cpu RESCHED_IDLE_RUNTHREAD lock ns' = Some (st', r)"
      "resched_post st4 cpu rs1 zs1 RESCHED_IDLE_RUNTHREAD lock ns' st'" "if r = Switched then on_cpu st' cpu else cur st' cpu = cur st cpu"
      using Suc.hyps(1) [of st4 rs1 zs1 ns' RESCHED_IDLE_RUNTHREAD] st4(1,4) unfolding st4(2) by blast
    have "reschedule_internal st cpu act lock ns = Some (st', r)"
      using Suc.prems(2) st1(1,6) is_idle_busy [OF st1(2)] qs(1) t False st3(1) IH(1)
      by (subst reschedule_internal.simps) (simp add: Let_def node_def heap_simps states_def [symmetric] ns st4_def)
    moreover have "live (qnodes (s_qs st')) \<subseteq> live (qnodes (s_qs st)) \<union> set ns"
    proof -
      have "live (qnodes (s_qs st')) \<subseteq> live (qnodes (s_qs st3)) \<union> set ns'"
        using IH(2) st4(7) by (simp add: resched_post_def)
      with st3(8) qs(3) st1(7) show ?thesis
        unfolding ns by auto
    qed
    then have "resched_post st cpu rs zs act lock ns st'"
    proof -
      obtain w' rs' zs' where pk: "pick (marked st cpu) rs1 zs1 = (w', rs', zs')"
        by (rule prod_cases3)
      moreover have "pick (marked st cpu) (t # rs1) zs = pick (marked st cpu) rs1 zs1"
        using False by (simp add: zs1_def)
      ultimately show "resched_post st cpu rs zs act lock ns st'"
        if "live (qnodes (s_qs st')) \<subseteq> live (qnodes (s_qs st)) \<union> set ns"
        using IH(2) that by (simp add: resched_post_def w w4 st4(2,3,6) cong: option.case_cong)
    qed
    ultimately show ?thesis
      using IH(3) by blast
  qed
qed

lemma length_waiting: "length (waiting st cpu rs) \<le> Suc (length rs)"
  by (simp add: waiting_def)

lemma pick_valid:
  "pick S ts zs = (w, rs, zs') \<Longrightarrow> length rs \<le> length ts \<and> (\<forall>t. w = Some t \<longrightarrow> t \<in> set ts)"
  by (induction S ts zs rule: pick.induct) (auto split: if_splits)

section \<open>Sequences of scheduler calls\<close>

text \<open>
  The calls that a processor makes, each with the queue nodes it may need: rescheduling, yielding, going to
  sleep, waking a thread and the tick that counts down the time slice.
\<close>

datatype sched_op = Resched "ptr list" | Yield "ptr list" | Sleep "ptr list" | Wake ptr ptr | Tick u64

fun sched_exec :: "sched \<Rightarrow> u32 \<Rightarrow> sched_op \<Rightarrow> sched option" where
  "sched_exec st cpu (Resched ns) = do { (st, _) \<leftarrow> reschedule st cpu ns; Some st }"
| "sched_exec st cpu (Yield ns) = do { (st, _) \<leftarrow> sched_yield st cpu ns; Some st }"
| "sched_exec st cpu (Sleep ns) = do { (st, _) \<leftarrow> thread_sleep st cpu ns; Some st }"
| "sched_exec st cpu (Wake t n) = thread_wake st t n"
| "sched_exec st cpu (Tick tk) = do { (st, _) \<leftarrow> sched_timer st cpu tk; Some st }"

fun sched_run :: "sched \<Rightarrow> u32 \<Rightarrow> sched_op list \<Rightarrow> sched option" where
  "sched_run st cpu [] = Some st"
| "sched_run st cpu (p # ops) = do { st \<leftarrow> sched_exec st cpu p; sched_run st cpu ops }"

fun op_nodes :: "sched_op \<Rightarrow> ptr list" where
  "op_nodes (Resched ns) = ns"
| "op_nodes (Yield ns) = ns"
| "op_nodes (Sleep ns) = ns"
| "op_nodes (Wake t n) = [n]"
| "op_nodes (Tick tk) = []"

text \<open>A call is possible when it has enough nodes for \<open>k\<close> ready threads and wakes a thread.\<close>

fun op_ok :: "thread heap \<Rightarrow> nat \<Rightarrow> sched_op \<Rightarrow> bool" where
  "op_ok h k (Wake t n) = valid h t"
| "op_ok h k (Tick tk) = True"
| "op_ok h k p = (2 * k + 4 \<le> length (op_nodes p))"

lemma op_ok_mono: "op_ok h k p \<Longrightarrow> j \<le> k \<Longrightarrow> live h' = live h \<Longrightarrow> op_ok h' j p"
  by (cases p) (auto simp: valid_def)

definition kept :: "sched \<Rightarrow> u32 \<Rightarrow> nat \<Rightarrow> ptr list \<Rightarrow> sched \<Rightarrow> bool" where
  "kept st cpu k ns st' \<longleftrightarrow>
     (\<exists>rs zs. sched_rep st' cpu rs zs \<and> length rs \<le> k) \<and> cur st' cpu \<noteq> NULL \<and>
     live (threads st') = live (threads st) \<and> live (qnodes (s_qs st')) \<subseteq> live (qnodes (s_qs st)) \<union> set ns"

lemma keptI:
  assumes "sched_rep st' cpu rs zs" "length rs \<le> k" "cur st' cpu \<noteq> NULL" "live (threads st') = live (threads st)"
    "live (qnodes (s_qs st')) \<subseteq> live (qnodes (s_qs st)) \<union> set ns"
  shows "kept st cpu k ns st'"
  using assms unfolding kept_def by blast

lemma resched_wf:
  assumes "sched_rep st cpu rs zs" "cur st cpu \<noteq> NULL" "new_nodes st ns" "2 * length rs + 4 \<le> length ns"
  shows "\<exists>st' r. reschedule_internal st cpu act NULL ns = Some (st', r) \<and> kept st cpu (Suc (length rs)) ns st'"
proof -
  have "lock_ok st NULL" "2 * length (waiting st cpu rs) + 2 \<le> length ns"
    using assms(4) length_waiting [of st cpu rs] by (simp_all add: lock_ok_def)
  with reschedule_rep [OF assms(1-3)] obtain st' r where st': "reschedule_internal st cpu act NULL ns = Some (st', r)"
    "resched_post st cpu rs zs act NULL ns st'"
    by blast
  obtain w rs' zs' where pk: "pick (marked st cpu) (waiting st cpu rs) zs = (w, rs', zs')"
    by (rule prod_cases3)
  have "\<forall>t \<in> set (waiting st cpu rs). t \<noteq> NULL" "idl st cpu \<noteq> NULL"
    using assms(1,2) by (auto simp: waiting_def sched_rep_def)
  with st' pk pick_valid [OF pk] length_waiting [of st cpu rs] assms(2) show ?thesis
    by (intro exI [of _ st'] exI [of _ r]) (auto simp: resched_post_def intro!: keptI split: option.splits if_splits)
qed

lemma sched_exec_wf:
  assumes "sched_rep st cpu rs zs" "cur st cpu \<noteq> NULL" "new_nodes st (op_nodes p)" "op_ok (threads st) (length rs) p"
  shows "\<exists>st'. sched_exec st cpu p = Some st' \<and> kept st cpu (Suc (length rs)) (op_nodes p) st'"
proof (cases p)
  case (Resched ns)
  then show ?thesis
    using resched_wf [OF assms(1,2), of ns RESCHED_IDLE_RUNTHREAD] assms(3,4) by (auto simp: reschedule_def)
next
  case (Yield ns)
  then show ?thesis
    using resched_wf [OF assms(1,2), of ns RESCHED_IDLE_RETURN] assms(3,4) by (auto simp: sched_yield_def)
next
  case (Sleep ns)
  have "valid (threads st) (cur st cpu)"
    using assms(1,2) by (simp add: sched_rep_def)
  with thr_upd_rep [OF assms(1) this, of "\<lambda>t. t\<lparr>t_state := THREAD_STATE_SLEEPING\<rparr>"]
  obtain st1 where st1: "thr_upd st (cur st cpu) (\<lambda>t. t\<lparr>t_state := THREAD_STATE_SLEEPING\<rparr>) = Some st1"
    "sched_rep st1 cpu rs zs" "live (threads st1) = live (threads st)" "st1 = st\<lparr>threads := threads st1\<rparr>"
    by auto
  have eq: "cur st1 = cur st" "s_qs st1 = s_qs st"
    by (subst st1(4), simp)+
  then have "kept st1 cpu k ns = kept st cpu k ns" for k
    using st1(3) by (simp add: fun_eq_iff kept_def)
  with Sleep show ?thesis
    using resched_wf [OF st1(2), of ns RESCHED_IDLE_RUNTHREAD] assms(2-4) st1(1) eq
    by (auto simp: thread_sleep_def reschedule_def new_nodes_def)
next
  case (Wake t n)
  then have t: "valid (threads st) t" "t \<noteq> NULL" "fresh (qnodes (s_qs st)) n"
    using assms(3,4) by (auto simp: new_nodes_def)
  obtain qs where qs: "queue_push (s_qs st) (ready_queue st) t n = Some qs" "sched_rep (st\<lparr>s_qs := qs\<rparr>) cpu (rs @ [t]) zs"
    "live (qnodes qs) = insert n (live (qnodes (s_qs st)))"
    using push_ready [OF assms(1) t(1,3)] by auto
  from thr_upd_rep [OF qs(2), of t "\<lambda>t. t\<lparr>t_state := THREAD_STATE_READY\<rparr>"] t(1)
  obtain st1 where st1: "thr_upd (st\<lparr>s_qs := qs\<rparr>) t (\<lambda>t. t\<lparr>t_state := THREAD_STATE_READY\<rparr>) = Some st1"
    "sched_rep st1 cpu (rs @ [t]) zs" "live (threads st1) = live (threads st)" "st1 = st\<lparr>s_qs := qs, threads := threads st1\<rparr>"
    by auto
  have "cur st1 = cur st" "s_qs st1 = qs"
    by (subst st1(4), simp)+
  then have "cur st1 cpu \<noteq> NULL" "live (qnodes (s_qs st1)) \<subseteq> live (qnodes (s_qs st)) \<union> set (op_nodes p)"
    using assms(2) qs(3) Wake by auto
  with st1(2,3) have "kept st cpu (Suc (length rs)) (op_nodes p) st1"
    by (intro keptI [of st1 cpu "rs @ [t]" zs]) simp_all
  with Wake st1(1) qs(1) t(2) show ?thesis
    by (simp add: thread_wake_def)
next
  case (Tick tk)
  let ?c = "cells (threads st) (cur st cpu)"
  let ?f = "\<lambda>t. t\<lparr>timeslice := timeslice t - (if tk > timeslice ?c then timeslice ?c else tk)\<rparr>"
  have v: "valid (threads st) (cur st cpu)" "legal_state (t_state ?c)"
    using assms(1,2) by (auto simp: sched_rep_def)
  with thr_upd_rep [OF assms(1) v(1), of ?f]
  obtain st1 where st1: "thr_upd st (cur st cpu) ?f = Some st1"
    "sched_rep st1 cpu rs zs" "live (threads st1) = live (threads st)" "st1 = st\<lparr>threads := threads st1\<rparr>"
    by auto
  have "cur st1 = cur st" "s_qs st1 = s_qs st"
    by (subst st1(4), simp)+
  moreover from this have "valid (threads st1) (cur st1 cpu)"
    using v st1(3) by (simp add: valid_def)
  moreover have "kept st cpu (Suc (length rs)) (op_nodes p) st1"
    using st1(2,3) assms(2) calculation by (intro keptI) auto
  ultimately show ?thesis
    using Tick v(1) st1(1) by (simp add: sched_timer_def heap_simps Let_def)
qed

lemma sched_run_wf:
  assumes "sched_rep st cpu rs zs" "cur st cpu \<noteq> NULL" "new_nodes st (concat (map op_nodes ops))"
    and "\<forall>p \<in> set ops. op_ok (threads st) (length rs + length ops) p"
  shows "\<exists>st' rs' zs'. sched_run st cpu ops = Some st' \<and> sched_rep st' cpu rs' zs' \<and> cur st' cpu \<noteq> NULL"
  using assms
proof (induction ops arbitrary: st rs zs)
  case (Cons p ops)
  have "new_nodes st (op_nodes p)" "op_ok (threads st) (length rs) p"
    using Cons.prems(3,4) by (auto simp: new_nodes_def intro: op_ok_mono)
  with sched_exec_wf [OF Cons.prems(1,2)] obtain st1 where st1: "sched_exec st cpu p = Some st1"
    "kept st cpu (Suc (length rs)) (op_nodes p) st1"
    by blast
  then obtain rs1 zs1 where rep: "sched_rep st1 cpu rs1 zs1" "length rs1 \<le> Suc (length rs)" "cur st1 cpu \<noteq> NULL"
    "live (threads st1) = live (threads st)" "live (qnodes (s_qs st1)) \<subseteq> live (qnodes (s_qs st)) \<union> set (op_nodes p)"
    unfolding kept_def by blast
  have "new_nodes st1 (concat (map op_nodes ops))"
    using Cons.prems(3) rep(5) by (auto simp: new_nodes_def fresh_def)
  moreover have "\<forall>p \<in> set ops. op_ok (threads st1) (length rs1 + length ops) p"
    using Cons.prems(4) rep(2,4) by (auto intro: op_ok_mono)
  ultimately show ?case
    using Cons.IH [OF rep(1,3)] st1(1) by auto
qed auto

section \<open>Round robin\<close>

text \<open>Processor \<open>cpu\<close> runs \<open>c\<close>; \<open>rs\<close> wait and are ready; the idle thread is none of them.\<close>

definition busy :: "sched \<Rightarrow> u32 \<Rightarrow> ptr \<Rightarrow> ptr list \<Rightarrow> bool" where
  "busy st cpu c rs \<longleftrightarrow>
     (\<exists>zs. sched_rep st cpu rs zs) \<and> cur st cpu = c \<and> c \<noteq> NULL \<and> states st c = THREAD_STATE_RUNNING \<and>
     (\<forall>t \<in> set rs. states st t = THREAD_STATE_READY) \<and> distinct (c # rs) \<and> idl st cpu \<notin> set (c # rs)"

lemma busy_step:
  assumes "busy st cpu c (t # rs)" "new_nodes st ns" "2 * length rs + 6 \<le> length ns"
  shows "\<exists>st'. reschedule st cpu ns = Some (st', Switched) \<and> busy st' cpu t (rs @ [c]) \<and> on_cpu st' cpu \<and>
    live (qnodes (s_qs st')) \<subseteq> live (qnodes (s_qs st)) \<union> set ns"
proof -
  obtain zs where b: "sched_rep st cpu (t # rs) zs" "cur st cpu = c" "c \<noteq> NULL" "states st c = THREAD_STATE_RUNNING"
    "\<forall>t \<in> set (t # rs). states st t = THREAD_STATE_READY" "distinct (c # t # rs)" "idl st cpu \<notin> set (c # t # rs)"
    using assms(1) unfolding busy_def by blast
  have m: "requeues st cpu" "waiting st cpu (t # rs) = t # rs @ [c]" "marked st cpu = (states st)(c := THREAD_STATE_READY)"
    using b by (auto simp: requeues_def waiting_def marked_def)
  have "lock_ok st NULL"
    by (simp add: lock_ok_def)
  from reschedule_rep [OF b(1) _ assms(2) this, of RESCHED_IDLE_RUNTHREAD] b(2,3) assms(3) m(2)
  obtain st' r where st': "reschedule st cpu ns = Some (st', r)" "resched_post st cpu (t # rs) zs RESCHED_IDLE_RUNTHREAD NULL ns st'"
    "if r = Switched then on_cpu st' cpu else cur st' cpu = c"
    by (auto simp: reschedule_def)
  from st'(2) b(5,6) have post: "sched_rep st' cpu (rs @ [c]) zs" "cur st' cpu = t" "idl st' = idl st"
    "states st' = (states st)(c := THREAD_STATE_READY, t := THREAD_STATE_RUNNING)"
    "live (qnodes (s_qs st')) \<subseteq> live (qnodes (s_qs st)) \<union> set ns"
    by (auto simp: resched_post_def m)
  have "t \<noteq> NULL"
    using b(1) by (auto simp: sched_rep_def)
  with post b have "busy st' cpu t (rs @ [c])"
    by (auto simp: busy_def)
  moreover have "r = Switched"
    using st'(3) post(2) b(6) by (auto split: if_splits)
  ultimately show ?thesis
    using st' post(5) by simp
qed

lemma busy_rotates:
  assumes "busy st cpu c rs" "distinct (concat nss)" "\<forall>n \<in> set (concat nss). fresh (qnodes (s_qs st)) n"
    and "\<forall>ns \<in> set nss. 2 * length rs + 6 \<le> length ns" "length nss \<le> length rs" "on_cpu st cpu"
  shows "\<exists>st' rs'. sched_run st cpu (map Resched nss) = Some st' \<and> busy st' cpu ((c # rs) ! length nss) rs' \<and> on_cpu st' cpu"
  using assms
proof (induction nss arbitrary: st c rs)
  case (Cons ns nss)
  then obtain t rs1 where rs: "rs = t # rs1"
    by (cases rs) auto
  have "new_nodes st ns"
    using Cons.prems(2,3) by (auto simp: new_nodes_def)
  then obtain st1 where st1: "reschedule st cpu ns = Some (st1, Switched)" "busy st1 cpu t (rs1 @ [c])" "on_cpu st1 cpu"
    "live (qnodes (s_qs st1)) \<subseteq> live (qnodes (s_qs st)) \<union> set ns"
    using busy_step [of st cpu c t rs1 ns] Cons.prems(1,4) rs by auto
  have "\<forall>n \<in> set (concat nss). fresh (qnodes (s_qs st1)) n"
    using Cons.prems(2,3) st1(4) by (auto simp: fresh_def)
  then obtain st' rs' where "sched_run st1 cpu (map Resched nss) = Some st'"
    "busy st' cpu ((t # rs1 @ [c]) ! length nss) rs'" "on_cpu st' cpu"
    using Cons.IH [OF st1(2)] Cons.prems(2,4,5) st1(3) rs by auto
  moreover have "(t # rs1 @ [c]) ! length nss = (c # rs) ! length (ns # nss)"
    using Cons.prems(5) rs by (auto simp: nth_append nth_Cons split: nat.split)
  ultimately show ?case
    using st1(1) by auto
qed auto

section \<open>Waking threads\<close>

text \<open>Only queues and threads differ, and of the threads only the states of those in \<open>ts\<close>, which are ready now.\<close>

definition woken :: "ptr list \<Rightarrow> sched \<Rightarrow> sched \<Rightarrow> bool" where
  "woken ts st st' \<longleftrightarrow> st' = st\<lparr>s_qs := s_qs st', threads := threads st'\<rparr> \<and> live (threads st') = live (threads st) \<and>
     states st' = (\<lambda>t. if t \<in> set ts then THREAD_STATE_READY else states st t)"

lemma woken_fields:
  assumes "woken ts st st'"
  shows "cur st' = cur st" "idl st' = idl st" "s_locks st' = s_locks st" "ready_queue st' = ready_queue st"
    "zombie_queue st' = zombie_queue st" "valid (threads st') t = valid (threads st) t"
proof -
  have eq: "st' = st\<lparr>s_qs := s_qs st', threads := threads st'\<rparr>" "live (threads st') = live (threads st)"
    using assms by (auto simp: woken_def)
  show "cur st' = cur st" "idl st' = idl st" "s_locks st' = s_locks st" "ready_queue st' = ready_queue st" "zombie_queue st' = zombie_queue st"
    by (subst eq(1), simp)+
  show "valid (threads st') t = valid (threads st) t"
    by (simp add: valid_def eq(2))
qed

lemma woken_trans:
  assumes "woken ts st st1" "woken us st1 st2"
  shows "woken (ts @ us) st st2"
proof -
  have "st1 = st\<lparr>s_qs := s_qs st1, threads := threads st1\<rparr>" "st2 = st1\<lparr>s_qs := s_qs st2, threads := threads st2\<rparr>"
    using assms by (auto simp: woken_def)
  then have "st2 = st\<lparr>s_qs := s_qs st1, threads := threads st1, s_qs := s_qs st2, threads := threads st2\<rparr>"
    by metis
  then have "st2 = st\<lparr>s_qs := s_qs st2, threads := threads st2\<rparr>"
    by simp
  with assms show ?thesis
    by (auto simp: woken_def)
qed

lemma states_queues [simp]: "states (st\<lparr>s_qs := qs\<rparr>) = states st"
  by (simp add: states_def [abs_def])

lemma sched_rep_queues:
  assumes "sched_rep st cpu rs zs" "two_queues m (ready_queue st) (zombie_queue st) rs' zs'" "\<forall>t \<in> set rs' \<union> set zs'. valid (threads st) t"
  shows "sched_rep (st\<lparr>s_qs := m\<rparr>) cpu rs' zs'"
  using assms by (auto simp: sched_rep_def)

lemma sched_rep_valid: "sched_rep st cpu rs zs \<Longrightarrow> \<forall>t \<in> set rs \<union> set zs. valid (threads st) t"
  by (simp add: sched_rep_def)

lemma thread_wake_ready:
  assumes "sched_rep st cpu rs zs" "valid (threads st) t" "fresh (qnodes (s_qs st)) n"
  shows "\<exists>st'. thread_wake st t n = Some st' \<and> sched_rep st' cpu (rs @ [t]) zs \<and> woken [t] st st' \<and>
    live (qnodes (s_qs st')) = insert n (live (qnodes (s_qs st)))"
proof -
  obtain qs where qs: "queue_push (s_qs st) (ready_queue st) t n = Some qs" "sched_rep (st\<lparr>s_qs := qs\<rparr>) cpu (rs @ [t]) zs"
    "live (qnodes qs) = insert n (live (qnodes (s_qs st)))"
    using push_ready [OF assms] by blast
  from thr_upd_rep [OF qs(2), of t "\<lambda>x. x\<lparr>t_state := THREAD_STATE_READY\<rparr>"] assms(2)
  obtain st' where st': "thr_upd (st\<lparr>s_qs := qs\<rparr>) t (\<lambda>x. x\<lparr>t_state := THREAD_STATE_READY\<rparr>) = Some st'"
    "sched_rep st' cpu (rs @ [t]) zs" "live (threads st') = live (threads st)"
    "cells (threads st') = (cells (threads st))(t := (cells (threads st) t)\<lparr>t_state := THREAD_STATE_READY\<rparr>)"
    "st' = st\<lparr>s_qs := qs, threads := threads st'\<rparr>"
    by auto
  have eq: "s_qs st' = qs"
    by (subst st'(5), simp)
  have "woken [t] st st'"
    using st'(3-5) eq by (auto simp: woken_def states_def [abs_def] fun_eq_iff)
  with assms(2) qs(1,3) st'(1,2) eq show ?thesis
    by (auto simp: thread_wake_def)
qed

section \<open>Properties\<close>

text \<open>
  C29. \<open>reschedule_internal\<close> ends: its recursion over threads that are not ready comes to a ready thread or to
  the idle test for every ready queue, and the call behaves like the abstract scheduler. The current thread
  joins the queue if it is running, the first ready thread runs next, threads in other states leave the
  queue, zombies for the zombie queue, and without a ready thread the processor idles.
\<close>
theorem reschedule_returns:
  assumes "sched_rep st cpu rs zs" "cur st cpu \<noteq> NULL" "new_nodes st ns" "lock_ok st lock"
    and "2 * length (waiting st cpu rs) + 2 \<le> length ns"
  shows "\<exists>st' r. reschedule_internal st cpu act lock ns = Some (st', r) \<and> resched_post st cpu rs zs act lock ns st' \<and>
    (if r = Switched then on_cpu st' cpu else cur st' cpu = cur st cpu)"
  by (rule reschedule_rep [OF assms])

text \<open>
  C30. Every sequence of calls to reschedule, yield, sleep, wake a thread or count down the time slice returns
  and leaves a well-formed scheduler: two separate queues that hold threads, a current thread, and every
  thread in one of the four legal states.
\<close>
theorem sched_run_well_formed:
  assumes "sched_rep st cpu rs zs" "cur st cpu \<noteq> NULL" "new_nodes st (concat (map op_nodes ops))"
    and "\<forall>p \<in> set ops. op_ok (threads st) (length rs + length ops) p"
  shows "\<exists>st' rs' zs'. sched_run st cpu ops = Some st' \<and> sched_rep st' cpu rs' zs' \<and> cur st' cpu \<noteq> NULL"
  by (rule sched_run_wf [OF assms])

text \<open>
  C31. No ready thread starves: with a running thread and the ready threads \<open>rs\<close>, the thread at position \<open>k\<close> is
  the current thread after \<open>k + 1\<close> reschedules, and the processor runs its context.
\<close>
theorem sched_round_robin:
  assumes "busy st cpu c rs" "on_cpu st cpu" "k < length rs" "length nss = Suc k"
    and "distinct (concat nss)" "\<forall>n \<in> set (concat nss). fresh (qnodes (s_qs st)) n"
    and "\<forall>ns \<in> set nss. 2 * length rs + 6 \<le> length ns"
  shows "\<exists>st'. sched_run st cpu (map Resched nss) = Some st' \<and> cur st' cpu = rs ! k \<and>
    active st' cpu = t_ctx (cells (threads st') (rs ! k))"
proof -
  obtain st' rs' where "sched_run st cpu (map Resched nss) = Some st'" "busy st' cpu ((c # rs) ! length nss) rs'" "on_cpu st' cpu"
    using busy_rotates [OF assms(1,5,6,7) _ assms(2)] assms(3,4) by auto
  with assms(4) show ?thesis
    by (auto simp: busy_def on_cpu_def)
qed

lemma pop_zombie:
  assumes "sched_rep st cpu rs (t # zs)"
  shows "\<exists>qs. queue_empty (s_qs st) (zombie_queue st) = Some False \<and> queue_pop (s_qs st) (zombie_queue st) = Some (qs, t) \<and>
    two_queues qs (zombie_queue st) (ready_queue st) zs rs"
proof -
  have z: "two_queues (s_qs st) (zombie_queue st) (ready_queue st) (t # zs) rs"
    using assms two_queues_sym by (auto simp: sched_rep_def)
  have "queue_empty (s_qs st) (zombie_queue st) = Some (t # zs = [])"
    using z queue_empty_rep unfolding two_queues_def by blast
  with two_queues_pop [OF z] show ?thesis
    by auto
qed


text \<open>
  Processor 0 runs the thread at 0x100; those at 0x200 and 0x300 are ready, the one at 0x400 is the idle
  thread. The ready queue is at 0x10 with the nodes 0x20, 0x21 and 0x22, the empty zombie queue at 0x11.
\<close>

definition example_queues :: qmem where
  "example_queues = \<lparr>
     queues = \<lparr>cells = (\<lambda>q. if q = 0x10 then \<lparr>q_head = 0x20, q_tail = 0x22, q_base = 0x20, q_len = 2\<rparr>
                           else \<lparr>q_head = 0x28, q_tail = 0x28, q_base = 0x28, q_len = 0\<rparr>), live = {0x10, 0x11}\<rparr>,
     qnodes = \<lparr>cells = (\<lambda>n. if n = 0x20 then \<lparr>qn_p = 0, qn_next = 0x21\<rparr>
                           else if n = 0x21 then \<lparr>qn_p = 0x200, qn_next = 0x22\<rparr>
                           else if n = 0x22 then \<lparr>qn_p = 0x300, qn_next = 0\<rparr> else \<lparr>qn_p = 0, qn_next = 0\<rparr>),
       live = {0x20, 0x21, 0x22, 0x28}\<rparr>\<rparr>"

definition example_sched :: sched where
  "example_sched = \<lparr>
     threads = \<lparr>cells = (\<lambda>t. \<lparr>t_ctx = t + 8, t_state = (if t = 0x200 \<or> t = 0x300 then 1 else 0), timeslice = 0,
                               base_priority = 0, priority = 0, isidle = 0, t_parent = 0\<rparr>),
       live = {0x100, 0x200, 0x300, 0x400}\<rparr>,
     procs = \<lparr>cells = (\<lambda>_. zero_process), live = {}\<rparr>,
     s_qs = example_queues, s_lists = tlists example_timers,
     s_ctx = example_stack\<lparr>ctxs := \<lparr>cells = (\<lambda>_. zero_context), live = {0x108, 0x208, 0x308, 0x408}\<rparr>\<rparr>,
     s_locks = example_lock, s_timers = example_timers, ready_queue = 0x10, zombie_queue = 0x11,
     sched_spinlock = 0, g_idle_thread = 0x400, nextpid = 1, numready = 0, priolevel = 0,
     cur = (\<lambda>_. 0x100), idl = (\<lambda>_. 0x400), active = (\<lambda>_. 0x108)\<rparr>"

lemma example_queues_rep: "two_queues example_queues 0x10 0x11 [0x200, 0x300] []"
proof -
  have "queue_rep example_queues 0x10 0x20 [0x21, 0x22] [0x200, 0x300]" "queue_rep example_queues 0x11 0x28 [] []"
    by (simp_all add: queue_rep_def example_queues_def valid_def qnext_def qval_def)
  then show ?thesis
    unfolding two_queues_def by force
qed

lemma example_sched_rep: "sched_rep example_sched 0 [0x200, 0x300] []"
  using example_queues_rep
  by (simp add: sched_rep_def example_sched_def valid_def legal_state_def THREAD_STATE_RUNNING_def THREAD_STATE_READY_def)

lemma example_sched_busy: "busy example_sched 0 0x100 [0x200, 0x300]" "on_cpu example_sched 0"
proof -
  show "busy example_sched 0 0x100 [0x200, 0x300]"
    unfolding busy_def using example_sched_rep
    by (intro conjI) (auto simp: example_sched_def states_def THREAD_STATE_RUNNING_def THREAD_STATE_READY_def)
  show "on_cpu example_sched 0"
    by (simp add: on_cpu_def example_sched_def)
qed

text \<open>Nodes for one call.\<close>

definition example_nodes :: "u32 \<Rightarrow> ptr list" where
  "example_nodes a = map (\<lambda>i. a + of_nat i) [0..<16]"

lemma example_nodes_fresh:
  "distinct (example_nodes 0x1000 @ example_nodes 0x2000)"
  "\<forall>n \<in> set (example_nodes 0x1000 @ example_nodes 0x2000). fresh (qnodes (s_qs example_sched)) n"
  by (simp_all add: example_nodes_def upt_rec fresh_def example_sched_def example_queues_def)

theorem reschedule_returns_witness:
  "\<exists>st' r. reschedule_internal example_sched 0 RESCHED_IDLE_RUNTHREAD NULL (example_nodes 0x1000) = Some (st', r) \<and>
     cur st' 0 = 0x200 \<and> r = Switched"
proof -
  have w: "waiting example_sched 0 [0x200, 0x300] = [0x200, 0x300, 0x100]"
    "marked example_sched 0 0x200 = THREAD_STATE_READY" "cur example_sched 0 = 0x100"
    by (simp_all add: waiting_def marked_def requeues_def states_def example_sched_def THREAD_STATE_RUNNING_def THREAD_STATE_READY_def)
  have "new_nodes example_sched (example_nodes 0x1000)" "length (example_nodes 0x1000) = 16"
    using example_nodes_fresh by (auto simp: new_nodes_def) (simp add: example_nodes_def)
  then show ?thesis
    using reschedule_returns [OF example_sched_rep, of "example_nodes 0x1000" NULL RESCHED_IDLE_RUNTHREAD] w
    by (auto simp: lock_ok_def resched_post_def split: if_splits)
qed

theorem sched_run_well_formed_witness:
  "\<exists>st' rs zs. sched_run example_sched 0 [Sleep (example_nodes 0x1000), Wake 0x100 0x2000, Tick 5] = Some st' \<and>
     sched_rep st' 0 rs zs \<and> cur st' 0 \<noteq> NULL"
proof -
  let ?ops = "[Sleep (example_nodes 0x1000), Wake 0x100 0x2000, Tick 5]"
  have "new_nodes example_sched (concat (map op_nodes ?ops))" "\<forall>p \<in> set ?ops. op_ok (threads example_sched) (length [0x200 :: ptr, 0x300] + length ?ops) p"
    "cur example_sched 0 \<noteq> NULL"
    by (simp_all add: new_nodes_def fresh_def example_nodes_def upt_rec example_sched_def example_queues_def valid_def)
  then show ?thesis
    by (intro sched_run_well_formed [OF example_sched_rep])
qed

theorem sched_round_robin_witness:
  "\<exists>st'. sched_run example_sched 0 (map Resched [example_nodes 0x1000, example_nodes 0x2000]) = Some st' \<and> cur st' 0 = 0x300 \<and>
     active st' 0 = t_ctx (cells (threads st') 0x300)"
  using sched_round_robin [OF example_sched_busy, of 1 "[example_nodes 0x1000, example_nodes 0x2000]"] example_nodes_fresh
  by (simp add: example_nodes_def)


end
