(* ===== verification/Forge_Power.thy ===== *)
theory Forge_Power
  imports Forge_Vmem_Init Forge_List Forge_Spinlock
begin

text \<open>
  Power management: the state machine of \<open>src/src/kernel/powerman.c\<close> with its callbacks, and the part of
  \<open>src/src/kernel/mach/pc/power.c\<close> that prepares and enters a sleep state. A callback is known by its address;
  its result is given by a function \<open>cb\<close> of the calls made before, its address and its argument, and every
  call is recorded. What the ACPI firmware answers is a record of functions.
\<close>

section \<open>Model of power.c\<close>

definition POWERMAN_STATE_HALT :: int where "POWERMAN_STATE_HALT = 1"
definition POWERMAN_STATE_CPUOFF :: int where "POWERMAN_STATE_CPUOFF = 2"
definition POWERMAN_STATE_STANDBY :: int where "POWERMAN_STATE_STANDBY = 3"
definition POWERMAN_STATE_HIBERNATE :: int where "POWERMAN_STATE_HIBERNATE = 4"
definition POWERMAN_STATE_MAX :: int where "POWERMAN_STATE_MAX = 5"
definition POWERMAN_EVENT_RTC :: int where "POWERMAN_EVENT_RTC = 0x1000"
definition POWERMAN_EVENT_POWERBUTTON :: int where "POWERMAN_EVENT_POWERBUTTON = 0x1001"
definition POWERMAN_EVENT_SLEEPBUTTON :: int where "POWERMAN_EVENT_SLEEPBUTTON = 0x1002"

definition ACPI_STATE_S0 :: u8 where "ACPI_STATE_S0 = 0"
definition ACPI_STATE_S1 :: u8 where "ACPI_STATE_S1 = 1"
definition ACPI_STATE_S2 :: u8 where "ACPI_STATE_S2 = 2"
definition ACPI_STATE_S3 :: u8 where "ACPI_STATE_S3 = 3"
definition ACPI_STATE_S4 :: u8 where "ACPI_STATE_S4 = 4"
definition ACPI_STATE_S5 :: u8 where "ACPI_STATE_S5 = 5"
definition ACPI_EVENT_POWER_BUTTON :: u32 where "ACPI_EVENT_POWER_BUTTON = 2"
definition ACPI_EVENT_SLEEP_BUTTON :: u32 where "ACPI_EVENT_SLEEP_BUTTON = 3"
definition ACPI_EVENT_RTC :: u32 where "ACPI_EVENT_RTC = 4"

lemmas power_defs =
  POWERMAN_STATE_WORKING_def POWERMAN_STATE_HALT_def POWERMAN_STATE_CPUOFF_def POWERMAN_STATE_STANDBY_def
  POWERMAN_STATE_HIBERNATE_def POWERMAN_STATE_OFF_def POWERMAN_STATE_MAX_def
  ACPI_STATE_S0_def ACPI_STATE_S1_def ACPI_STATE_S2_def ACPI_STATE_S3_def ACPI_STATE_S4_def ACPI_STATE_S5_def

text \<open>
  Entering a sleep state can be refused, it can end with the machine back in this code, through the return of
  the call or through the saved state, or with the machine off.
\<close>

datatype sleep_end = Refused | Resumed | Off

text \<open>Which calls of \<open>AcpiGetSleepTypeData\<close> and \<open>AcpiEnterSleepStatePrep\<close> succeed, how
  \<open>AcpiEnterSleepState\<close> ends, and \<open>pc_reloc_acpi_wakeup\<close>.\<close>

record acpi =
  sleep_type :: "u8 \<Rightarrow> bool"
  sleep_prep :: "u8 \<Rightarrow> bool"
  sleep_enter :: "u8 \<Rightarrow> sleep_end"
  pc_reloc_acpi_wakeup :: u64

record powerman =
  powerman_spinlock :: ptr
  powerman_cblist :: ptr
  current_state :: int
  pw_lists :: lmem
  pw_locks :: locksys
  waking_vector :: u32
  pw_log :: "(ptr \<times> int) list"

type_synonym callbacks = "(ptr \<times> int) list \<Rightarrow> ptr \<Rightarrow> int \<Rightarrow> int"

text \<open>The loop that looks for a supported state.\<close>

partial_function (option) supported_state :: "(u8 \<Rightarrow> bool) \<Rightarrow> u8 \<Rightarrow> u8 option" where
  "supported_state ok s =
     (if \<not> ok s then
        (if s = ACPI_STATE_S3 then supported_state ok ACPI_STATE_S2
         else if s = ACPI_STATE_S2 then supported_state ok ACPI_STATE_S1
         else if s = ACPI_STATE_S1 then Some ACPI_STATE_S0
         else supported_state ok s)
      else Some s)"

definition powerman_state_to_acpi :: "(u8 \<Rightarrow> bool) \<Rightarrow> int \<Rightarrow> u8 option" where
  "powerman_state_to_acpi ok status =
     supported_state ok
       (if status = POWERMAN_STATE_WORKING then ACPI_STATE_S0
        else if status = POWERMAN_STATE_HALT then ACPI_STATE_S1
        else if status = POWERMAN_STATE_CPUOFF then ACPI_STATE_S2
        else if status = POWERMAN_STATE_STANDBY then ACPI_STATE_S3
        else if status = POWERMAN_STATE_HIBERNATE then ACPI_STATE_S4
        else if status = POWERMAN_STATE_OFF then ACPI_STATE_S5
        else ACPI_STATE_S0)"

definition platform_powerman_earlyinit :: "bool \<Rightarrow> bool \<Rightarrow> int" where
  "platform_powerman_earlyinit root tables = (if \<not> root then -1 else if \<not> tables then -1 else 0)"

definition platform_powerman_prep :: "acpi \<Rightarrow> powerman \<Rightarrow> int \<Rightarrow> (powerman \<times> int) option" where
  "platform_powerman_prep a st new_state = do {
     s \<leftarrow> powerman_state_to_acpi (sleep_type a) new_state;
     if s = ACPI_STATE_S0 then Some (st, -1)
     else do {
       let st = (if s < ACPI_STATE_S5 then st\<lparr>waking_vector := ucast (pc_reloc_acpi_wakeup a)\<rparr> else st);
       if \<not> sleep_prep a s then Some (st, -1) else Some (st, 0)
     }
   }"

definition platform_powerman_enter :: "acpi \<Rightarrow> powerman \<Rightarrow> u32 \<Rightarrow> int \<Rightarrow> (powerman \<times> int) option" where
  "platform_powerman_enter a st cpu new_state = do {
     s \<leftarrow> powerman_state_to_acpi (sleep_type a) new_state;
     if s = ACPI_STATE_S4 then Some (st, -1)
     else do {
       let st = st\<lparr>pw_locks := set_ints (pw_locks st) cpu False\<rparr>;
       case sleep_enter a s of
         Refused \<Rightarrow> Some (st, -1)
       | Resumed \<Rightarrow> Some (st\<lparr>waking_vector := 0\<rparr>, 0)
       | Off \<Rightarrow> None
     }
   }"

section \<open>Model of powerman.c\<close>

text \<open>\<open>sp\<close> and \<open>l\<close> are the addresses of the new lock and list, \<open>r\<close> the result of \<open>platform_powerman_earlyinit\<close>.\<close>

definition powerman_earlyinit :: "powerman \<Rightarrow> int \<Rightarrow> ptr \<Rightarrow> ptr \<Rightarrow> (powerman \<times> int) option" where
  "powerman_earlyinit st r sp l =
     (if r \<noteq> 0 then Some (st\<lparr>current_state := POWERMAN_STATE_MAX\<rparr>, -1)
      else do {
        (ls, s) \<leftarrow> create_spinlock (pw_locks st) sp;
        (lm, c) \<leftarrow> create_list (pw_lists st) l;
        Some (st\<lparr>pw_locks := ls, powerman_spinlock := s, pw_lists := lm, powerman_cblist := c\<rparr>, 0)
      })"

text \<open>\<open>r\<close> is the result of \<open>platform_powerman_init\<close>.\<close>

definition powerman_init :: "powerman \<Rightarrow> u32 \<Rightarrow> int \<Rightarrow> (powerman \<times> int) option" where
  "powerman_init st cpu r =
     (if current_state st = POWERMAN_STATE_MAX then Some (st, -1)
      else do {
        let wasints = ints (pw_locks st) cpu;
        let st = st\<lparr>pw_locks := set_ints (pw_locks st) cpu False, current_state := POWERMAN_STATE_WORKING\<rparr>;
        if r \<noteq> 0 then do {
          lm \<leftarrow> delete_list (pw_lists st) (powerman_cblist st);
          ls \<leftarrow> delete_spinlock (pw_locks st) (powerman_spinlock st);
          let ls = (if wasints then set_ints ls cpu True else ls);
          Some (st\<lparr>pw_lists := lm, pw_locks := ls, current_state := POWERMAN_STATE_MAX\<rparr>, -1)
        } else Some (st\<lparr>pw_locks := (if wasints then set_ints (pw_locks st) cpu True else pw_locks st)\<rparr>, 0)
      })"

definition pw_acquire :: "powerman \<Rightarrow> u32 \<Rightarrow> powerman option" where
  "pw_acquire st cpu = do {
     ls \<leftarrow> spinlock_acquire (pw_locks st) cpu (powerman_spinlock st);
     Some (st\<lparr>pw_locks := ls\<rparr>)
   }"

definition pw_release :: "powerman \<Rightarrow> u32 \<Rightarrow> powerman option" where
  "pw_release st cpu = do {
     ls \<leftarrow> spinlock_release (pw_locks st) cpu (powerman_spinlock st);
     Some (st\<lparr>pw_locks := ls\<rparr>)
   }"

text \<open>\<open>n\<close> is the address of the new list node.\<close>

definition powerman_installcallback :: "powerman \<Rightarrow> u32 \<Rightarrow> ptr \<Rightarrow> ptr \<Rightarrow> powerman option" where
  "powerman_installcallback st cpu c n =
     (if current_state st = POWERMAN_STATE_MAX then Some st
      else do {
        st \<leftarrow> pw_acquire st cpu;
        lm \<leftarrow> list_insert (pw_lists st) (powerman_cblist st) c (-1) n;
        pw_release (st\<lparr>pw_lists := lm\<rparr>) cpu
      })"

text \<open>The search of \<open>powerman_removecallback\<close>, which has no end test of its own.\<close>

partial_function (option) find_callback :: "lmem \<Rightarrow> ptr \<Rightarrow> ptr \<Rightarrow> u32 \<Rightarrow> u32 option" where
  "find_callback m l c n = do {
     p \<leftarrow> list_at m l n;
     if p \<noteq> c then find_callback m l c (n + 1) else Some n
   }"

definition powerman_removecallback :: "powerman \<Rightarrow> u32 \<Rightarrow> ptr \<Rightarrow> powerman option" where
  "powerman_removecallback st cpu c =
     (if current_state st = POWERMAN_STATE_MAX then Some st
      else do {
        st \<leftarrow> pw_acquire st cpu;
        n \<leftarrow> find_callback (pw_lists st) (powerman_cblist st) c 0;
        len \<leftarrow> list_len (pw_lists st) (powerman_cblist st);
        lm \<leftarrow> (if n < len then list_remove (pw_lists st) (powerman_cblist st) n else Some (pw_lists st));
        pw_release (st\<lparr>pw_lists := lm\<rparr>) cpu
      })"

definition call_cb :: "callbacks \<Rightarrow> powerman \<Rightarrow> ptr \<Rightarrow> int \<Rightarrow> powerman \<times> int" where
  "call_cb cb st c s = (st\<lparr>pw_log := pw_log st @ [(c, s)]\<rparr>, cb (pw_log st) c s)"

text \<open>The loop that asks the callbacks; it stops behind the first that refuses.\<close>

partial_function (option) ask_loop :: "callbacks \<Rightarrow> powerman \<Rightarrow> u32 \<Rightarrow> int \<Rightarrow> (powerman \<times> int) option" where
  "ask_loop cb st n new_state = do {
     c \<leftarrow> list_at (pw_lists st) (powerman_cblist st) n;
     if c = NULL then Some (st, 0)
     else do {
       let (st, cbr) = call_cb cb st c new_state;
       if cbr \<noteq> 0 then Some (st, cbr) else ask_loop cb st (n + 1) new_state
     }
   }"

text \<open>The loops that notify the callbacks of the current state.\<close>

partial_function (option) tell_loop :: "callbacks \<Rightarrow> powerman \<Rightarrow> u32 \<Rightarrow> powerman option" where
  "tell_loop cb st n = do {
     c \<leftarrow> list_at (pw_lists st) (powerman_cblist st) n;
     if c = NULL then Some st
     else tell_loop cb (fst (call_cb cb st c (current_state st))) (n + 1)
   }"

definition powerman_enter :: "callbacks \<Rightarrow> acpi \<Rightarrow> powerman \<Rightarrow> u32 \<Rightarrow> int \<Rightarrow> (powerman \<times> int) option" where
  "powerman_enter cb a st cpu new_state =
     (if current_state st = POWERMAN_STATE_MAX then Some (st, -1)
      else do {
        let was = ints (pw_locks st) cpu;
        st \<leftarrow> pw_acquire st cpu;
        (st, cbr) \<leftarrow> ask_loop cb st 0 new_state;
        if cbr \<noteq> 0 then do {
          st \<leftarrow> tell_loop cb st 0;
          st \<leftarrow> pw_release st cpu;
          Some (st, cbr)
        } else do {
          (st, r) \<leftarrow> platform_powerman_prep a st new_state;
          if r \<noteq> 0 then do {
            st \<leftarrow> tell_loop cb st 0;
            st \<leftarrow> pw_release st cpu;
            Some (st, -1)
          } else do {
            let old_state = current_state st;
            let st = st\<lparr>current_state := new_state\<rparr>;
            (st, r) \<leftarrow> platform_powerman_enter a st cpu new_state;
            if r \<noteq> 0 then do {
              st \<leftarrow> tell_loop cb (st\<lparr>current_state := old_state\<rparr>) 0;
              st \<leftarrow> pw_release st cpu;
              Some (st, -1)
            } else do {
              st \<leftarrow> tell_loop cb (st\<lparr>current_state := POWERMAN_STATE_WORKING\<rparr>) 0;
              st \<leftarrow> pw_release st cpu;
              Some (if was then st\<lparr>pw_locks := set_ints (pw_locks st) cpu True\<rparr> else st, 0)
            }
          }
        }
      })"

definition powerman_event :: "callbacks \<Rightarrow> acpi \<Rightarrow> powerman \<Rightarrow> u32 \<Rightarrow> int \<Rightarrow> (powerman \<times> int) option" where
  "powerman_event cb a st cpu event =
     (if event = POWERMAN_EVENT_RTC then Some (st, 0)
      else if event = POWERMAN_EVENT_POWERBUTTON then do { (st, _) \<leftarrow> powerman_enter cb a st cpu POWERMAN_STATE_OFF; Some (st, 0) }
      else if event = POWERMAN_EVENT_SLEEPBUTTON then do { (st, _) \<leftarrow> powerman_enter cb a st cpu POWERMAN_STATE_STANDBY; Some (st, 0) }
      else Some (st, 0))"

definition pc_acpi_handle_event :: "callbacks \<Rightarrow> acpi \<Rightarrow> powerman \<Rightarrow> u32 \<Rightarrow> u32 \<Rightarrow> (powerman \<times> u32) option" where
  "pc_acpi_handle_event cb a st cpu event =
     (if event = ACPI_EVENT_RTC then do { (st, _) \<leftarrow> powerman_event cb a st cpu POWERMAN_EVENT_RTC; Some (st, 0) }
      else if event = ACPI_EVENT_POWER_BUTTON then do { (st, _) \<leftarrow> powerman_event cb a st cpu POWERMAN_EVENT_POWERBUTTON; Some (st, 0) }
      else if event = ACPI_EVENT_SLEEP_BUTTON then do { (st, _) \<leftarrow> powerman_event cb a st cpu POWERMAN_EVENT_SLEEPBUTTON; Some (st, 0) }
      else Some (st, 0))"

section \<open>Sleep states\<close>

lemma supported_state_hangs: "\<not> ok s \<Longrightarrow> s \<notin> {1, 2, 3} \<Longrightarrow> supported_state ok s = None"
proof -
  have "ok s \<or> s \<in> {1, 2, 3}" if "supported_state ok s = Some y" for y
    by (rule supported_state.raw_induct [where P = "\<lambda>ok s _. ok s \<or> s \<in> {1, 2, 3}", OF _ that])
      (auto simp: power_defs split: if_splits)
  then show "\<not> ok s \<Longrightarrow> s \<notin> {1, 2, 3} \<Longrightarrow> supported_state ok s = None"
    by (cases "supported_state ok s") auto
qed


section \<open>Callbacks\<close>

definition pw_ready :: "powerman \<Rightarrow> ptr list \<Rightarrow> bool" where
  "pw_ready st cs \<longleftrightarrow> current_state st \<noteq> POWERMAN_STATE_MAX \<and> lock_free (pw_locks st) (powerman_spinlock st) \<and>
     (\<exists>ns. list_rep (pw_lists st) (powerman_cblist st) ns cs) \<and> NULL \<notin> set cs"

fun ask :: "callbacks \<Rightarrow> (ptr \<times> int) list \<Rightarrow> int \<Rightarrow> ptr list \<Rightarrow> (ptr \<times> int) list \<times> int" where
  "ask cb lg s [] = (lg, 0)"
| "ask cb lg s (c # cs) = (if cb lg c s \<noteq> 0 then (lg @ [(c, s)], cb lg c s) else ask cb (lg @ [(c, s)]) s cs)"

lemma ask_loop_ask:
  assumes "list_rep (pw_lists st) (powerman_cblist st) ns (pre @ rest)" "NULL \<notin> set rest"
  shows "ask_loop cb st (of_nat (length pre)) s =
    (case ask cb (pw_log st) s rest of (lg, r) \<Rightarrow> Some (st\<lparr>pw_log := lg\<rparr>, r))"
  using assms
proof (induction rest arbitrary: pre st)
  case (Cons c cs)
  have c: "list_at (pw_lists st) (powerman_cblist st) (of_nat (length pre)) = Some c" "c \<noteq> NULL"
    using list_at_behind [OF Cons.prems(1)] Cons.prems(2) by auto
  have "ask_loop cb (st\<lparr>pw_log := pw_log st @ [(c, s)]\<rparr>) (of_nat (length (pre @ [c]))) s =
    (case ask cb (pw_log st @ [(c, s)]) s cs of (lg, r) \<Rightarrow> Some (st\<lparr>pw_log := lg\<rparr>, r))"
    using Cons.IH [of "st\<lparr>pw_log := pw_log st @ [(c, s)]\<rparr>" "pre @ [c]"] Cons.prems by simp
  with c show ?case
    by (subst ask_loop.simps) (simp add: call_cb_def add.commute)
qed (subst ask_loop.simps, simp add: list_at_nth)

lemma tell_loop_all:
  assumes "list_rep (pw_lists st) (powerman_cblist st) ns (pre @ rest)" "NULL \<notin> set rest"
  shows "tell_loop cb st (of_nat (length pre)) =
    Some (st\<lparr>pw_log := pw_log st @ map (\<lambda>c. (c, current_state st)) rest\<rparr>)"
  using assms
proof (induction rest arbitrary: pre st)
  case (Cons c cs)
  have c: "list_at (pw_lists st) (powerman_cblist st) (of_nat (length pre)) = Some c" "c \<noteq> NULL"
    using list_at_behind [OF Cons.prems(1)] Cons.prems(2) by auto
  have "tell_loop cb (st\<lparr>pw_log := pw_log st @ [(c, current_state st)]\<rparr>) (of_nat (length (pre @ [c]))) =
    Some (st\<lparr>pw_log := pw_log st @ map (\<lambda>c. (c, current_state st)) (c # cs)\<rparr>)"
    using Cons.IH [of "st\<lparr>pw_log := pw_log st @ [(c, current_state st)]\<rparr>" "pre @ [c]"] Cons.prems by simp
  with c show ?case
    by (subst tell_loop.simps) (simp add: call_cb_def add.commute)
qed (subst tell_loop.simps, simp add: list_at_nth)

text \<open>Every callback accepts the state \<open>s\<close> when it is asked behind those in front of it.\<close>

definition accepting :: "callbacks \<Rightarrow> (ptr \<times> int) list \<Rightarrow> int \<Rightarrow> ptr list \<Rightarrow> bool" where
  "accepting cb lg s cs \<longleftrightarrow> (\<forall>i < length cs. cb (lg @ map (\<lambda>c. (c, s)) (take i cs)) (cs ! i) s = 0)"

lemma accepting_Cons: "accepting cb lg s (c # cs) \<longleftrightarrow> cb lg c s = 0 \<and> accepting cb (lg @ [(c, s)]) s cs"
  by (simp add: accepting_def All_less_Suc2)

lemma ask_accepting:
  "accepting cb lg s pre \<Longrightarrow> ask cb lg s (pre @ rest) = ask cb (lg @ map (\<lambda>c. (c, s)) pre) s rest"
  by (induction pre arbitrary: lg) (auto simp: accepting_Cons)


section \<open>Properties\<close>

text \<open>
  C34. A callback can veto a change of the power state. The callbacks behind it are not asked, then every
  callback is told the state the system stays in, the caller gets the code of the veto, and the power state,
  the lock and the interrupt flag are as before.
\<close>
theorem powerman_enter_refused:
  assumes "pw_ready st (pre @ c # post)" "accepting cb (pw_log st) s pre"
    and "cb (pw_log st @ map (\<lambda>d. (d, s)) pre) c s = r" "r \<noteq> 0"
  shows "\<exists>st'. powerman_enter cb a st cpu s = Some (st', r) \<and> pw_ready st' (pre @ c # post) \<and>
    current_state st' = current_state st \<and> ints (pw_locks st') = ints (pw_locks st) \<and>
    pw_log st' = pw_log st @ map (\<lambda>d. (d, s)) (pre @ [c]) @ map (\<lambda>d. (d, current_state st)) (pre @ c # post)"
proof -
  let ?sp = "powerman_spinlock st"
  obtain ns where rep: "list_rep (pw_lists st) (powerman_cblist st) ns (pre @ c # post)" "NULL \<notin> set (pre @ c # post)"
    and lock: "lock_free (pw_locks st) ?sp" and state: "current_state st \<noteq> POWERMAN_STATE_MAX"
    using assms(1) by (auto simp: pw_ready_def)
  define st1 where "st1 = st\<lparr>pw_locks := with_lock (pw_locks st) cpu ?sp 1 False\<rparr>"
  have rep1: "list_rep (pw_lists st1) (powerman_cblist st1) ns ([] @ pre @ c # post)"
    using rep by (simp add: st1_def)
  have ask: "ask cb (pw_log st1) s (pre @ c # post) = (pw_log st @ map (\<lambda>d. (d, s)) pre @ [(c, s)], r)"
    using assms(2-4) by (simp add: ask_accepting st1_def)
  show ?thesis
    using ask_loop_ask [OF rep1 rep(2)[folded append_Nil], of cb s] lock state
      tell_loop_all [of "st1\<lparr>pw_log := pw_log st @ map (\<lambda>d. (d, s)) pre @ [(c, s)]\<rparr>" ns "[]" "pre @ c # post"] rep rep1 ask assms(4)
    by (auto simp: powerman_enter_def pw_acquire_def pw_release_def spinlock_acquire_free spinlock_release_taken
      st1_def pw_ready_def Let_def)
qed

text \<open>Whether the machine goes to the state \<open>x\<close> and comes back.\<close>

definition slept :: "acpi \<Rightarrow> u8 \<Rightarrow> bool" where
  "slept a x \<longleftrightarrow> x \<noteq> ACPI_STATE_S0 \<and> x \<noteq> ACPI_STATE_S4 \<and> sleep_prep a x \<and> sleep_enter a x = Resumed"

text \<open>
  C33. When all callbacks accept, the call enters the sleep state and returns 0 once the machine is awake, with
  the system in the working state, or returns -1 with the power state unchanged, when the firmware refuses.
  In both cases every callback has been asked once, in order, and then told the resulting state once, the lock
  is free and the interrupt flag is as before, although the platform code turns interrupts off.
\<close>
theorem powerman_enter_accepted:
  assumes "pw_ready st cs" "accepting cb (pw_log st) s cs"
    and "powerman_state_to_acpi (sleep_type a) s = Some x" "sleep_enter a x \<noteq> Off"
  shows "\<exists>st'. powerman_enter cb a st cpu s = Some (st', if slept a x then 0 else -1) \<and> pw_ready st' cs \<and>
    current_state st' = (if slept a x then POWERMAN_STATE_WORKING else current_state st) \<and>
    ints (pw_locks st') = ints (pw_locks st) \<and>
    pw_log st' = pw_log st @ map (\<lambda>c. (c, s)) cs @ map (\<lambda>c. (c, current_state st')) cs"
proof -
  let ?sp = "powerman_spinlock st"
  obtain ns where rep: "list_rep (pw_lists st) (powerman_cblist st) ns cs" "NULL \<notin> set cs"
    and lock: "lock_free (pw_locks st) ?sp" and state: "current_state st \<noteq> POWERMAN_STATE_MAX"
    using assms(1) by (auto simp: pw_ready_def)
  define st1 where "st1 = st\<lparr>pw_locks := with_lock (pw_locks st) cpu ?sp 1 False\<rparr>"
  have "ask cb (pw_log st1) s cs = (pw_log st @ map (\<lambda>c. (c, s)) cs, 0)"
    using ask_accepting [OF assms(2), of "[]"] by (simp add: st1_def)
  with ask_loop_ask [of st1 ns "[]" cs cb s] rep
  have ask: "ask_loop cb st1 0 s = Some (st1\<lparr>pw_log := pw_log st @ map (\<lambda>c. (c, s)) cs\<rparr>, 0)"
    by (simp add: st1_def)
  have tell: "tell_loop cb st' 0 = Some (st'\<lparr>pw_log := pw_log st' @ map (\<lambda>c. (c, current_state st')) cs\<rparr>)"
    if "pw_lists st' = pw_lists st" "powerman_cblist st' = powerman_cblist st" for st'
    using tell_loop_all [of st' ns "[]" cs cb] rep that by simp
  have ready: "pw_ready st' cs"
    if "pw_lists st' = pw_lists st" "powerman_cblist st' = powerman_cblist st" "powerman_spinlock st' = ?sp"
      "pw_locks st' = with_lock (pw_locks st) cpu ?sp 0 b" "current_state st' \<in> {POWERMAN_STATE_WORKING, current_state st}" for st' b
    using rep lock state that by (auto simp: pw_ready_def power_defs)
  show ?thesis
    using ask lock state assms(3,4)
    by (cases "sleep_enter a x")
      (auto simp: powerman_enter_def pw_acquire_def pw_release_def spinlock_acquire_free spinlock_release_taken
        st1_def Let_def platform_powerman_prep_def platform_powerman_enter_def tell slept_def intro!: ready)
qed

text \<open>
  Removing a callback that is not installed never ends: \<open>list_at\<close> gives \<open>NULL\<close> behind the end of the list and
  the index wraps around, with the lock held and interrupts off.
\<close>
lemma powerman_removecallback_absent:
  assumes "pw_ready st cs" "c \<notin> set cs" "c \<noteq> NULL"
  shows "powerman_removecallback st cpu c = None"
proof -
  obtain ns where rep: "list_rep (pw_lists st) (powerman_cblist st) ns cs"
    using assms(1) by (auto simp: pw_ready_def)
  have "False" if "find_callback (pw_lists st) (powerman_cblist st) c n = Some k" for n k
  proof -
    have "list_at (pw_lists st) (powerman_cblist st) k = Some c"
      by (rule find_callback.raw_induct [where P = "\<lambda>m l c n k. list_at m l k = Some c", OF _ that])
        (auto split: if_splits)
    with list_at_rep [OF rep] assms(2,3) show False
      by (auto split: if_splits)
  qed
  then have "find_callback (pw_lists st) (powerman_cblist st) c 0 = None"
    by (cases "find_callback (pw_lists st) (powerman_cblist st) c 0") auto
  with assms(1) show ?thesis
    by (simp add: powerman_removecallback_def pw_acquire_def pw_ready_def spinlock_acquire_free)
qed

text \<open>Installing a callback puts it behind the others.\<close>

lemma powerman_installcallback_ready:
  assumes "pw_ready st cs" "fresh (lnodes (pw_lists st)) n" "length cs + 1 < 2 ^ 32" "c \<noteq> NULL"
  shows "\<exists>st'. powerman_installcallback st cpu c n = Some st' \<and> pw_ready st' (cs @ [c])"
proof -
  obtain ns where rep: "list_rep (pw_lists st) (powerman_cblist st) ns cs"
    using assms(1) by (auto simp: pw_ready_def)
  have "(-1 :: u32) = 0xFFFFFFFF"
    by simp
  then have "unat (-1 :: u32) = 0xFFFFFFFF"
    by (simp only: unat_numeral) simp
  with list_insert_back [OF rep assms(2,3), of "-1"] assms(3) obtain lm
    where lm: "list_insert (pw_lists st) (powerman_cblist st) c (-1) n = Some lm" "list_rep lm (powerman_cblist st) (ns @ [n]) (cs @ [c])"
    by auto
  with assms(1,4) show ?thesis
    by (auto simp: powerman_installcallback_def pw_acquire_def pw_release_def pw_ready_def spinlock_acquire_free spinlock_release_taken)
qed

text \<open>Two callbacks, at 0x500 and 0x600, on a machine that supports standby.\<close>

definition example_power :: powerman where
  "example_power = \<lparr>powerman_spinlock = 0x10, powerman_cblist = 0x20, current_state = 0,
     pw_lists = \<lparr>lists = \<lparr>cells = (\<lambda>_. \<lparr>ll_len = 2, ll_head = 0x30, ll_tail = 0x31\<rparr>), live = {0x20}\<rparr>,
       lnodes = \<lparr>cells = (\<lambda>n. \<lparr>ln_p = (if n = 0x30 then 0x500 else 0x600), ln_next = (if n = 0x30 then 0x31 else 0), ln_prev = 0\<rparr>),
         live = {0x30, 0x31}\<rparr>\<rparr>,
     pw_locks = example_lock, waking_vector = 0, pw_log = []\<rparr>"

definition example_acpi :: acpi where
  "example_acpi = \<lparr>sleep_type = (\<lambda>s. s \<noteq> 2), sleep_prep = (\<lambda>_. True), sleep_enter = (\<lambda>_. Resumed), pc_reloc_acpi_wakeup = 0x8000\<rparr>"

lemma example_power_ready: "pw_ready example_power ([0x500] @ 0x600 # [])"
  unfolding pw_ready_def
  by (auto simp: example_power_def example_lock_def lock_free_def no_lock_def list_rep_def valid_def lnext_def lval_def power_defs
    intro!: exI [of _ "[0x30, 0x31]"])

theorem powerman_enter_refused_witness:
  "\<exists>st'. powerman_enter (\<lambda>_ c _. if c = 0x600 then 7 else 0) example_acpi example_power 1 POWERMAN_STATE_STANDBY = Some (st', 7) \<and>
    pw_log st' = [(0x500, 3), (0x600, 3), (0x500, 0), (0x600, 0)]"
  using powerman_enter_refused [OF example_power_ready, of "\<lambda>_ c _. if c = 0x600 then 7 else 0" POWERMAN_STATE_STANDBY 7 example_acpi 1]
  by (auto simp: accepting_def power_defs example_power_def)

theorem powerman_enter_accepted_witness:
  "\<exists>st'. powerman_enter (\<lambda>_ _ _. 0) example_acpi example_power 1 POWERMAN_STATE_STANDBY = Some (st', 0) \<and>
    pw_log st' = [(0x500, 3), (0x600, 3), (0x500, 0), (0x600, 0)]"
proof -
  have "powerman_state_to_acpi (sleep_type example_acpi) POWERMAN_STATE_STANDBY = Some 3"
    by (simp add: powerman_state_to_acpi_def supported_state.simps example_acpi_def power_defs)
  from powerman_enter_accepted [OF example_power_ready _ this, of "\<lambda>_ _ _. 0" 1] show ?thesis
    by (auto simp: accepting_def power_defs example_power_def slept_def example_acpi_def)
qed

end
