(* ===== verification/Forge_Semaphore.thy ===== *)
theory Forge_Semaphore
  imports Forge_Sched
begin

text \<open>
  Counting semaphores, \<open>src/src/kernel/semaphore.c\<close>, over the spinlocks, the queues and the scheduler. The
  functions describe one processor; \<open>sem_enqueue\<close> and \<open>thread_sleep\<close> are separate steps of
  \<open>semaphore_acquire\<close>, so that other processors can be put between them.
\<close>

section \<open>Model of semaphore.c\<close>

record semaphore =
  sem_count :: u32
  sem_max :: u32
  sem_lock :: ptr
  sem_queue :: ptr
  cleanup :: int

record semsys =
  sems :: "semaphore heap"
  s_sched :: sched

definition set_locks :: "semsys \<Rightarrow> locksys \<Rightarrow> semsys" where
  "set_locks ss ls = ss\<lparr>s_sched := (s_sched ss)\<lparr>s_locks := ls\<rparr>\<rparr>"

definition set_queues :: "semsys \<Rightarrow> qmem \<Rightarrow> semsys" where
  "set_queues ss qs = ss\<lparr>s_sched := (s_sched ss)\<lparr>s_qs := qs\<rparr>\<rparr>"

text \<open>The addresses are those of the semaphore, its lock, its queue and the first node of the queue.\<close>

definition create_semaphore :: "semsys \<Rightarrow> u32 \<Rightarrow> u32 \<Rightarrow> ptr \<times> ptr \<times> ptr \<times> ptr \<Rightarrow> (semsys \<times> ptr) option" where
  "create_semaphore ss mx initial = (\<lambda>(ret, lk, q, b). do {
     let h = malloc (sems ss) ret;
     h \<leftarrow> upd h ret (\<lambda>s. s\<lparr>sem_count := initial\<rparr>);
     h \<leftarrow> upd h ret (\<lambda>s. s\<lparr>sem_max := mx\<rparr>);
     (ls, l) \<leftarrow> create_spinlock (s_locks (s_sched ss)) lk;
     h \<leftarrow> upd h ret (\<lambda>s. s\<lparr>sem_lock := l\<rparr>);
     (qs, t) \<leftarrow> create_queue (s_qs (s_sched ss)) q b;
     h \<leftarrow> upd h ret (\<lambda>s. s\<lparr>sem_queue := t\<rparr>);
     h \<leftarrow> upd h ret (\<lambda>s. s\<lparr>cleanup := 0\<rparr>);
     Some (set_queues (set_locks (ss\<lparr>sems := h\<rparr>) ls) qs, ret)
   })"

text \<open>All threads of the queue are woken; \<open>ns\<close> are the addresses for their nodes in the ready queue.\<close>

partial_function (option) wake_loop :: "sched \<Rightarrow> ptr \<Rightarrow> ptr list \<Rightarrow> sched option" where
  "wake_loop st q ns = do {
     (qs, t) \<leftarrow> queue_pop (s_qs st) q;
     if t \<noteq> NULL then do {
       st \<leftarrow> thread_wake (st\<lparr>s_qs := qs\<rparr>) t (node ns 0);
       wake_loop st q (tl ns)
     } else Some (st\<lparr>s_qs := qs\<rparr>)
   }"

definition delete_semaphore :: "semsys \<Rightarrow> u32 \<Rightarrow> ptr \<Rightarrow> ptr list \<Rightarrow> semsys option" where
  "delete_semaphore ss cpu sem ns =
     (if sem = NULL then Some ss
      else do {
        s \<leftarrow> load (sems ss) sem;
        ls \<leftarrow> spinlock_acquire (s_locks (s_sched ss)) cpu (sem_lock s);
        let ss = set_locks ss ls;
        was_empty \<leftarrow> queue_empty (s_qs (s_sched ss)) (sem_queue s);
        sc \<leftarrow> wake_loop (s_sched ss) (sem_queue s) ns;
        qs \<leftarrow> delete_queue (s_qs sc) (sem_queue s);
        let ss = set_queues (ss\<lparr>s_sched := sc\<rparr>) qs;
        ls \<leftarrow> spinlock_release (s_locks (s_sched ss)) cpu (sem_lock s);
        ls \<leftarrow> delete_spinlock ls (sem_lock s);
        let ss = set_locks ss ls;
        h \<leftarrow> (if was_empty then free (sems ss) sem else upd (sems ss) sem (\<lambda>s. s\<lparr>cleanup := 1\<rparr>));
        Some (ss\<lparr>sems := h\<rparr>)
      })"

text \<open>The exchange always succeeds when no other processor changes the count in between.\<close>

definition semaphore_tryacquire :: "semsys \<Rightarrow> ptr \<Rightarrow> u32 \<Rightarrow> (semsys \<times> bool) option" where
  "semaphore_tryacquire ss sem cnt =
     (if sem = NULL then Some (ss, False)
      else do {
        let cnt = (if cnt = 0 then 1 else cnt);
        s \<leftarrow> load (sems ss) sem;
        let cnt = (if cnt > sem_max s then sem_max s else cnt);
        let value = sem_count s;
        if cnt > value then Some (ss, False)
        else do {
          h \<leftarrow> upd (sems ss) sem (\<lambda>s. s\<lparr>sem_count := value - cnt\<rparr>);
          Some (ss\<lparr>sems := h\<rparr>, True)
        }
      })"

text \<open>A round of the loop of \<open>semaphore_acquire\<close> up to the call of \<open>thread_sleep\<close>; the result says whether
  the units were there. \<open>n\<close> is the address for the node in the queue of the semaphore.\<close>

definition sem_enqueue :: "semsys \<Rightarrow> u32 \<Rightarrow> ptr \<Rightarrow> u32 \<Rightarrow> ptr \<Rightarrow> (semsys \<times> bool) option" where
  "sem_enqueue ss cpu sem cnt n = do {
     s \<leftarrow> load (sems ss) sem;
     ls \<leftarrow> spinlock_acquire (s_locks (s_sched ss)) cpu (sem_lock s);
     (ss, got) \<leftarrow> semaphore_tryacquire (set_locks ss ls) sem cnt;
     ss \<leftarrow> (if got then Some ss
           else do {
             qs \<leftarrow> queue_push (s_qs (s_sched ss)) (sem_queue s) (sched_current_thread (s_sched ss) cpu) n;
             Some (set_queues ss qs)
           });
     ls \<leftarrow> spinlock_release (s_locks (s_sched ss)) cpu (sem_lock s);
     Some (set_locks ss ls, got)
   }"

text \<open>
  The loop, up to the first context switch. \<open>nss\<close> has the addresses for the queue nodes of each round, the one
  for the queue of the semaphore first.
\<close>

partial_function (option) sem_wait :: "semsys \<Rightarrow> u32 \<Rightarrow> ptr \<Rightarrow> u32 \<Rightarrow> ptr list list \<Rightarrow> (semsys \<times> outcome) option" where
  "sem_wait ss cpu sem cnt nss = do {
     let ns = (case nss of [] \<Rightarrow> [] | ns # _ \<Rightarrow> ns);
     (ss, got) \<leftarrow> sem_enqueue ss cpu sem cnt (node ns 0);
     if got then Some (ss, Returned)
     else do {
       (sc, r) \<leftarrow> thread_sleep (s_sched ss) cpu (tl ns);
       let ss = ss\<lparr>s_sched := sc\<rparr>;
       case r of
         Switched \<Rightarrow> Some (ss, Switched)
       | Returned \<Rightarrow> do {
           s \<leftarrow> load (sems ss) sem;
           if cleanup s \<noteq> 0 then Some (ss, Returned) else sem_wait ss cpu sem cnt (tl nss)
         }
     }
   }"

definition semaphore_acquire :: "semsys \<Rightarrow> u32 \<Rightarrow> ptr \<Rightarrow> u32 \<Rightarrow> ptr list list \<Rightarrow> (semsys \<times> outcome) option" where
  "semaphore_acquire ss cpu sem cnt nss =
     (if sem = NULL then Some (ss, Returned)
      else do {
        let cnt = (if cnt = 0 then 1 else cnt);
        (ss, got) \<leftarrow> semaphore_tryacquire ss sem cnt;
        if got then Some (ss, Returned)
        else do {
          s \<leftarrow> load (sems ss) sem;
          let cnt = (if cnt > sem_max s then sem_max s else cnt);
          sem_wait ss cpu sem cnt nss
        }
      })"

text \<open>The sleeping thread goes on here once it runs again.\<close>

definition sem_resumed :: "semsys \<Rightarrow> u32 \<Rightarrow> ptr \<Rightarrow> u32 \<Rightarrow> ptr list list \<Rightarrow> (semsys \<times> outcome) option" where
  "sem_resumed ss cpu sem cnt nss = do {
     s \<leftarrow> load (sems ss) sem;
     if cleanup s \<noteq> 0 then Some (ss, Returned) else sem_wait ss cpu sem cnt nss
   }"

definition semaphore_release :: "semsys \<Rightarrow> u32 \<Rightarrow> ptr \<Rightarrow> u32 \<Rightarrow> ptr list \<Rightarrow> semsys option" where
  "semaphore_release ss cpu sem cnt ns =
     (if sem = NULL then Some ss
      else do {
        let cnt = (if cnt = 0 then 1 else cnt);
        s \<leftarrow> load (sems ss) sem;
        let cnt = (if cnt > sem_max s then sem_max s else cnt);
        ls \<leftarrow> spinlock_acquire (s_locks (s_sched ss)) cpu (sem_lock s);
        let ss = set_locks ss ls;
        h \<leftarrow> upd (sems ss) sem (\<lambda>s. s\<lparr>sem_count := sem_count s + cnt\<rparr>);
        h \<leftarrow> upd h sem (\<lambda>s. if sem_count s > sem_max s then s\<lparr>sem_count := sem_max s\<rparr> else s);
        sc \<leftarrow> wake_loop (s_sched ss) (sem_queue s) ns;
        ls \<leftarrow> spinlock_release (s_locks sc) cpu (sem_lock s);
        Some (set_locks (ss\<lparr>sems := h, s_sched := sc\<rparr>) ls)
      })"

section \<open>Three queues\<close>

text \<open>A queue with its set of nodes, and three queues that share nothing.\<close>

definition queue_of :: "qmem \<Rightarrow> ptr \<Rightarrow> ptr set \<Rightarrow> ptr list \<Rightarrow> bool" where
  "queue_of m q A xs \<longleftrightarrow> (\<exists>d ns. A = set (d # ns) \<and> queue_rep m q d ns xs)"

lemma queue_of_live: "queue_of m q A xs \<Longrightarrow> A \<subseteq> live (qnodes m)"
  by (auto simp: queue_of_def queue_rep_def)

lemma queue_of_frame:
  assumes "queue_of m q' B ys" "queue_frame m q A m'" "q' \<noteq> q" "A \<inter> B = {}"
  shows "queue_of m' q' B ys"
  using assms queue_rep_frame [OF _ assms(2,3)] unfolding queue_of_def by (metis inf_commute)

lemma queue_of_push:
  assumes "queue_of m q A xs" "fresh (qnodes m) n"
  shows "\<exists>m'. queue_push m q x n = Some m' \<and> queue_of m' q (insert n A) (xs @ [x]) \<and> queue_frame m q (insert n A) m' \<and>
    live (qnodes m') = insert n (live (qnodes m))"
proof -
  obtain d ns where q: "A = set (d # ns)" "queue_rep m q d ns xs"
    using assms(1) by (auto simp: queue_of_def)
  obtain m' where m': "queue_push m q x n = Some m'" "queue_rep m' q d (ns @ [n]) (xs @ [x])"
    "queue_frame m q (set (d # ns) \<union> {n}) m'" "live (qnodes m') = insert n (live (qnodes m))"
    by (rule queue_push_rep [OF q(2) assms(2)])
  have eq: "set (d # ns) \<union> {n} = insert n A" "insert n A = set (d # ns @ [n])"
    using q(1) by auto
  then have "queue_of m' q (insert n A) (xs @ [x])"
    unfolding queue_of_def using m'(2) by blast
  with m' eq(1) show ?thesis
    by auto
qed

lemma queue_of_pop:
  assumes "queue_of m q A (x # xs)"
  shows "\<exists>m' B. queue_pop m q = Some (m', x) \<and> B \<subseteq> A \<and> queue_of m' q B xs \<and> queue_frame m q A m' \<and>
    live (qnodes m') \<subseteq> live (qnodes m)"
proof -
  obtain d ns' where q: "A = set (d # ns')" "queue_rep m q d ns' (x # xs)"
    using assms by (auto simp: queue_of_def)
  then obtain n ns where ns: "ns' = n # ns"
    by (cases ns') (auto simp: queue_rep_def)
  obtain m' where m': "queue_pop m q = Some (m', x)" "queue_rep m' q n ns xs" "queue_frame m q (set (d # n # ns)) m'"
    "live (qnodes m') = live (qnodes m) - {d}"
    by (rule queue_pop_rep [OF q(2) [unfolded ns]])
  with q(1) ns show ?thesis
    unfolding queue_of_def by (intro exI [of _ m'] exI [of _ "set (n # ns)"]) auto
qed

lemma queue_of_pop_empty: "queue_of m q A [] \<Longrightarrow> queue_pop m q = Some (m, NULL)"
  using queue_pop_empty by (auto simp: queue_of_def queue_rep_def)

definition three_queues :: "qmem \<Rightarrow> ptr \<Rightarrow> ptr \<Rightarrow> ptr \<Rightarrow> ptr list \<Rightarrow> ptr list \<Rightarrow> ptr list \<Rightarrow> bool" where
  "three_queues m q r s xs ys ws \<longleftrightarrow> distinct [q, r, s] \<and>
     (\<exists>A B C. queue_of m q A xs \<and> queue_of m r B ys \<and> queue_of m s C ws \<and> A \<inter> B = {} \<and> A \<inter> C = {} \<and> B \<inter> C = {})"

lemma three_queues_rotate: "three_queues m q r s xs ys ws \<longleftrightarrow> three_queues m s q r ws xs ys"
  unfolding three_queues_def by (simp add: Int_commute) blast

lemma three_two: "three_queues m q r s xs ys ws \<Longrightarrow> two_queues m q r xs ys"
  unfolding three_queues_def two_queues_def queue_of_def by auto blast

lemma three_queues_push:
  assumes "three_queues m q r s xs ys ws" "fresh (qnodes m) n"
  shows "\<exists>m'. queue_push m q x n = Some m' \<and> three_queues m' q r s (xs @ [x]) ys ws \<and> live (qnodes m') = insert n (live (qnodes m))"
proof -
  obtain A B C where q: "queue_of m q A xs" "queue_of m r B ys" "queue_of m s C ws" "A \<inter> B = {}" "A \<inter> C = {}" "B \<inter> C = {}"
    and ne: "distinct [q, r, s]"
    using assms(1) by (auto simp: three_queues_def)
  obtain m' where m': "queue_push m q x n = Some m'" "queue_of m' q (insert n A) (xs @ [x])" "queue_frame m q (insert n A) m'"
    "live (qnodes m') = insert n (live (qnodes m))"
    using queue_of_push [OF q(1) assms(2)] by blast
  have sep: "insert n A \<inter> B = {}" "insert n A \<inter> C = {}"
    using q assms(2) queue_of_live [OF q(2)] queue_of_live [OF q(3)] by (auto simp: fresh_def)
  have "queue_of m' r B ys" "queue_of m' s C ws"
    using queue_of_frame [OF q(2) m'(3) _ sep(1)] queue_of_frame [OF q(3) m'(3) _ sep(2)] ne by auto
  then have "three_queues m' q r s (xs @ [x]) ys ws"
    unfolding three_queues_def using m'(2) sep q(6) ne by blast
  with m' show ?thesis
    by blast
qed

lemma three_queues_pop:
  assumes "three_queues m q r s (x # xs) ys ws"
  shows "\<exists>m'. queue_pop m q = Some (m', x) \<and> three_queues m' q r s xs ys ws \<and> live (qnodes m') \<subseteq> live (qnodes m)"
proof -
  obtain A B C where q: "queue_of m q A (x # xs)" "queue_of m r B ys" "queue_of m s C ws" "A \<inter> B = {}" "A \<inter> C = {}" "B \<inter> C = {}"
    and ne: "distinct [q, r, s]"
    using assms(1) by (auto simp: three_queues_def)
  obtain m' A' where m': "queue_pop m q = Some (m', x)" "A' \<subseteq> A" "queue_of m' q A' xs" "queue_frame m q A m'"
    "live (qnodes m') \<subseteq> live (qnodes m)"
    using queue_of_pop [OF q(1)] by blast
  have "queue_of m' r B ys" "queue_of m' s C ws"
    using queue_of_frame [OF q(2) m'(4) _ q(4)] queue_of_frame [OF q(3) m'(4) _ q(5)] ne by auto
  moreover have "A' \<inter> B = {}" "A' \<inter> C = {}"
    using q(4,5) m'(2) by auto
  ultimately have "three_queues m' q r s xs ys ws"
    unfolding three_queues_def using m'(3) q(6) ne by blast
  with m' show ?thesis
    by blast
qed


section \<open>Waking threads\<close>

text \<open>The ready queue, the zombie queue and the queue \<open>q\<close> of a semaphore with the waiting threads \<open>ws\<close>.\<close>

definition wait_rep :: "sched \<Rightarrow> u32 \<Rightarrow> ptr \<Rightarrow> ptr list \<Rightarrow> ptr list \<Rightarrow> ptr list \<Rightarrow> bool" where
  "wait_rep st cpu q rs zs ws \<longleftrightarrow> sched_rep st cpu rs zs \<and> (\<forall>t \<in> set ws. valid (threads st) t) \<and>
     three_queues (s_qs st) (ready_queue st) (zombie_queue st) q rs zs ws"

lemma thread_wake_rep:
  assumes "wait_rep st cpu q rs zs ws" "valid (threads st) t" "fresh (qnodes (s_qs st)) n"
  shows "\<exists>st'. thread_wake st t n = Some st' \<and> wait_rep st' cpu q (rs @ [t]) zs ws \<and> woken [t] st st' \<and>
    live (qnodes (s_qs st')) = insert n (live (qnodes (s_qs st)))"
proof -
  have sr: "sched_rep st cpu rs zs" "three_queues (s_qs st) (ready_queue st) (zombie_queue st) q rs zs ws"
    using assms(1) by (auto simp: wait_rep_def)
  obtain qs where qs: "queue_push (s_qs st) (ready_queue st) t n = Some qs"
    "three_queues qs (ready_queue st) (zombie_queue st) q (rs @ [t]) zs ws" "live (qnodes qs) = insert n (live (qnodes (s_qs st)))"
    using three_queues_push [OF sr(2) assms(3)] by blast
  have "sched_rep (st\<lparr>s_qs := qs\<rparr>) cpu (rs @ [t]) zs"
    using sched_rep_queues [OF sr(1) three_two [OF qs(2)]] sched_rep_valid [OF sr(1)] assms(2) by auto
  then obtain st' where st': "thr_upd (st\<lparr>s_qs := qs\<rparr>) t (\<lambda>x. x\<lparr>t_state := THREAD_STATE_READY\<rparr>) = Some st'"
    "sched_rep st' cpu (rs @ [t]) zs" "live (threads st') = live (threads st)"
    "cells (threads st') = (cells (threads st))(t := (cells (threads st) t)\<lparr>t_state := THREAD_STATE_READY\<rparr>)"
    "st' = st\<lparr>s_qs := qs, threads := threads st'\<rparr>"
    using thr_upd_rep [of "st\<lparr>s_qs := qs\<rparr>" cpu "rs @ [t]" zs t "\<lambda>x. x\<lparr>t_state := THREAD_STATE_READY\<rparr>"] assms(2)
    by (auto simp: fun_upd_def)
  have eq: "s_qs st' = qs" "ready_queue st' = ready_queue st" "zombie_queue st' = zombie_queue st"
    by (subst st'(5), simp)+
  have "woken [t] st st'"
    using st'(3-5) eq(1) by (auto simp: woken_def states_def [abs_def] fun_eq_iff)
  moreover have "wait_rep st' cpu q (rs @ [t]) zs ws"
    using assms(1) st'(2,3) qs(2) eq by (auto simp: wait_rep_def valid_def)
  ultimately show ?thesis
    using assms(2) qs(1,3) st'(1) eq by (auto simp: thread_wake_def)
qed

lemma wait_pop:
  assumes "wait_rep st cpu q rs zs (t # ws)"
  shows "\<exists>qs. queue_pop (s_qs st) q = Some (qs, t) \<and> wait_rep (st\<lparr>s_qs := qs\<rparr>) cpu q rs zs ws \<and>
    live (qnodes qs) \<subseteq> live (qnodes (s_qs st))"
proof -
  have sr: "sched_rep st cpu rs zs" "three_queues (s_qs st) q (ready_queue st) (zombie_queue st) (t # ws) rs zs"
    using assms three_queues_rotate by (auto simp: wait_rep_def)
  obtain qs where qs: "queue_pop (s_qs st) q = Some (qs, t)" "three_queues qs q (ready_queue st) (zombie_queue st) ws rs zs"
    "live (qnodes qs) \<subseteq> live (qnodes (s_qs st))"
    using three_queues_pop [OF sr(2)] by blast
  then have "three_queues qs (ready_queue st) (zombie_queue st) q rs zs ws"
    using three_queues_rotate by blast
  then have "wait_rep (st\<lparr>s_qs := qs\<rparr>) cpu q rs zs ws"
    using assms sched_rep_queues [OF sr(1) three_two] sched_rep_valid [OF sr(1)] by (auto simp: wait_rep_def)
  with qs show ?thesis
    by blast
qed

lemma wake_loop_rep:
  assumes "wait_rep st cpu q rs zs ws" "new_nodes st ns" "length ws \<le> length ns"
  shows "\<exists>st'. wake_loop st q ns = Some st' \<and> wait_rep st' cpu q (rs @ ws) zs [] \<and> woken ws st st' \<and>
    live (qnodes (s_qs st')) \<subseteq> live (qnodes (s_qs st)) \<union> set ns"
  using assms
proof (induction ws arbitrary: st rs ns)
  case Nil
  obtain C where "queue_of (s_qs st) q C []"
    using Nil.prems(1) by (auto simp: wait_rep_def three_queues_def)
  then show ?case
    using Nil.prems(1) by (subst wake_loop.simps) (simp add: queue_of_pop_empty woken_def)
next
  case (Cons t ws)
  then obtain n ns' where ns: "ns = n # ns'"
    by (cases ns) auto
  obtain qs where qs: "queue_pop (s_qs st) q = Some (qs, t)" "wait_rep (st\<lparr>s_qs := qs\<rparr>) cpu q rs zs ws"
    "live (qnodes qs) \<subseteq> live (qnodes (s_qs st))"
    using wait_pop [OF Cons.prems(1)] by blast
  have t: "valid (threads st) t"
    using Cons.prems(1) by (simp add: wait_rep_def)
  have "fresh (qnodes qs) n"
    using Cons.prems(2) qs(3) by (auto simp: new_nodes_def fresh_def ns)
  with thread_wake_rep [OF qs(2), of t n] t obtain st1 where st1: "thread_wake (st\<lparr>s_qs := qs\<rparr>) t n = Some st1"
    "wait_rep st1 cpu q (rs @ [t]) zs ws" "woken [t] (st\<lparr>s_qs := qs\<rparr>) st1" "live (qnodes (s_qs st1)) = insert n (live (qnodes qs))"
    by auto
  have "new_nodes st1 ns'" "length ws \<le> length ns'"
    using Cons.prems(2,3) st1(4) qs(3) by (auto simp: new_nodes_def fresh_def ns)
  from Cons.IH [OF st1(2) this] obtain st2 where st2: "wake_loop st1 q ns' = Some st2" "wait_rep st2 cpu q (rs @ t # ws) zs []" "woken ws st1 st2"
    "live (qnodes (s_qs st2)) \<subseteq> live (qnodes (s_qs st1)) \<union> set ns'"
    by auto
  have lv: "live (qnodes (s_qs st2)) \<subseteq> live (qnodes (s_qs st)) \<union> set ns"
    using st2(4) st1(4) qs(3) by (auto simp: ns)
  have "woken [t] st st1"
    using st1(3) by (simp add: woken_def cong: if_cong)
  from woken_trans [OF this st2(3)] show ?case
    using t qs(1) st1(1) st2(1,2) lv by (subst wake_loop.simps) (auto simp: ns node_def)
qed


section \<open>Counting\<close>

text \<open>The number of units a call asks for or gives back.\<close>

definition units :: "u32 \<Rightarrow> u32 \<Rightarrow> u32" where
  "units k mx = (let k = (if k = 0 then 1 else k) in if k > mx then mx else k)"

definition sem_rep :: "semsys \<Rightarrow> u32 \<Rightarrow> ptr \<Rightarrow> u32 \<Rightarrow> u32 \<Rightarrow> ptr list \<Rightarrow> ptr list \<Rightarrow> ptr list \<Rightarrow> bool" where
  "sem_rep ss cpu sem c mx ws rs zs \<longleftrightarrow> valid (sems ss) sem \<and> (let s = cells (sems ss) sem in
     sem_count s = c \<and> sem_max s = mx \<and> lock_free (s_locks (s_sched ss)) (sem_lock s) \<and>
     wait_rep (s_sched ss) cpu (sem_queue s) rs zs ws)"

lemma units_le: "units k mx \<le> mx"
  by (auto simp: units_def Let_def word_le_nat_alt word_less_nat_alt Suc_le_eq unat_gt_0)

lemma wait_rep_locks [simp]: "wait_rep (st\<lparr>s_locks := ls\<rparr>) cpu q rs zs ws = wait_rep st cpu q rs zs ws"
  by (simp add: wait_rep_def sched_rep_def)

lemma tryacquire_eq:
  assumes "valid (sems ss) sem"
  shows "semaphore_tryacquire ss sem k = Some (let s = cells (sems ss) sem; u = units k (sem_max s) in
    if u \<le> sem_count s then (ss\<lparr>sems := (sems ss)\<lparr>cells := (cells (sems ss))(sem := s\<lparr>sem_count := sem_count s - u\<rparr>)\<rparr>\<rparr>, True)
    else (ss, False))"
proof -
  have "semaphore_tryacquire ss sem k = (let s = cells (sems ss) sem; u = units k (sem_max s) in
    if u > sem_count s then Some (ss, False)
    else Some (ss\<lparr>sems := (sems ss)\<lparr>cells := (cells (sems ss))(sem := s\<lparr>sem_count := sem_count s - u\<rparr>)\<rparr>\<rparr>, True))"
    using assms by (auto simp: semaphore_tryacquire_def units_def heap_simps Let_def)
  then show ?thesis
    by (simp add: Let_def not_less [symmetric])
qed

lemma tryacquire_rep:
  assumes "sem_rep ss cpu sem c mx ws rs zs"
  shows "\<exists>ss'. semaphore_tryacquire ss sem k = Some (ss', units k mx \<le> c) \<and>
    sem_rep ss' cpu sem (if units k mx \<le> c then c - units k mx else c) mx ws rs zs \<and> s_sched ss' = s_sched ss \<and>
    sem_lock (cells (sems ss') sem) = sem_lock (cells (sems ss) sem) \<and> sem_queue (cells (sems ss') sem) = sem_queue (cells (sems ss) sem)"
  using assms
  by (auto simp: tryacquire_eq sem_rep_def Let_def)

lemma release_rep:
  assumes "sem_rep ss cpu0 sem c mx ws rs zs" "new_nodes (s_sched ss) ns" "length ws \<le> length ns"
  shows "\<exists>ss'. semaphore_release ss cpu sem k ns = Some ss' \<and>
    sem_rep ss' cpu0 sem (if c + units k mx > mx then mx else c + units k mx) mx [] (rs @ ws) zs \<and>
    ints (s_locks (s_sched ss')) = ints (s_locks (s_sched ss)) \<and> cur (s_sched ss') = cur (s_sched ss) \<and> idl (s_sched ss') = idl (s_sched ss) \<and>
    states (s_sched ss') = (\<lambda>t. if t \<in> set ws then THREAD_STATE_READY else states (s_sched ss) t) \<and>
    live (qnodes (s_qs (s_sched ss'))) \<subseteq> live (qnodes (s_qs (s_sched ss))) \<union> set ns"
proof -
  let ?s = "cells (sems ss) sem"
  define st1 where "st1 = (s_sched ss)\<lparr>s_locks := with_lock (s_locks (s_sched ss)) cpu (sem_lock ?s) 1 False\<rparr>"
  have v: "valid (sems ss) sem" "sem \<noteq> NULL" "sem_count ?s = c" "sem_max ?s = mx" "lock_free (s_locks (s_sched ss)) (sem_lock ?s)"
    "wait_rep (s_sched ss) cpu0 (sem_queue ?s) rs zs ws"
    using assms(1) by (auto simp: sem_rep_def Let_def)
  have "wait_rep st1 cpu0 (sem_queue ?s) rs zs ws" "new_nodes st1 ns"
    using v(6) assms(2) by (simp_all add: st1_def new_nodes_def)
  from wake_loop_rep [OF this assms(3)] obtain st2 where st2: "wake_loop st1 (sem_queue ?s) ns = Some st2"
    "wait_rep st2 cpu0 (sem_queue ?s) (rs @ ws) zs []" "woken ws st1 st2"
    "live (qnodes (s_qs st2)) \<subseteq> live (qnodes (s_qs st1)) \<union> set ns"
    by blast
  have lv: "live (qnodes (s_qs st2)) \<subseteq> live (qnodes (s_qs (s_sched ss))) \<union> set ns"
    using st2(4) by (simp add: st1_def)
  have eq: "s_locks st2 = with_lock (s_locks (s_sched ss)) cpu (sem_lock ?s) 1 False" "cur st2 = cur (s_sched ss)" "idl st2 = idl (s_sched ss)"
    "states st2 = (\<lambda>t. if t \<in> set ws then THREAD_STATE_READY else states (s_sched ss) t)"
    using woken_fields [OF st2(3)] st2(3) by (auto simp: st1_def woken_def states_def [abs_def])
  show ?thesis
    using v st2(1,2) eq lv
    by (auto simp: semaphore_release_def set_locks_def spinlock_acquire_free spinlock_release_taken heap_simps
      sem_rep_def Let_def units_def st1_def [symmetric] states_def [abs_def])
qed

lemma enqueue_rep:
  assumes "sem_rep ss cpu sem c mx ws rs zs" "fresh (qnodes (s_qs (s_sched ss))) n" "cur (s_sched ss) cpu = t" "t \<noteq> NULL"
  shows "\<exists>ss'. sem_enqueue ss cpu sem k n = Some (ss', units k mx \<le> c) \<and>
    sem_rep ss' cpu sem (if units k mx \<le> c then c - units k mx else c) mx (if units k mx \<le> c then ws else ws @ [t]) rs zs \<and>
    cur (s_sched ss') = cur (s_sched ss) \<and> idl (s_sched ss') = idl (s_sched ss) \<and> states (s_sched ss') = states (s_sched ss) \<and>
    live (qnodes (s_qs (s_sched ss'))) \<subseteq> insert n (live (qnodes (s_qs (s_sched ss))))"
proof -
  let ?s = "cells (sems ss) sem" and ?st = "s_sched ss"
  define ls where "ls = with_lock (s_locks ?st) cpu (sem_lock ?s) 1 False"
  have v: "valid (sems ss) sem" "sem_count ?s = c" "sem_max ?s = mx" "lock_free (s_locks ?st) (sem_lock ?s)"
    "wait_rep ?st cpu (sem_queue ?s) rs zs ws"
    using assms(1) by (auto simp: sem_rep_def Let_def)
  then have t: "valid (threads ?st) t"
    using assms(3,4) by (auto simp: wait_rep_def sched_rep_def)
  have "three_queues (s_qs ?st) (sem_queue ?s) (ready_queue ?st) (zombie_queue ?st) ws rs zs"
    using v(5) three_queues_rotate by (auto simp: wait_rep_def)
  from three_queues_push [OF this assms(2), of t] obtain qs where qs: "queue_push (s_qs ?st) (sem_queue ?s) t n = Some qs"
    "three_queues qs (ready_queue ?st) (zombie_queue ?st) (sem_queue ?s) rs zs (ws @ [t])"
    "live (qnodes qs) = insert n (live (qnodes (s_qs ?st)))"
    using three_queues_rotate by blast
  have w0: "wait_rep (?st\<lparr>s_qs := qs\<rparr>) cpu (sem_queue ?s) rs zs (ws @ [t])"
    using v(5) t qs(2) sched_rep_queues [of ?st cpu rs zs qs rs zs] three_two [OF qs(2)] by (auto simp: wait_rep_def sched_rep_def)
  then have w: "wait_rep (?st\<lparr>s_locks := l, s_qs := qs\<rparr>) cpu (sem_queue ?s) rs zs (ws @ [t])" for l
    by (simp add: wait_rep_def sched_rep_def)
  show ?thesis
    using v assms(3) qs(1,3) w w0
    by (auto simp: sem_enqueue_def tryacquire_eq set_locks_def set_queues_def spinlock_acquire_free spinlock_release_taken
      heap_simps sem_rep_def Let_def sched_current_thread_def states_def [abs_def])
qed


text \<open>
  The steps of the threads of one processor on one semaphore, with the number of units they hold. Threads give
  back only what they hold.
\<close>

inductive sem_step :: "u32 \<Rightarrow> ptr \<Rightarrow> semsys \<times> nat \<Rightarrow> semsys \<times> nat \<Rightarrow> bool" for cpu sem where
  attempt: "semaphore_tryacquire ss sem k = Some (ss', got) \<Longrightarrow>
    sem_step cpu sem (ss, h) (ss', if got then h + unat (units k (sem_max (cells (sems ss) sem))) else h)"
| enqueue: "sem_enqueue ss cpu sem k n = Some (ss', got) \<Longrightarrow> fresh (qnodes (s_qs (s_sched ss))) n \<Longrightarrow> cur (s_sched ss) cpu \<noteq> NULL \<Longrightarrow>
    sem_step cpu sem (ss, h) (ss', if got then h + unat (units k (sem_max (cells (sems ss) sem))) else h)"
| release: "semaphore_release ss cpu sem k ns = Some ss' \<Longrightarrow> new_nodes (s_sched ss) ns \<Longrightarrow>
    length ns \<ge> unat (q_len (qctl (s_qs (s_sched ss)) (sem_queue (cells (sems ss) sem)))) \<Longrightarrow>
    unat (units k (sem_max (cells (sems ss) sem))) \<le> h \<Longrightarrow>
    sem_step cpu sem (ss, h) (ss', h - unat (units k (sem_max (cells (sems ss) sem))))"

definition balanced :: "u32 \<Rightarrow> ptr \<Rightarrow> u32 \<Rightarrow> semsys \<times> nat \<Rightarrow> bool" where
  "balanced cpu sem mx = (\<lambda>(ss, h). \<exists>c ws rs zs. sem_rep ss cpu sem c mx ws rs zs \<and> unat c + h = unat mx)"

lemma balancedI: "sem_rep ss cpu sem c mx ws rs zs \<Longrightarrow> unat c + h = unat mx \<Longrightarrow> balanced cpu sem mx (ss, h)"
  by (auto simp: balanced_def)

lemma distinct_words: "distinct (ns :: u32 list) \<Longrightarrow> length ns \<le> 2 ^ 32"
  using distinct_card [of ns] card_mono [of UNIV "set ns"] by (simp add: card_word)

lemma sem_queue_len:
  assumes "sem_rep ss cpu sem c mx ws rs zs"
  shows "unat (q_len (qctl (s_qs (s_sched ss)) (sem_queue (cells (sems ss) sem)))) = length ws"
proof -
  obtain d ns where rep: "queue_rep (s_qs (s_sched ss)) (sem_queue (cells (sems ss) sem)) d ns ws"
    using assms by (auto simp: sem_rep_def wait_rep_def three_queues_def queue_of_def Let_def)
  then have "length ws < 2 ^ 32"
    using distinct_words [OF queue_rep_distinct [OF rep]] by (auto simp: queue_rep_def)
  with rep show ?thesis
    by (simp add: queue_rep_def unat_of_nat take_bit_nat_eq_self)
qed

lemma acquired_balanced:
  assumes "sem_rep ss' cpu sem (if units k mx \<le> c then c - units k mx else c) mx ws' rs zs" "unat c + h = unat mx"
  shows "balanced cpu sem mx (ss', if units k mx \<le> c then h + unat (units k mx) else h)"
proof (rule balancedI [OF assms(1)])
  show "unat (if units k mx \<le> c then c - units k mx else c) + (if units k mx \<le> c then h + unat (units k mx) else h) = unat mx"
    using assms(2) by (auto simp: unat_sub word_le_nat_alt)
qed

lemma sem_step_balanced:
  assumes "sem_step cpu sem p q" "balanced cpu sem mx p" "2 * unat mx < 2 ^ 32"
  shows "balanced cpu sem mx q"
  using assms
proof (induction rule: sem_step.induct)
  case (attempt ss k ss' got h)
  then obtain c ws rs zs where rep: "sem_rep ss cpu sem c mx ws rs zs" "unat c + h = unat mx"
    by (auto simp: balanced_def)
  have "sem_max (cells (sems ss) sem) = mx"
    using rep by (simp add: sem_rep_def Let_def)
  with tryacquire_rep [OF rep(1), of k] attempt.hyps acquired_balanced [OF _ rep(2)] show ?case
    by fastforce
next
  case (enqueue ss k n ss' got h)
  then obtain c ws rs zs where rep: "sem_rep ss cpu sem c mx ws rs zs" "unat c + h = unat mx"
    by (auto simp: balanced_def)
  have "sem_max (cells (sems ss) sem) = mx"
    using rep by (simp add: sem_rep_def Let_def)
  with enqueue_rep [OF rep(1) enqueue.hyps(2) refl enqueue.hyps(3), of k] enqueue.hyps acquired_balanced [OF _ rep(2)] show ?case
    by fastforce
next
  case (release ss k ns ss' h)
  then obtain c ws rs zs where rep: "sem_rep ss cpu sem c mx ws rs zs" "unat c + h = unat mx"
    by (auto simp: balanced_def)
  have mx: "sem_max (cells (sems ss) sem) = mx"
    using rep by (simp add: sem_rep_def Let_def)
  have "unat (c + units k mx) = unat c + unat (units k mx)"
    using release.hyps(4) rep(2) release.prems(2) units_le [of k mx] mx by (intro unat_add_no_overflow) (simp add: word_le_nat_alt)
  then have sum: "\<not> c + units k mx > mx" "unat (c + units k mx) + (h - unat (units k mx)) = unat mx"
    using release.hyps(4) rep(2) mx by (auto simp: word_less_nat_alt)
  with release_rep [OF rep(1) release.hyps(2), of cpu k] release.hyps(1,3) sem_queue_len [OF rep(1)] mx show ?case
    by (auto intro: balancedI)
qed

section \<open>Properties\<close>



text \<open>The sum of the count and the released units is not checked for overflow: it can end below the old count.\<close>

lemma semaphore_release_wraps:
  assumes "sem_rep ss cpu sem c mx [] rs zs" "2 ^ 32 \<le> unat c + unat (units k mx)" "c \<le> mx"
  shows "\<exists>ss'. semaphore_release ss cpu sem k [] = Some ss' \<and> sem_count (cells (sems ss') sem) < c"
proof -
  have u: "unat (c + units k mx) = unat c + unat (units k mx) - 2 ^ 32" "unat (c + units k mx) < unat c"
    using assms(2) unsigned_less [of c, where 'a = nat] unsigned_less [of "units k mx", where 'a = nat]
    by (simp_all add: unat_word_ariths mod_if) linarith
  then have "\<not> c + units k mx > mx"
    using assms(3) by (auto simp: word_less_nat_alt word_le_nat_alt)
  moreover have "new_nodes (s_sched ss) []"
    by (simp add: new_nodes_def)
  ultimately show ?thesis
    using release_rep [OF assms(1), of "[]" cpu k] u by (auto simp: sem_rep_def Let_def word_less_nat_alt)
qed


text \<open>A semaphore at 0x500 with one unit of two left; its lock is at 0x10 and its queue, with the node 0x29, at 0x12.\<close>

definition example_sem :: "u32 \<Rightarrow> semsys" where
  "example_sem c = \<lparr>sems = \<lparr>cells = (\<lambda>_. \<lparr>sem_count = c, sem_max = 2, sem_lock = 0x10, sem_queue = 0x12, cleanup = 0\<rparr>), live = {0x500}\<rparr>,
     s_sched = example_sched\<lparr>s_qs := example_queues\<lparr>
       queues := (queues example_queues)\<lparr>cells := (cells (queues example_queues))(0x12 := \<lparr>q_head = 0x29, q_tail = 0x29, q_base = 0x29, q_len = 0\<rparr>),
         live := {0x10, 0x11, 0x12}\<rparr>,
       qnodes := (qnodes example_queues)\<lparr>live := {0x20, 0x21, 0x22, 0x28, 0x29}\<rparr>\<rparr>\<rparr>\<rparr>"

lemma example_sem_rep: "sem_rep (example_sem c) 0 0x500 c 2 [] [0x200, 0x300] []"
proof -
  let ?m = "s_qs (s_sched (example_sem c))"
  have "queue_rep ?m 0x10 0x20 [0x21, 0x22] [0x200, 0x300]" "queue_rep ?m 0x11 0x28 [] []" "queue_rep ?m 0x12 0x29 [] []"
    by (simp_all add: queue_rep_def example_sem_def example_queues_def valid_def qnext_def qval_def)
  then have "three_queues ?m 0x10 0x11 0x12 [0x200, 0x300] [] []"
    unfolding three_queues_def queue_of_def
    by (intro conjI exI [of _ "{0x20, 0x21, 0x22}"] exI [of _ "{0x28}"] exI [of _ "{0x29}"]) (simp, force+)
  moreover from this have "sched_rep (s_sched (example_sem c)) 0 [0x200, 0x300] []"
    using sched_rep_queues [OF example_sched_rep, of ?m "[0x200, 0x300]" "[]"] sched_rep_valid [OF example_sched_rep] three_two
    by (auto simp: example_sem_def example_sched_def)
  ultimately show ?thesis
    by (simp add: sem_rep_def wait_rep_def example_sem_def example_sched_def example_lock_def lock_free_def no_lock_def valid_def)
qed


lemma example_sem_nodes: "new_nodes (s_sched (example_sem c)) (0x900 # example_nodes 0x1000 @ example_nodes 0x2000)"
  by (simp add: new_nodes_def example_nodes_def upt_rec fresh_def example_sem_def)



end
