(* ===== verification/Forge_Sleep.thy ===== *)
theory Forge_Sleep
  imports Forge_Sched
begin

text \<open>
  Sleeping for a number of milliseconds, \<open>src/src/kernel/sleep.c\<close>: a list of sleeping threads with the time
  each still has to sleep, and the timer handler that wakes them.
\<close>

section \<open>Model of sleep.c\<close>

record sleepinfo =
  si_t :: ptr
  si_tc :: u64

record sleepers =
  tlist :: ptr
  timer_installed :: int
  infos :: "sleepinfo heap"
  sl_sched :: sched

definition MS_TO_TICKS :: u32 where "MS_TO_TICKS = 1000000"

text \<open>\<open>ns\<close> are the addresses for nodes in the ready queue.\<close>

partial_function (option) sleep_loop :: "sleepers \<Rightarrow> u64 \<Rightarrow> u32 \<Rightarrow> int \<Rightarrow> ptr list \<Rightarrow> (sleepers \<times> int) option" where
  "sleep_loop sy tk n ret ns = do {
     s \<leftarrow> list_at (s_lists (sl_sched sy)) (tlist sy) n;
     if s \<noteq> NULL then do {
       h \<leftarrow> upd (infos sy) s (\<lambda>i. if si_tc i < tk then i\<lparr>si_tc := 0\<rparr> else i\<lparr>si_tc := si_tc i - tk\<rparr>);
       i \<leftarrow> load h s;
       if si_tc i = 0 then do {
         st \<leftarrow> thread_wake (sl_sched sy) (si_t i) (node ns 0);
         h \<leftarrow> free h s;
         lm \<leftarrow> list_remove (s_lists st) (tlist sy) n;
         sleep_loop (sy\<lparr>infos := h, sl_sched := st\<lparr>s_lists := lm\<rparr>\<rparr>) tk n 1 (tl ns)
       } else sleep_loop (sy\<lparr>infos := h\<rparr>) tk (n + 1) ret ns
     } else Some (sy, ret)
   }"

definition sleep_timer_tick :: "sleepers \<Rightarrow> u64 \<Rightarrow> ptr list \<Rightarrow> (sleepers \<times> int) option" where
  "sleep_timer_tick sy tk ns = (if tlist sy = NULL then Some (sy, 0) else sleep_loop sy tk 0 0 ns)"

text \<open>\<open>sleep_ms\<close> up to the call of \<open>thread_sleep\<close>. The addresses are those of the list, the entry and its list
  node; \<open>tmr\<close> has the address of \<open>sleep_timer_tick\<close> and those for the timer.\<close>

definition sleep_prepare :: "sleepers \<Rightarrow> u32 \<Rightarrow> u32 \<Rightarrow> ptr \<times> ptr \<times> ptr \<Rightarrow> ptr \<times> ptr \<times> ptr \<times> ptr \<Rightarrow> sleepers option" where
  "sleep_prepare sy cpu ms = (\<lambda>(l, s, n) (fn, lp, p, ln). do {
     sy \<leftarrow> (if tlist sy = NULL then do {
             (lm, l) \<leftarrow> create_list (s_lists (sl_sched sy)) l;
             Some (sy\<lparr>tlist := l, sl_sched := (sl_sched sy)\<lparr>s_lists := lm\<rparr>\<rparr>)
           } else Some sy);
     let c = sched_current_thread (sl_sched sy) cpu;
     let h = malloc (infos sy) s;
     h \<leftarrow> upd h s (\<lambda>i. i\<lparr>si_t := c\<rparr>);
     h \<leftarrow> upd h s (\<lambda>i. i\<lparr>si_tc := ucast (ms * MS_TO_TICKS)\<rparr>);
     lm \<leftarrow> list_insert (s_lists (sl_sched sy)) (tlist sy) s 0 n;
     let sy = sy\<lparr>infos := h, sl_sched := (sl_sched sy)\<lparr>s_lists := lm\<rparr>\<rparr>;
     if timer_installed sy = 0 then do {
       (tm, _) \<leftarrow> install_timer (s_timers (sl_sched sy)) cpu fn (push_bit TIMERRES_SHIFT 1 OR TIMERRES_MILLI) TIMERFEAT_PERIODIC lp p ln;
       Some (sy\<lparr>timer_installed := 1, sl_sched := (sl_sched sy)\<lparr>s_timers := tm\<rparr>\<rparr>)
     } else Some sy
   })"

definition sleep_ms :: "sleepers \<Rightarrow> u32 \<Rightarrow> u32 \<Rightarrow> ptr \<times> ptr \<times> ptr \<Rightarrow> ptr \<times> ptr \<times> ptr \<times> ptr \<Rightarrow> ptr list \<Rightarrow> (sleepers \<times> outcome) option" where
  "sleep_ms sy cpu ms new tmr ns = do {
     sy \<leftarrow> sleep_prepare sy cpu ms new tmr;
     (st, r) \<leftarrow> thread_sleep (sl_sched sy) cpu ns;
     Some (sy\<lparr>sl_sched := st\<rparr>, r)
   }"

section \<open>Waking sleepers\<close>

text \<open>The entries \<open>ps\<close>, in the order of the list, with their threads.\<close>

definition sleep_rep :: "sleepers \<Rightarrow> u32 \<Rightarrow> ptr list \<Rightarrow> ptr list \<Rightarrow> ptr list \<Rightarrow> bool" where
  "sleep_rep sy cpu ps rs zs \<longleftrightarrow> sched_rep (sl_sched sy) cpu rs zs \<and>
     (\<exists>ns. list_rep (s_lists (sl_sched sy)) (tlist sy) ns ps) \<and> distinct ps \<and>
     (\<forall>p \<in> set ps. valid (infos sy) p \<and> valid (threads (sl_sched sy)) (si_t (cells (infos sy) p)))"

definition left :: "sleepers \<Rightarrow> ptr \<Rightarrow> u64" where
  "left sy p = si_tc (cells (infos sy) p)"

definition sleeper :: "sleepers \<Rightarrow> ptr \<Rightarrow> ptr" where
  "sleeper sy p = si_t (cells (infos sy) p)"

text \<open>The entries behind the first \<open>length pre\<close> that are not due only lose the ticks.\<close>

lemma sleep_loop_later:
  assumes "sleep_rep sy cpu (pre @ later) rs zs" "\<forall>p \<in> set later. tk < left sy p"
  shows "\<exists>sy'. sleep_loop sy tk (of_nat (length pre)) ret ns = Some (sy', ret) \<and> sleep_rep sy' cpu (pre @ later) rs zs \<and>
    sl_sched sy' = sl_sched sy \<and> sleeper sy' = sleeper sy \<and> left sy' = (\<lambda>p. if p \<in> set later then left sy p - tk else left sy p)"
  using assms
proof (induction later arbitrary: pre sy)
  case Nil
  obtain ns where "list_rep (s_lists (sl_sched sy)) (tlist sy) ns pre"
    using Nil.prems by (auto simp: sleep_rep_def)
  with list_at_nth [OF this, of "length pre"] Nil.prems show ?case
    by (subst sleep_loop.simps) (auto simp: left_def)
next
  case (Cons p later)
  obtain ms where rep: "list_rep (s_lists (sl_sched sy)) (tlist sy) ms (pre @ p # later)" "valid (infos sy) p" "p \<notin> set later"
    using Cons.prems(1) by (auto simp: sleep_rep_def)
  then have at: "list_at (s_lists (sl_sched sy)) (tlist sy) (of_nat (length pre)) = Some p" "p \<noteq> NULL"
    using list_at_behind by auto
  have lt: "tk < si_tc (cells (infos sy) p)"
    using Cons.prems(2) by (simp add: left_def)
  define sy1 where "sy1 = sy\<lparr>infos := (infos sy)\<lparr>cells := (cells (infos sy))(p := (cells (infos sy) p)\<lparr>si_tc := left sy p - tk\<rparr>)\<rparr>\<rparr>"
  have sy1: "left sy1 = (left sy)(p := left sy p - tk)" "sleeper sy1 = sleeper sy" "sl_sched sy1 = sl_sched sy"
    by (auto simp: sy1_def left_def sleeper_def)
  have "sleep_rep sy1 cpu ((pre @ [p]) @ later) rs zs"
    using Cons.prems(1) by (auto simp: sleep_rep_def sy1_def)
  moreover have "\<forall>q \<in> set later. tk < left sy1 q"
    using Cons.prems(2) rep(3) sy1(1) by auto
  ultimately obtain sy' where sy': "sleep_loop sy1 tk (of_nat (length (pre @ [p]))) ret ns = Some (sy', ret)"
    "sleep_rep sy' cpu ((pre @ [p]) @ later) rs zs" "sl_sched sy' = sl_sched sy1" "sleeper sy' = sleeper sy1"
    "left sy' = (\<lambda>q. if q \<in> set later then left sy1 q - tk else left sy1 q)"
    using Cons.IH by blast
  have ne: "left sy p - tk \<noteq> 0"
    using lt by (auto simp: left_def)
  have "sleep_loop sy tk (of_nat (length pre)) ret ns = sleep_loop sy1 tk (of_nat (length (pre @ [p]))) ret ns"
    using at rep(2) lt ne by (subst sleep_loop.simps) (auto simp: heap_simps sy1_def left_def add.commute)
  with sy' sy1 rep(3) show ?case
    by (auto simp: fun_eq_iff)
qed


text \<open>The entries at the front of the list that are due are taken off one after the other.\<close>

lemma sleep_loop_due:
  assumes "sleep_rep sy cpu (p # ps) rs zs" "left sy p \<le> tk" "fresh (qnodes (s_qs (sl_sched sy))) n"
  shows "\<exists>sy'. sleep_loop sy tk 0 ret (n # ns) = sleep_loop sy' tk 0 1 ns \<and> sleep_rep sy' cpu ps (rs @ [sleeper sy p]) zs \<and>
    states (sl_sched sy') = (states (sl_sched sy))(sleeper sy p := THREAD_STATE_READY) \<and>
    (\<forall>q \<in> set ps. left sy' q = left sy q \<and> sleeper sy' q = sleeper sy q) \<and>
    live (qnodes (s_qs (sl_sched sy'))) = insert n (live (qnodes (s_qs (sl_sched sy)))) \<and> \<not> valid (infos sy') p"
proof -
  obtain ks where rep: "list_rep (s_lists (sl_sched sy)) (tlist sy) ks (p # ps)" "valid (infos sy) p" "p \<notin> set ps"
    "sched_rep (sl_sched sy) cpu rs zs" "valid (threads (sl_sched sy)) (sleeper sy p)"
    using assms(1) by (auto simp: sleep_rep_def sleeper_def)
  then have at: "list_at (s_lists (sl_sched sy)) (tlist sy) 0 = Some p" "p \<noteq> NULL"
    using list_at_behind [of _ _ _ "[]"] by auto
  obtain st where st: "thread_wake (sl_sched sy) (sleeper sy p) n = Some st" "sched_rep st cpu (rs @ [sleeper sy p]) zs"
    "woken [sleeper sy p] (sl_sched sy) st" "live (qnodes (s_qs st)) = insert n (live (qnodes (s_qs (sl_sched sy))))"
    using thread_wake_ready [OF rep(4,5) assms(3)] by blast
  have "st = (sl_sched sy)\<lparr>s_qs := s_qs st, threads := threads st\<rparr>"
    using st(3) by (simp add: woken_def)
  then have lists: "s_lists st = s_lists (sl_sched sy)"
    by (rule ssubst) simp
  obtain k ks' where ks: "ks = k # ks'"
    using rep(1) by (cases ks) (auto simp: list_rep_def)
  obtain lm where lm: "list_remove (s_lists (sl_sched sy)) (tlist sy) 0 = Some lm" "list_rep lm (tlist sy) ks' ps"
    using list_remove_front [OF rep(1) [unfolded ks]] by blast
  have zero: "(if si_tc i < tk then i\<lparr>si_tc := 0\<rparr> else i\<lparr>si_tc := si_tc i - tk\<rparr>) = i\<lparr>si_tc := 0\<rparr>" if "si_tc i \<le> tk" for i :: sleepinfo
    using that by auto
  define sy' where "sy' = sy\<lparr>infos := (infos sy)\<lparr>cells := (cells (infos sy))(p := (cells (infos sy) p)\<lparr>si_tc := 0\<rparr>), live := live (infos sy) - {p}\<rparr>,
    sl_sched := st\<lparr>s_lists := lm\<rparr>\<rparr>"
  have "sleep_loop sy tk 0 ret (n # ns) = sleep_loop sy' tk 0 1 ns"
    using at rep(2) assms(2) st(1) lm(1) lists
    by (subst sleep_loop.simps) (simp add: heap_simps zero left_def sleeper_def node_def sy'_def)
  moreover have "sched_rep (st\<lparr>s_lists := lm\<rparr>) cpu (rs @ [sleeper sy p]) zs"
    using st(2) by (simp add: sched_rep_def)
  then have "sleep_rep sy' cpu ps (rs @ [sleeper sy p]) zs"
    using assms(1) rep(3) lm(2) woken_fields(6) [OF st(3)]
    by (auto simp: sleep_rep_def sy'_def valid_def)
  moreover have "states (sl_sched sy') = (states (sl_sched sy))(sleeper sy p := THREAD_STATE_READY)"
    using st(3) by (auto simp: sy'_def woken_def states_def [abs_def] fun_eq_iff)
  moreover have "\<forall>q \<in> set ps. left sy' q = left sy q \<and> sleeper sy' q = sleeper sy q" "\<not> valid (infos sy') p"
    using rep(3) by (auto simp: sy'_def left_def sleeper_def)
  moreover have "live (qnodes (s_qs (sl_sched sy'))) = insert n (live (qnodes (s_qs (sl_sched sy))))"
    using st(4) by (simp add: sy'_def)
  ultimately show ?thesis
    by blast
qed

lemma sleep_loop_all_due:
  assumes "sleep_rep sy cpu (due @ later) rs zs" "\<forall>p \<in> set due. left sy p \<le> tk" "new_nodes (sl_sched sy) ns" "length due \<le> length ns"
  shows "\<exists>sy'. sleep_loop sy tk 0 ret ns = sleep_loop sy' tk 0 (if due = [] then ret else 1) (drop (length due) ns) \<and>
    sleep_rep sy' cpu later (rs @ map (sleeper sy) due) zs \<and>
    states (sl_sched sy') = (\<lambda>t. if t \<in> sleeper sy ` set due then THREAD_STATE_READY else states (sl_sched sy) t) \<and>
    (\<forall>q \<in> set later. left sy' q = left sy q \<and> sleeper sy' q = sleeper sy q)"
  using assms
proof (induction due arbitrary: sy rs ret ns)
  case Nil
  then show ?case
    by auto
next
  case (Cons p due)
  then obtain n ns' where ns: "ns = n # ns'"
    by (cases ns) auto
  have d: "p \<notin> set (due @ later)" "distinct (due @ later)"
    using Cons.prems(1) by (auto simp: sleep_rep_def)
  have "sleep_rep sy cpu (p # due @ later) rs zs" "left sy p \<le> tk" "fresh (qnodes (s_qs (sl_sched sy))) n"
    using Cons.prems ns by (auto simp: new_nodes_def)
  from sleep_loop_due [OF this, of ret ns'] obtain sy1 where sy1: "sleep_loop sy tk 0 ret ns = sleep_loop sy1 tk 0 1 ns'"
    "sleep_rep sy1 cpu (due @ later) (rs @ [sleeper sy p]) zs" "states (sl_sched sy1) = (states (sl_sched sy))(sleeper sy p := THREAD_STATE_READY)"
    "\<forall>q \<in> set (due @ later). left sy1 q = left sy q \<and> sleeper sy1 q = sleeper sy q"
    "live (qnodes (s_qs (sl_sched sy1))) = insert n (live (qnodes (s_qs (sl_sched sy))))"
    unfolding ns by blast
  have "\<forall>p \<in> set due. left sy1 p \<le> tk" "new_nodes (sl_sched sy1) ns'" "length due \<le> length ns'"
    using Cons.prems(2-4) sy1(4,5) by (auto simp: new_nodes_def fresh_def ns)
  from Cons.IH [OF sy1(2) this, of 1] obtain sy' where sy': "sleep_loop sy1 tk 0 1 ns' = sleep_loop sy' tk 0 1 (drop (length due) ns')"
    "sleep_rep sy' cpu later ((rs @ [sleeper sy p]) @ map (sleeper sy1) due) zs"
    "states (sl_sched sy') = (\<lambda>t. if t \<in> sleeper sy1 ` set due then THREAD_STATE_READY else states (sl_sched sy1) t)"
    "\<forall>q \<in> set later. left sy' q = left sy1 q \<and> sleeper sy' q = sleeper sy1 q"
    by auto
  have eq: "map (sleeper sy1) due = map (sleeper sy) due" "sleeper sy1 ` set due = sleeper sy ` set due"
    using sy1(4) by auto
  have "states (sl_sched sy') = (\<lambda>t. if t \<in> sleeper sy ` set (p # due) then THREAD_STATE_READY else states (sl_sched sy) t)"
    unfolding sy'(3) sy1(3) eq by (simp add: fun_eq_iff)
  moreover have "sleep_rep sy' cpu later (rs @ map (sleeper sy) (p # due)) zs"
    using sy'(2) [unfolded eq] by simp
  moreover have "\<forall>q \<in> set later. left sy' q = left sy q \<and> sleeper sy' q = sleeper sy q"
    using sy'(4) sy1(4) by simp
  ultimately show ?case
    using sy'(1) sy1(1) by (intro exI [of _ sy']) (simp add: ns)
qed

section \<open>Properties\<close>

text \<open>
  C39. A tick wakes the sleepers that are due, when those are at the front of the list: their threads go to
  the ready queue in the order of the list, their entries are taken off, and every other entry loses the
  ticks. The call asks for a reschedule exactly when it has woken a thread.
\<close>
theorem sleep_timer_tick_wakes:
  assumes "sleep_rep sy cpu (due @ later) rs zs" "new_nodes (sl_sched sy) ns" "length due \<le> length ns"
    and "\<forall>p \<in> set due. left sy p \<le> tk" "\<forall>p \<in> set later. tk < left sy p"
  shows "\<exists>sy'. sleep_timer_tick sy tk ns = Some (sy', if due = [] then 0 else 1) \<and>
    sleep_rep sy' cpu later (rs @ map (sleeper sy) due) zs \<and>
    (\<forall>p \<in> set due. states (sl_sched sy') (sleeper sy p) = THREAD_STATE_READY) \<and>
    (\<forall>p \<in> set later. left sy' p = left sy p - tk \<and> sleeper sy' p = sleeper sy p)"
proof -
  have "tlist sy \<noteq> NULL"
    using assms(1) list_rep_valid by (auto simp: sleep_rep_def)
  moreover obtain sy1 where sy1: "sleep_loop sy tk 0 0 ns = sleep_loop sy1 tk 0 (if due = [] then 0 else 1) (drop (length due) ns)"
    "sleep_rep sy1 cpu ([] @ later) (rs @ map (sleeper sy) due) zs"
    "states (sl_sched sy1) = (\<lambda>t. if t \<in> sleeper sy ` set due then THREAD_STATE_READY else states (sl_sched sy) t)"
    "\<forall>q \<in> set later. left sy1 q = left sy q \<and> sleeper sy1 q = sleeper sy q"
    using sleep_loop_all_due [OF assms(1,4,2,3), of 0] by auto
  moreover have "\<forall>p \<in> set later. tk < left sy1 p"
    using assms(5) sy1(4) by auto
  ultimately show ?thesis
    using sleep_loop_later [OF sy1(2), of tk "if due = [] then 0 else 1" "drop (length due) ns"]
    by (fastforce simp: sleep_timer_tick_def)
qed

text \<open>
  C40. The time a thread asks to sleep is computed in 32 bits: the entry that \<open>sleep_ms\<close> puts into the list has
  the nanoseconds modulo 2^32, so a sleep of 4295 or more milliseconds is shorter than asked for.
\<close>
theorem sleep_ms_wraps:
  assumes "sleep_rep sy cpu ps rs zs" "length ps + 1 < 2 ^ 32" "fresh (infos sy) s" "fresh (lnodes (s_lists (sl_sched sy))) n"
    and "cur (sl_sched sy) cpu \<noteq> NULL" "timer_installed sy \<noteq> 0"
  shows "\<exists>sy'. sleep_prepare sy cpu ms (l, s, n) tmr = Some sy' \<and> sleep_rep sy' cpu (s # ps) rs zs \<and>
    sleeper sy' s = cur (sl_sched sy) cpu \<and> unat (left sy' s) = unat ms * 1000000 mod 2 ^ 32"
proof -
  obtain ks where rep: "list_rep (s_lists (sl_sched sy)) (tlist sy) ks ps"
    using assms(1) by (auto simp: sleep_rep_def)
  then have t: "tlist sy \<noteq> NULL"
    using list_rep_valid by blast
  obtain lm where lm: "list_insert (s_lists (sl_sched sy)) (tlist sy) s 0 n = Some lm" "list_rep lm (tlist sy) (n # ks) (s # ps)"
    using list_insert_front [OF rep assms(4,2)] by blast
  have s: "s \<noteq> NULL" "s \<notin> set ps"
    using assms(1,3) by (auto simp: sleep_rep_def fresh_def valid_def)
  have "unat (ucast (ms * MS_TO_TICKS) :: u64) = unat ms * 1000000 mod 2 ^ 32"
    by (simp add: unsigned_ucast_eq take_bit_nat_eq_self MS_TO_TICKS_def unat_word_ariths)
  with assms(1,5,6) lm s t show ?thesis
    by (cases tmr)
      (auto simp: sleep_prepare_def heap_simps sleep_rep_def left_def sleeper_def sched_current_thread_def valid_def sched_rep_def Let_def)
qed

text \<open>The threads at 0x600 and 0x700 sleep, the first for 5 and the second for 50 more ticks.\<close>

definition example_sleepers :: sleepers where
  "example_sleepers = \<lparr>tlist = 0x60, timer_installed = 1,
     infos = \<lparr>cells = (\<lambda>p. if p = 0x70 then \<lparr>si_t = 0x600, si_tc = 5\<rparr> else \<lparr>si_t = 0x700, si_tc = 50\<rparr>), live = {0x70, 0x71}\<rparr>,
     sl_sched = example_sched\<lparr>
       threads := \<lparr>cells = (\<lambda>t. (cells (threads example_sched) t)\<lparr>t_state := if t \<in> {0x600, 0x700} then 3 else 1\<rparr>),
         live = {0x100, 0x200, 0x300, 0x400, 0x600, 0x700}\<rparr>,
       s_lists := \<lparr>lists = \<lparr>cells = (\<lambda>_. \<lparr>ll_len = 2, ll_head = 0x30, ll_tail = 0x31\<rparr>), live = {0x60}\<rparr>,
         lnodes = \<lparr>cells = (\<lambda>n. if n = 0x30 then \<lparr>ln_p = 0x70, ln_next = 0x31, ln_prev = 0\<rparr> else \<lparr>ln_p = 0x71, ln_next = 0, ln_prev = 0\<rparr>),
           live = {0x30, 0x31}\<rparr>\<rparr>\<rparr>\<rparr>"

lemma example_sleepers_rep: "sleep_rep example_sleepers 0 ([0x70] @ [0x71]) [0x200, 0x300] []"
proof -
  have "sched_rep (sl_sched example_sleepers) 0 [0x200, 0x300] []"
    using example_queues_rep
    by (simp add: sched_rep_def example_sleepers_def example_sched_def valid_def legal_state_def THREAD_STATE_READY_def THREAD_STATE_SLEEPING_def)
  moreover have "list_rep (s_lists (sl_sched example_sleepers)) (tlist example_sleepers) [0x30, 0x31] [0x70, 0x71]"
    by (simp add: list_rep_def example_sleepers_def valid_def lnext_def lval_def)
  ultimately show ?thesis
    by (auto simp: sleep_rep_def example_sleepers_def valid_def)
qed

theorem sleep_timer_tick_wakes_witness:
  "\<exists>sy'. sleep_timer_tick example_sleepers 10 [0x1000] = Some (sy', 1) \<and> sleep_rep sy' 0 [0x71] [0x200, 0x300, 0x600] [] \<and>
    left sy' 0x71 = 40"
proof -
  have "new_nodes (sl_sched example_sleepers) [0x1000]" "left example_sleepers 0x70 = 5" "left example_sleepers 0x71 = 50"
    "sleeper example_sleepers 0x70 = 0x600"
    by (simp_all add: new_nodes_def fresh_def example_sleepers_def example_sched_def example_queues_def left_def sleeper_def)
  then show ?thesis
    using sleep_timer_tick_wakes [OF example_sleepers_rep, of "[0x1000]" 10] by auto
qed

theorem sleep_ms_wraps_witness:
  "\<exists>sy'. sleep_prepare example_sleepers 0 4295 (0x61, 0x72, 0x32) (0, 0, 0, 0) = Some sy' \<and> unat (left sy' 0x72) = 32704"
  using sleep_ms_wraps [OF example_sleepers_rep, of "0x72" "0x32" 4295 "0x61" "(0, 0, 0, 0)"]
  by (auto simp: fresh_def example_sleepers_def example_sched_def)

end
